(* ===== verification/Prelude.thy ===== *)
theory Prelude
  imports Main "HOL-Library.Word" "HOL-Library.Code_Target_Nat" "HOL-Library.Multiset"
begin

text \<open>
  Shared ground of the development: machine integers, raw memory as a byte list with
  checked reads and writes, the ways in which a C or C++ operation can fail to return
  normally, the allocator, and one locale for inductive invariants of step relations.

  \<^item> \<open>fault\<close>: \<open>Bad_alloc\<close> is the exception of \<open>operator new\<close>, \<open>Undef\<close> is
    undefined behaviour (a read or write outside an allocation, \<open>back()\<close> of an empty
    \<open>std::list\<close>, a null dereference), \<open>Abort\<close> is a failed \<open>assert\<close>.
  \<^item> \<open>size_t\<close> values are \<open>nat\<close> with the wrap-around at 64 bits written out by
    \<open>add64\<close> and \<open>sub64\<close>.
  \<^item> Fresh memory is not initialised, so the bytes that \<open>new T[n]\<close> hands out are a
    parameter of the model (\<open>allocator\<close>); \<open>None\<close> is the exception.
\<close>

section \<open>Types and faults\<close>

type_synonym u8 = "8 word"
type_synonym u16 = "16 word"
type_synonym u32 = "32 word"
type_synonym u64 = "64 word"

datatype fault = Bad_alloc | Undef | Abort

type_synonym allocator = "nat \<Rightarrow> u8 list option"

definition alloc_ok :: "allocator \<Rightarrow> bool" where
  "alloc_ok A \<longleftrightarrow> (\<forall>n bs. A n = Some bs \<longrightarrow> length bs = n)"

definition zero_alloc :: allocator where
  "zero_alloc n = Some (replicate n 0)"

named_theorems size_t \<comment> \<open>arithmetic on \<open>size_t\<close> away from the wrap-around\<close>
named_theorems mem \<comment> \<open>checked memory access\<close>

lemma alloc_okD [dest]: "alloc_ok A \<Longrightarrow> A n = Some bs \<Longrightarrow> length bs = n"
  by (simp add: alloc_ok_def)

lemma alloc_ok_zero [simp]: "alloc_ok zero_alloc"
  by (simp add: alloc_ok_def zero_alloc_def)

section \<open>Arithmetic on size\_t\<close>

definition add64 :: "nat \<Rightarrow> nat \<Rightarrow> nat" where
  "add64 a b = (a + b) mod 2 ^ 64"

definition sub64 :: "nat \<Rightarrow> nat \<Rightarrow> nat" where
  "sub64 a b = (if b \<le> a then a - b else a + 2 ^ 64 - b)"

definition mul64 :: "nat \<Rightarrow> nat \<Rightarrow> nat" where
  "mul64 a b = (a * b) mod 2 ^ 64"

lemma mul64_exact [size_t]: "a * b < 2 ^ 64 \<Longrightarrow> mul64 a b = a * b"
  by (simp add: mul64_def)

lemma add64_exact [size_t]: "a + b < 2 ^ 64 \<Longrightarrow> add64 a b = a + b"
  by (simp add: add64_def)

lemma sub64_exact [size_t]: "b \<le> a \<Longrightarrow> sub64 a b = a - b"
  by (simp add: sub64_def)

lemma add64_0 [simp]: "a < 2 ^ 64 \<Longrightarrow> add64 a 0 = a"
  by (simp add: add64_def)

lemma sub64_0 [simp]: "sub64 a 0 = a"
  by (simp add: sub64_def)

lemma sub64_self [simp]: "sub64 a a = 0"
  by (simp add: sub64_def)

section \<open>Checked memory access\<close>

definition mem_read :: "u8 list \<Rightarrow> nat \<Rightarrow> nat \<Rightarrow> u8 list option" where
  "mem_read m off n = (if off + n \<le> length m then Some (take n (drop off m)) else None)"

definition mem_write :: "u8 list \<Rightarrow> nat \<Rightarrow> u8 list \<Rightarrow> u8 list option" where
  "mem_write m off xs =
     (if off + length xs \<le> length m
      then Some (take off m @ xs @ drop (off + length xs) m) else None)"

lemma mem_read_Some [mem]: "off + n \<le> length m \<Longrightarrow> mem_read m off n = Some (take n (drop off m))"
  by (simp add: mem_read_def)

lemma mem_write_Some [mem]:
  "off + length xs \<le> length m \<Longrightarrow>
   mem_write m off xs = Some (take off m @ xs @ drop (off + length xs) m)"
  by (simp add: mem_write_def)

lemma length_mem_write: "mem_write m off xs = Some m' \<Longrightarrow> length m' = length m"
  by (auto simp: mem_write_def split: if_splits)

lemma mem_write_read_same:
  "mem_write m off xs = Some m' \<Longrightarrow> mem_read m' off (length xs) = Some xs"
  by (auto simp: mem_write_def mem_read_def split: if_splits)

section \<open>Writing through an advancing pointer\<close>

text \<open>\<open>*pos++ = v\<close> in a buffer; \<open>None\<close> is a write behind its end.\<close>

definition put :: "u8 \<Rightarrow> u8 list \<times> nat \<Rightarrow> (u8 list \<times> nat) option" where
  "put v c = (if snd c < length (fst c) then Some ((fst c)[snd c := v], Suc (snd c)) else None)"

fun puts :: "u8 list \<Rightarrow> u8 list \<times> nat \<Rightarrow> (u8 list \<times> nat) option" where
  "puts [] c = Some c"
| "puts (v # vs) c = (case put v c of None \<Rightarrow> None | Some c' \<Rightarrow> puts vs c')"

lemma puts_append:
  "puts (vs @ ws) c = (case puts vs c of None \<Rightarrow> None | Some c' \<Rightarrow> puts ws c')"
  by (induction vs arbitrary: c) (simp_all split: option.splits)

lemma puts_single: "puts [v] c = put v c"
  by (simp split: option.splits)

lemma puts_mem_write:
  "pos \<le> length m \<Longrightarrow>
   puts vs (m, pos) = map_option (\<lambda>m'. (m', pos + length vs)) (mem_write m pos vs)"
proof (induction vs arbitrary: m pos)
  case (Cons v vs)
  show ?case
  proof (cases "pos < length m")
    case True
    then have "m[pos := v] = take pos m @ v # drop (Suc pos) m" by (rule upd_conv_take_nth_drop)
    with True Cons.IH[of "Suc pos" "m[pos := v]"] show ?thesis
      by (auto simp: put_def mem_write_def ac_simps)
  qed (use Cons.prems in \<open>simp add: put_def mem_write_def\<close>)
qed (simp add: mem_write_def)

section \<open>C strings\<close>

text \<open>The text in a buffer that is filled up with zeros.\<close>

lemma text_padded: "k \<noteq> 0 \<Longrightarrow> takeWhile (\<lambda>b. b \<noteq> (0::u8)) (xs @ replicate k 0) = takeWhile (\<lambda>b. b \<noteq> 0) xs"
  by (induction xs) (auto simp: neq0_conv gr0_conv_Suc)

section \<open>Lists seen from the back\<close>

lemma last_cons_butlast:
  "xs \<noteq> [] \<Longrightarrow> butlast xs @ [last xs] = xs"
  by simp

lemma rev_conv_last: "xs \<noteq> [] \<Longrightarrow> rev xs = last xs # rev (butlast xs)"
  by (metis append_butlast_last_id rev.simps(2) rev_swap)

section \<open>Sums over a list with one element replaced\<close>

lemma sum_list_map_update:
  fixes f :: "'a \<Rightarrow> 'b::comm_monoid_add"
  shows "i < length xs \<Longrightarrow>
    sum_list (map f (xs[i := x])) + f (xs ! i) = sum_list (map f xs) + f x"
proof (induction xs arbitrary: i)
  case (Cons a xs)
  then show ?case by (cases i) (simp_all add: ac_simps)
qed simp

lemma sum_list_replicate_0 [simp]: "sum_list (replicate n (0::'b::comm_monoid_add)) = 0"
  by (induction n) simp_all

lemma sum_list_map_pos:
  fixes f :: "'a \<Rightarrow> nat"
  shows "x \<in> set xs \<Longrightarrow> f x \<le> sum_list (map f xs)"
  by (induction xs) auto

lemma sum_list_map_ex:
  fixes f :: "'a \<Rightarrow> nat"
  shows "0 < sum_list (map f xs) \<Longrightarrow> \<exists>x \<in> set xs. 0 < f x"
  by (induction xs) auto

section \<open>Invariants of step relations\<close>

text \<open>
  Every concurrent component is a step relation together with an invariant that each
  step keeps. What follows from that for whole runs is proved once here.
\<close>

locale step_invariant =
  fixes step :: "'s \<Rightarrow> 's \<Rightarrow> bool" and inv :: "'s \<Rightarrow> bool"
  assumes inv_step: "inv s \<Longrightarrow> step s t \<Longrightarrow> inv t"
begin

lemma inv_run: "step\<^sup>*\<^sup>* s t \<Longrightarrow> inv s \<Longrightarrow> inv t"
  by (induction rule: rtranclp_induct) (auto intro: inv_step)

end

text \<open>
  With a measure that every step decreases, runs are bounded and a state in which
  nothing can move is always reached.
\<close>

locale measured_step = step_invariant +
  fixes m :: "'a \<Rightarrow> nat"
  assumes decrease: "inv s \<Longrightarrow> step s t \<Longrightarrow> m t < m s"
begin

lemma run_bound: "(step ^^ n) s t \<Longrightarrow> inv s \<Longrightarrow> n + m t \<le> m s"
proof (induction n arbitrary: t)
  case (Suc n)
  then obtain u where u: "(step ^^ n) s u" "step u t" by auto
  then have "inv u" using Suc.prems(2) by (blast intro: inv_run dest: relpowp_imp_rtranclp)
  with u Suc decrease[of u t] show ?case by fastforce
qed simp

lemma reaches_end: "inv s \<Longrightarrow> \<exists>t. step\<^sup>*\<^sup>* s t \<and> (\<forall>u. \<not> step t u)"
proof (induction "m s" arbitrary: s rule: less_induct)
  case less
  show ?case
  proof (cases "\<exists>u. step s u")
    case True
    then obtain u where u: "step s u" by blast
    with less decrease inv_step show ?thesis by (meson converse_rtranclp_into_rtranclp)
  qed blast
qed

end

end
