(* ===== verification/Byte_Queue.thy ===== *)
theory Byte_Queue
  imports Prelude
begin

text \<open>
  The interface between the byte buffer and the connection handler. The handler sees a
  queue of bytes through pointers: it asks for the oldest run of bytes (\<open>dataChunk\<close>),
  for free space (\<open>spaceChunk\<close>), writes into that space and commits what it wrote
  (\<open>spaceHaveSeted\<close>). The locale states what the handler relies on, with an
  abstraction \<open>cont\<close> to the list of queued bytes, oldest first; the two lemmas are the
  two moves the handler makes, moving bytes from one queue to another and receiving.
\<close>

text \<open>A pointer into a buffer: the chunk, counted from the front, and the byte in it.\<close>

datatype ptr = Ptr nat nat

locale byte_queue =
  fixes invar :: "'b \<Rightarrow> bool"
    and cont :: "'b \<Rightarrow> u8 list"
    and push :: "allocator \<Rightarrow> u8 list \<Rightarrow> 'b \<Rightarrow> 'b \<times> (fault + nat)"
    and drain :: "nat \<Rightarrow> 'b \<Rightarrow> 'b \<times> nat"
    and dataChunk :: "'b \<Rightarrow> fault + (ptr \<times> nat)"
    and spaceChunk :: "allocator \<Rightarrow> 'b \<Rightarrow> 'b \<times> (fault + (ptr \<times> nat))"
    and read_ptr :: "'b \<Rightarrow> ptr \<Rightarrow> nat \<Rightarrow> u8 list option"
    and write_ptr :: "'b \<Rightarrow> ptr \<Rightarrow> u8 list \<Rightarrow> 'b option"
    and commit :: "nat \<Rightarrow> 'b \<Rightarrow> fault + 'b"
  assumes push_law:
      "\<lbrakk>alloc_ok A; invar b; length (cont b) + length xs < 2 ^ 64; push A xs b = (b', v)\<rbrakk> \<Longrightarrow>
       invar b' \<and> (v = Inl Bad_alloc \<and> (\<exists>k. cont b' = cont b @ take k xs) \<or>
                   v = Inr (length xs) \<and> cont b' = cont b @ xs)"
    and drain_law:
      "\<lbrakk>invar b; drain n b = (b', m)\<rbrakk> \<Longrightarrow>
       invar b' \<and> m = min n (length (cont b)) \<and> cont b' = drop n (cont b)"
    and dataChunk_law:
      "\<lbrakk>invar b; cont b \<noteq> []\<rbrakk> \<Longrightarrow>
       \<exists>q n. dataChunk b = Inr (q, n) \<and> 0 < n \<and> n \<le> length (cont b) \<and>
             read_ptr b q n = Some (take n (cont b))"
    and spaceChunk_law:
      "\<lbrakk>alloc_ok A; invar b; spaceChunk A b = (b', r)\<rbrakk> \<Longrightarrow>
       invar b' \<and> cont b' = cont b \<and>
       (r = Inl Bad_alloc \<or>
        (\<exists>q n. r = Inr (q, n) \<and> 0 < n \<and>
           (\<forall>xs. length xs \<le> n \<longrightarrow> length (cont b) + length xs < 2 ^ 64 \<longrightarrow>
              (\<exists>b'' b'''. write_ptr b' q xs = Some b'' \<and> commit (length xs) b'' = Inr b''' \<and>
                 invar b''' \<and> cont b''' = cont b @ xs))))"
begin

text \<open>Moving the oldest run of \<open>r\<close> to the end of \<open>w\<close> neither loses nor reorders bytes.\<close>

lemma transfer:
  assumes A: "alloc_ok A" and "invar r" "invar w" "cont r \<noteq> []"
    and "length (cont w) + length (cont r) < 2 ^ 64"
  shows "\<exists>q n xs. dataChunk r = Inr (q, n) \<and> read_ptr r q n = Some xs \<and> 0 < length xs \<and>
     (\<forall>w' v r' m. push A xs w = (w', v) \<longrightarrow> drain n r = (r', m) \<longrightarrow>
        invar w' \<and> invar r' \<and>
        (v = Inl Bad_alloc \<or>
         v = Inr (length xs) \<and> cont w' @ cont r' = cont w @ cont r \<and>
         length (cont r') < length (cont r)))"
proof -
  from dataChunk_law[OF assms(2,4)] obtain q n where
    d: "dataChunk r = Inr (q, n)" "0 < n" "n \<le> length (cont r)"
       "read_ptr r q n = Some (take n (cont r))" by blast
  have len: "length (cont w) + length (take n (cont r)) < 2 ^ 64"
    using assms(5) d(3) by simp
  have "invar w' \<and> invar r' \<and>
        (v = Inl Bad_alloc \<or>
         v = Inr (length (take n (cont r))) \<and> cont w' @ cont r' = cont w @ cont r \<and>
         length (cont r') < length (cont r))"
    if "push A (take n (cont r)) w = (w', v)" "drain n r = (r', m)" for w' v r' m
    using push_law[OF A assms(3) len that(1)] drain_law[OF assms(2) that(2)] d(2,3) by auto
  with d show ?thesis by auto
qed

text \<open>Receiving into the free space and committing appends the received bytes.\<close>

lemma receive:
  assumes "alloc_ok A" "invar b" "spaceChunk A b = (b', Inr (q, n))" "length xs \<le> n"
    and "length (cont b) + length xs < 2 ^ 64"
  shows "\<exists>b'' b'''. write_ptr b' q xs = Some b'' \<and> commit (length xs) b'' = Inr b''' \<and>
           invar b''' \<and> cont b''' = cont b @ xs"
  using spaceChunk_law[OF assms(1-3)] assms(4,5) by auto

end

end
