(* ===== verification/Buffer.thy ===== *)
theory Buffer
  imports Byte_Queue
begin

text \<open>
  \<open>tl::buffer\<close> (buffer.h, buffer.cc): a queue of bytes in a list of chunks. New data goes
  to the front chunk, data is drained from the back chunk. Every operation of the class
  is a definition here; \<open>contents\<close> is the abstract value, the queued bytes oldest first,
  and \<open>wf_buffer\<close> the class invariant. A pointer that the code returns is a \<open>ptr\<close>, and
  \<open>read_ptr\<close> and \<open>write_ptr\<close> are what the caller does through it.
\<close>

section \<open>State\<close>

record chunk =
  ch_p :: "u8 list"
  ch_offset :: nat
  ch_end :: nat
  ch_cap :: nat

record buffer =
  buf_size :: nat
  default_chunk_size :: nat
  chunk_list :: "chunk list"

definition new_buffer :: buffer where
  "new_buffer = \<lparr>buf_size = 0, default_chunk_size = 4096, chunk_list = []\<rparr>"

definition Chunk_new :: "allocator \<Rightarrow> nat \<Rightarrow> chunk option" where
  "Chunk_new A len =
     map_option (\<lambda>m. \<lparr>ch_p = m, ch_offset = 0, ch_end = 0, ch_cap = len\<rparr>) (A len)"

abbreviation ch_len :: "chunk \<Rightarrow> nat" where
  "ch_len ch \<equiv> sub64 (ch_end ch) (ch_offset ch)"

fun read_ptr :: "buffer \<Rightarrow> ptr \<Rightarrow> nat \<Rightarrow> u8 list option" where
  "read_ptr b (Ptr i off) n =
     (if i < length (chunk_list b) then mem_read (ch_p (chunk_list b ! i)) off n else None)"

fun write_ptr :: "buffer \<Rightarrow> ptr \<Rightarrow> u8 list \<Rightarrow> buffer option" where
  "write_ptr b (Ptr i off) xs =
     (if i < length (chunk_list b)
      then (let ch = chunk_list b ! i in
            map_option (\<lambda>m. b\<lparr>chunk_list := (chunk_list b)[i := ch\<lparr>ch_p := m\<rparr>]\<rparr>)
              (mem_write (ch_p ch) off xs))
      else None)"

section \<open>Operations\<close>

subsection \<open>push\<close>

text \<open>The first part of \<open>push\<close> fills the free space of the front chunk.\<close>

definition fill_first :: "u8 list \<Rightarrow> buffer \<Rightarrow> (buffer \<times> u8 list) option" where
  "fill_first src b = (case chunk_list b of
     [] \<Rightarrow> Some (b, src)
   | ch # rest \<Rightarrow>
       if ch_cap ch > ch_end ch then
         (let to_copy = min (sub64 (ch_cap ch) (ch_end ch)) (length src) in
          case mem_write (ch_p ch) (ch_end ch) (take to_copy src) of
            None \<Rightarrow> None
          | Some m \<Rightarrow>
              Some (b\<lparr>chunk_list := ch\<lparr>ch_p := m, ch_end := add64 (ch_end ch) to_copy\<rparr> # rest,
                      buf_size := add64 (buf_size b) to_copy\<rparr>,
                    drop to_copy src))
       else Some (b, src))"

definition push :: "allocator \<Rightarrow> u8 list \<Rightarrow> buffer \<Rightarrow> buffer \<times> (fault + nat)" where
  "push A src b = (case fill_first src b of
     None \<Rightarrow> (b, Inl Undef)
   | Some (b1, left) \<Rightarrow>
       if left = [] then (b1, Inr (length src))
       else
         (let chunk_size = (if length left > default_chunk_size b1 then length left
                            else default_chunk_size b1) in
          case Chunk_new A chunk_size of
            None \<Rightarrow> (b1, Inl Bad_alloc)
          | Some nc \<Rightarrow>
              (case mem_write (ch_p nc) 0 left of
                 None \<Rightarrow> (b1, Inl Undef)
               | Some m \<Rightarrow>
                   (b1\<lparr>chunk_list := nc\<lparr>ch_p := m, ch_end := length left\<rparr> # chunk_list b1,
                       buf_size := add64 (buf_size b1) (length left)\<rparr>,
                    Inr (length src)))))"

subsection \<open>drain\<close>

text \<open>
  The loop pops whole chunks from the back; its early return (part of a chunk) gives
  the requested length, so both exits are the pair of the chunks left and the length
  that is subtracted from the size and returned.
\<close>

function drain_loop :: "nat \<Rightarrow> nat \<Rightarrow> chunk list \<Rightarrow> chunk list \<times> nat" where
  "drain_loop len drain_len cl =
     (if drain_len < len \<and> cl \<noteq> [] then
        (let ch = last cl in
         if sub64 len drain_len \<ge> ch_len ch
         then drain_loop len (add64 drain_len (ch_len ch)) (butlast cl)
         else (butlast cl @
                 [ch\<lparr>ch_offset := add64 (ch_offset ch) (sub64 len drain_len)\<rparr>], len))
      else (cl, drain_len))"
  by pat_completeness auto
termination by (relation "measure (\<lambda>(_, _, cl). length cl)") auto

declare drain_loop.simps [simp del]

definition drain :: "nat \<Rightarrow> buffer \<Rightarrow> buffer \<times> nat" where
  "drain len b =
     (let (cl, n) = drain_loop len 0 (chunk_list b)
      in (b\<lparr>chunk_list := cl, buf_size := sub64 (buf_size b) n\<rparr>, n))"

subsection \<open>data and dataChunk\<close>

text \<open>
  The copying loop of \<open>data\<close> does not advance past a chunk with no data, so it may run
  for ever: \<open>None\<close>.
\<close>

partial_function (option) data_loop ::
  "nat \<Rightarrow> nat \<Rightarrow> u8 list \<Rightarrow> chunk list \<Rightarrow> (fault + u8 list \<times> chunk list) option" where
  "data_loop len copied new_p cl =
     (if copied < len then
        (if cl = [] then Some (Inl Undef)
         else
           (let ch = last cl in
            if ch_end ch > ch_offset ch then
              (let to_copy = min (ch_len ch) (sub64 len copied) in
               case mem_read (ch_p ch) (ch_offset ch) to_copy of
                 None \<Rightarrow> Some (Inl Undef)
               | Some xs \<Rightarrow>
                   (case mem_write new_p copied xs of
                      None \<Rightarrow> Some (Inl Undef)
                    | Some m \<Rightarrow>
                        data_loop len (add64 copied to_copy) m
                          (if to_copy \<ge> ch_len ch then butlast cl
                           else butlast cl @
                                  [ch\<lparr>ch_offset := add64 (ch_offset ch) to_copy\<rparr>])))
            else data_loop len copied new_p cl))
      else Some (Inr (new_p, cl)))"

declare data_loop.simps [code]

definition data :: "allocator \<Rightarrow> nat \<Rightarrow> buffer \<Rightarrow> (buffer \<times> (fault + ptr option)) option" where
  "data A len b =
     (if buf_size b < len then Some (b, Inr None)
      else if chunk_list b = [] then Some (b, Inl Undef)
      else if len \<le> ch_len (last (chunk_list b))
      then Some (b, Inr (Some (Ptr (length (chunk_list b) - 1)
                                   (ch_offset (last (chunk_list b))))))
      else
        (case Chunk_new A len of
           None \<Rightarrow> Some (b, Inl Bad_alloc)
         | Some nc \<Rightarrow>
             (case data_loop len 0 (ch_p nc) (chunk_list b) of
                None \<Rightarrow> None
              | Some (Inl f) \<Rightarrow> Some (b, Inl f)
              | Some (Inr (m, cl)) \<Rightarrow>
                  Some (b\<lparr>chunk_list := cl @ [nc\<lparr>ch_p := m, ch_end := len\<rparr>]\<rparr>,
                        Inr (Some (Ptr (length cl) 0))))))"

definition dataChunk :: "buffer \<Rightarrow> fault + (ptr \<times> nat)" where
  "dataChunk b =
     (if chunk_list b = [] then Inl Undef
      else (let ch = last (chunk_list b)
            in Inr (Ptr (length (chunk_list b) - 1) (ch_offset ch), ch_len ch)))"

subsection \<open>space, spaceChunk and spaceHaveSeted\<close>

definition space :: "allocator \<Rightarrow> nat \<Rightarrow> buffer \<Rightarrow> buffer \<times> (fault + ptr)" where
  "space A len b =
     (if chunk_list b \<noteq> [] \<and>
         sub64 (ch_cap (hd (chunk_list b))) (ch_end (hd (chunk_list b))) \<ge> len
      then (b, Inr (Ptr 0 (ch_end (hd (chunk_list b)))))
      else
        (let cl = dropWhile (\<lambda>ch. ch_offset ch = ch_end ch) (chunk_list b);
             newlen = max len (default_chunk_size b)
         in case Chunk_new A newlen of
              None \<Rightarrow> (b\<lparr>chunk_list := cl\<rparr>, Inl Bad_alloc)
            | Some nc \<Rightarrow>
                (b\<lparr>chunk_list := nc\<lparr>ch_cap := newlen\<rparr> # cl\<rparr>, Inr (Ptr 0 0))))"

definition spaceChunk :: "allocator \<Rightarrow> buffer \<Rightarrow> buffer \<times> (fault + (ptr \<times> nat))" where
  "spaceChunk A b =
     (if chunk_list b \<noteq> [] \<and>
         sub64 (ch_cap (hd (chunk_list b))) (ch_end (hd (chunk_list b))) > 0
      then (b, Inr (Ptr 0 (ch_end (hd (chunk_list b))),
                    sub64 (ch_cap (hd (chunk_list b))) (ch_end (hd (chunk_list b)))))
      else
        (case Chunk_new A (default_chunk_size b) of
           None \<Rightarrow> (b, Inl Bad_alloc)
         | Some nc \<Rightarrow>
             (b\<lparr>chunk_list := nc\<lparr>ch_cap := default_chunk_size b\<rparr> # chunk_list b\<rparr>,
              Inr (Ptr 0 0, default_chunk_size b))))"

definition spaceHaveSeted :: "nat \<Rightarrow> buffer \<Rightarrow> fault + buffer" where
  "spaceHaveSeted len b = (case chunk_list b of
     [] \<Rightarrow> Inl Undef
   | ch # rest \<Rightarrow>
       Inr (b\<lparr>chunk_list := ch\<lparr>ch_end := add64 (ch_end ch) len\<rparr> # rest,
              buf_size := add64 (buf_size b) len\<rparr>))"

subsection \<open>size, default\_chunk\_size, operator[] and swap\<close>

definition size_buffer :: "buffer \<Rightarrow> nat" where
  "size_buffer b = buf_size b"

definition set_default_chunk_size :: "nat \<Rightarrow> buffer \<Rightarrow> buffer" where
  "set_default_chunk_size n b = b\<lparr>default_chunk_size := n\<rparr>"

text \<open>
  \<open>operator[]\<close> returns a reference: to a byte of a chunk, or, past the end, to one
  function-static byte shared by all buffers.
\<close>

datatype lvalue = Elem ptr | Static_todo

function index_loop :: "nat \<Rightarrow> nat \<Rightarrow> chunk list \<Rightarrow> fault + lvalue" where
  "index_loop i cur cl =
     (if cl = [] then Inr Static_todo
      else
        (let ch = last cl in
         if sub64 (add64 cur (ch_end ch)) (ch_offset ch) > i
         then (let k = add64 (sub64 i cur) (ch_offset ch) in
               if k < length (ch_p ch) then Inr (Elem (Ptr (length cl - 1) k)) else Inl Undef)
         else index_loop i (add64 cur (ch_len ch)) (butlast cl)))"
  by pat_completeness auto
termination by (relation "measure (\<lambda>(_, _, cl). length cl)") auto

declare index_loop.simps [simp del]

definition index :: "buffer \<Rightarrow> nat \<Rightarrow> fault + lvalue" where
  "index b i = index_loop i 0 (chunk_list b)"

fun load :: "u8 \<Rightarrow> buffer \<Rightarrow> lvalue \<Rightarrow> u8 option" where
  "load todo b (Elem q) = map_option hd (read_ptr b q 1)"
| "load todo b Static_todo = Some todo"

definition swap :: "buffer \<Rightarrow> buffer \<Rightarrow> buffer \<times> buffer" where
  "swap this x =
     (this\<lparr>buf_size := buf_size x, default_chunk_size := default_chunk_size x,
           chunk_list := chunk_list x\<rparr>,
      x\<lparr>buf_size := buf_size this, default_chunk_size := default_chunk_size this,
        chunk_list := chunk_list this\<rparr>)"

section \<open>Abstraction and class invariant\<close>

definition chunk_bytes :: "chunk \<Rightarrow> u8 list" where
  "chunk_bytes ch = take (ch_end ch - ch_offset ch) (drop (ch_offset ch) (ch_p ch))"

definition chunks_bytes :: "chunk list \<Rightarrow> u8 list" where
  "chunks_bytes cl = concat (map chunk_bytes (rev cl))"

definition contents :: "buffer \<Rightarrow> u8 list" where
  "contents b = chunks_bytes (chunk_list b)"

definition wf_chunk :: "chunk \<Rightarrow> bool" where
  "wf_chunk ch \<longleftrightarrow> length (ch_p ch) = ch_cap ch \<and> ch_offset ch \<le> ch_end ch \<and>
     ch_end ch \<le> ch_cap ch \<and> ch_cap ch < 2 ^ 64"

definition has_data :: "chunk \<Rightarrow> bool" where
  "has_data ch \<longleftrightarrow> ch_offset ch < ch_end ch"

text \<open>
  Only the front chunk may hold no data, and then it has room: this is what makes the
  loops of \<open>data\<close> and of the handler's echo advance.
\<close>

definition wf_chunks :: "chunk list \<Rightarrow> bool" where
  "wf_chunks cl \<longleftrightarrow> (\<forall>ch \<in> set cl. wf_chunk ch) \<and> (\<forall>ch \<in> set (tl cl). has_data ch) \<and>
     (cl \<noteq> [] \<longrightarrow> has_data (hd cl) \<or> ch_end (hd cl) < ch_cap (hd cl))"

definition wf_buffer :: "buffer \<Rightarrow> bool" where
  "wf_buffer b \<longleftrightarrow> wf_chunks (chunk_list b) \<and> buf_size b = length (contents b) \<and>
     buf_size b < 2 ^ 64 \<and> 0 < default_chunk_size b \<and> default_chunk_size b < 2 ^ 64"

named_theorems chunk_simps \<comment> \<open>bytes of chunks and chunk lists\<close>

lemma chunks_bytes_Nil [simp, chunk_simps]: "chunks_bytes [] = []"
  by (simp add: chunks_bytes_def)

lemma chunks_bytes_Cons [chunk_simps]: "chunks_bytes (ch # cl) = chunks_bytes cl @ chunk_bytes ch"
  by (simp add: chunks_bytes_def)

lemma chunks_bytes_snoc [chunk_simps]: "chunks_bytes (cl @ [ch]) = chunk_bytes ch @ chunks_bytes cl"
  by (simp add: chunks_bytes_def)

lemma length_chunk_bytes [chunk_simps]:
  "wf_chunk ch \<Longrightarrow> length (chunk_bytes ch) = ch_end ch - ch_offset ch"
  by (auto simp: wf_chunk_def chunk_bytes_def)

lemma ch_len_exact [size_t]: "wf_chunk ch \<Longrightarrow> ch_len ch = ch_end ch - ch_offset ch"
  by (simp add: wf_chunk_def sub64_def)

lemma ch_room_exact [size_t]: "wf_chunk ch \<Longrightarrow> sub64 (ch_cap ch) (ch_end ch) = ch_cap ch - ch_end ch"
  by (simp add: wf_chunk_def sub64_def)

lemma has_data_iff: "wf_chunk ch \<Longrightarrow> has_data ch \<longleftrightarrow> chunk_bytes ch \<noteq> []"
  by (auto simp: has_data_def chunk_bytes_def wf_chunk_def)

lemma has_data_len: "wf_chunk ch \<Longrightarrow> has_data ch \<longleftrightarrow> 0 < ch_len ch"
  by (simp add: size_t) (simp add: has_data_def)

lemma wf_chunks_Nil [simp]: "wf_chunks []"
  by (simp add: wf_chunks_def)

lemma wf_chunks_Cons:
  "wf_chunks (ch # cl) \<longleftrightarrow> wf_chunk ch \<and> (has_data ch \<or> ch_end ch < ch_cap ch) \<and>
     (\<forall>c \<in> set cl. wf_chunk c \<and> has_data c)"
  by (auto simp: wf_chunks_def)

lemma wf_chunks_all_data:
  "(\<And>c. c \<in> set cl \<Longrightarrow> wf_chunk c \<and> has_data c) \<Longrightarrow> wf_chunks cl"
  by (cases cl) (auto simp: wf_chunks_Cons)

lemma wf_chunks_snoc:
  "wf_chunks (cl @ [ch]) \<longleftrightarrow> wf_chunks cl \<and> wf_chunk ch \<and>
     (has_data ch \<or> cl = [] \<and> ch_end ch < ch_cap ch)"
  by (cases cl) (auto simp: wf_chunks_Cons)

text \<open>Removing the first \<open>k\<close> bytes of a chunk by advancing its offset.\<close>

lemma advance_chunk:
  assumes "wf_chunk ch" "k < ch_len ch"
  shows "wf_chunk (ch\<lparr>ch_offset := add64 (ch_offset ch) k\<rparr>)"
    and "has_data (ch\<lparr>ch_offset := add64 (ch_offset ch) k\<rparr>)"
    and "chunk_bytes (ch\<lparr>ch_offset := add64 (ch_offset ch) k\<rparr>) = drop k (chunk_bytes ch)"
proof -
  from assms have "k < ch_end ch - ch_offset ch" by (simp add: size_t)
  with assms(1) have "add64 (ch_offset ch) k = ch_offset ch + k" "ch_offset ch + k < ch_end ch"
    by (auto simp: wf_chunk_def intro!: add64_exact)
  with assms(1) show "wf_chunk (ch\<lparr>ch_offset := add64 (ch_offset ch) k\<rparr>)"
    "has_data (ch\<lparr>ch_offset := add64 (ch_offset ch) k\<rparr>)"
    "chunk_bytes (ch\<lparr>ch_offset := add64 (ch_offset ch) k\<rparr>) = drop k (chunk_bytes ch)"
    by (simp_all add: wf_chunk_def has_data_def chunk_bytes_def drop_take add.commute)
qed

text \<open>Storing bytes at the end of a chunk with room for them.\<close>

lemma extend_chunk:
  assumes "wf_chunk ch" "ch_end ch + length xs \<le> ch_cap ch"
  shows "\<exists>m. mem_write (ch_p ch) (ch_end ch) xs = Some m \<and>
     wf_chunk (ch\<lparr>ch_p := m, ch_end := add64 (ch_end ch) (length xs)\<rparr>) \<and>
     chunk_bytes (ch\<lparr>ch_p := m, ch_end := add64 (ch_end ch) (length xs)\<rparr>) = chunk_bytes ch @ xs"
proof -
  from assms have "add64 (ch_end ch) (length xs) = ch_end ch + length xs"
    by (auto simp: wf_chunk_def intro!: add64_exact)
  with assms show ?thesis
    by (auto simp: wf_chunk_def mem chunk_bytes_def drop_take)
qed

lemma wf_new_buffer: "wf_buffer new_buffer" and contents_new_buffer: "contents new_buffer = []"
  by (simp_all add: wf_buffer_def new_buffer_def contents_def)

end
