(* ===== verification/Buffer_Correct.thy ===== *)
theory Buffer_Correct
  imports Buffer
begin

text \<open>
  Every operation of \<open>tl::buffer\<close> keeps the class invariant and acts on the abstract byte
  queue as its header comment promises; the interface of the connection handler is
  interpreted on the buffer at the end.
\<close>

section \<open>push\<close>

lemma wf_bufferD:
  assumes "wf_buffer b"
  shows "wf_chunks (chunk_list b)" "buf_size b = length (contents b)"
    "buf_size b < 2 ^ 64" "0 < default_chunk_size b" "default_chunk_size b < 2 ^ 64"
  using assms by (simp_all add: wf_buffer_def)

text \<open>Writing to the front chunk keeps it one that holds data or has room.\<close>

lemma extend_front:
  assumes "wf_chunk ch" and "ch_end ch < ch_cap ch" and "length xs \<le> ch_cap ch - ch_end ch"
  shows "\<exists>m. mem_write (ch_p ch) (ch_end ch) xs = Some m \<and>
    (let ch' = ch\<lparr>ch_p := m, ch_end := add64 (ch_end ch) (length xs)\<rparr> in
      wf_chunk ch' \<and> chunk_bytes ch' = chunk_bytes ch @ xs \<and> (xs \<noteq> [] \<longrightarrow> has_data ch') \<and>
      (has_data ch' \<or> ch_end ch' < ch_cap ch'))"
proof -
  have "ch_end ch + length xs \<le> ch_cap ch" using assms(2,3) by simp
  from extend_chunk[OF assms(1) this] obtain m where m: "mem_write (ch_p ch) (ch_end ch) xs = Some m"
    and wf: "wf_chunk (ch\<lparr>ch_p := m, ch_end := add64 (ch_end ch) (length xs)\<rparr>)" (is "wf_chunk ?ch")
    and bytes: "chunk_bytes (ch\<lparr>ch_p := m, ch_end := add64 (ch_end ch) (length xs)\<rparr>) = chunk_bytes ch @ xs" by blast
  have data: "has_data ?ch" if "xs \<noteq> []" using has_data_iff[OF wf] bytes that by simp
  have "ch_end ch < 2 ^ 64" using assms(1) by (simp add: wf_chunk_def)
  then have "ch_end ?ch < ch_cap ?ch" if "xs = []" using assms(2) that by simp
  with m wf bytes data show ?thesis by (cases "xs = []") (auto simp: Let_def)
qed

lemma fill_front:
  assumes wf: "wf_buffer b" and len: "length (contents b) + length src < 2 ^ 64" and cl: "chunk_list b = ch # rest"
    and room: "ch_end ch < ch_cap ch" and k: "k = min (ch_cap ch - ch_end ch) (length src)"
  shows "\<exists>b1. fill_first src b = Some (b1, drop k src) \<and> wf_buffer b1 \<and> contents b1 = contents b @ take k src \<and>
    default_chunk_size b1 = default_chunk_size b \<and>
    (k < length src \<longrightarrow> (\<forall>c \<in> set (chunk_list b1). wf_chunk c \<and> has_data c))"
proof -
  note wfD = wf_bufferD[OF wf]
  from wfD(1) cl have ch: "wf_chunk ch" and rest: "\<forall>c \<in> set rest. wf_chunk c \<and> has_data c" by (simp_all add: wf_chunks_Cons)
  have kl: "length (take k src) = k" by (simp add: k)
  from extend_front[OF ch room, of "take k src"] obtain m where
    m: "mem_write (ch_p ch) (ch_end ch) (take k src) = Some m"
    and ch': "wf_chunk (ch\<lparr>ch_p := m, ch_end := add64 (ch_end ch) k\<rparr>)"
      "chunk_bytes (ch\<lparr>ch_p := m, ch_end := add64 (ch_end ch) k\<rparr>) = chunk_bytes ch @ take k src"
      "take k src \<noteq> [] \<Longrightarrow> has_data (ch\<lparr>ch_p := m, ch_end := add64 (ch_end ch) k\<rparr>)"
      "has_data (ch\<lparr>ch_p := m, ch_end := add64 (ch_end ch) k\<rparr>) \<or> add64 (ch_end ch) k < ch_cap ch"
    unfolding kl by (auto simp: k Let_def)
  define b1 where "b1 = b\<lparr>chunk_list := ch\<lparr>ch_p := m, ch_end := add64 (ch_end ch) k\<rparr> # rest, buf_size := add64 (buf_size b) k\<rparr>"
  have eq: "fill_first src b = Some (b1, drop k src)"
    using room m ch by (simp add: fill_first_def cl size_t k b1_def Let_def)
  have cont: "contents b1 = contents b @ take k src" by (simp add: b1_def contents_def cl chunk_simps ch'(2))
  have "k \<le> length src" by (simp add: k)
  then have size: "buf_size b1 = length (contents b1)" using wfD(2) len by (simp add: cont) (simp add: b1_def size_t)
  have "wf_buffer b1"
    using ch'(1,4) rest size wfD(4,5) len cont by (simp add: wf_buffer_def) (simp add: b1_def wf_chunks_Cons)
  moreover have "\<forall>c \<in> set (chunk_list b1). wf_chunk c \<and> has_data c" if "k < length src"
  proof -
    have "take k src \<noteq> []" using that room by (auto simp: k)
    with ch'(1,3) rest show ?thesis by (simp add: b1_def)
  qed
  ultimately show ?thesis using eq cont by (auto simp: b1_def)
qed

lemma fill_first_correct:
  assumes wf: "wf_buffer b" and len: "length (contents b) + length src < 2 ^ 64"
  shows "\<exists>b1 k. fill_first src b = Some (b1, drop k src) \<and> k \<le> length src \<and> wf_buffer b1 \<and>
     contents b1 = contents b @ take k src \<and> default_chunk_size b1 = default_chunk_size b \<and>
     (k < length src \<longrightarrow> (\<forall>c \<in> set (chunk_list b1). wf_chunk c \<and> has_data c))"
proof (cases "chunk_list b")
  case Nil
  then show ?thesis using wf by (auto simp: fill_first_def intro!: exI[of _ 0])
next
  case (Cons ch rest)
  from wf_bufferD(1)[OF wf] Cons have ch: "wf_chunk ch" "\<forall>c \<in> set rest. wf_chunk c \<and> has_data c"
    "has_data ch \<or> ch_end ch < ch_cap ch" by (simp_all add: wf_chunks_Cons)
  show ?thesis
  proof (cases "ch_end ch < ch_cap ch")
    case False
    with Cons wf ch show ?thesis by (auto simp: fill_first_def intro!: exI[of _ 0])
  next
    case True
    from fill_front[OF wf len Cons True refl] show ?thesis by (meson min.cobounded2)
  qed
qed

lemma add_front_chunk:
  assumes "\<forall>c \<in> set cl. wf_chunk c \<and> has_data c" "cap < 2 ^ 64" "length m = cap" "n \<le> cap" "0 < cap"
  shows "wf_chunks (\<lparr>ch_p = m, ch_offset = 0, ch_end = n, ch_cap = cap\<rparr> # cl)"
    and "chunks_bytes (\<lparr>ch_p = m, ch_offset = 0, ch_end = n, ch_cap = cap\<rparr> # cl) =
         chunks_bytes cl @ take n m"
  using assms by (auto simp: wf_chunks_Cons wf_chunk_def has_data_def chunks_bytes_Cons chunk_bytes_def)

text \<open>What does not fit goes into a new chunk.\<close>

lemma push_chunk:
  assumes wf: "wf_buffer b" and all: "\<forall>c \<in> set (chunk_list b). wf_chunk c \<and> has_data c" and ne: "left \<noteq> []"
    and len: "length (contents b) + length left < 2 ^ 64"
    and cs: "cs = (if length left > default_chunk_size b then length left else default_chunk_size b)" and m0: "length m0 = cs"
  shows "\<exists>m. mem_write m0 0 left = Some m \<and>
    (let b' = b\<lparr>chunk_list := \<lparr>ch_p = m, ch_offset = 0, ch_end = length left, ch_cap = cs\<rparr> # chunk_list b,
                buf_size := add64 (buf_size b) (length left)\<rparr>
     in wf_buffer b' \<and> contents b' = contents b @ left)"
proof -
  note wfD = wf_bufferD[OF wf]
  define m where "m = left @ drop (length left) m0"
  have c: "cs < 2 ^ 64" "0 < cs" "length left \<le> cs" using len wfD(4,5) by (auto simp: cs)
  then have mw: "mem_write m0 0 left = Some m" and lm: "length m = cs" using m0 by (simp_all add: mem m_def)
  define nc where "nc = \<lparr>ch_p = m, ch_offset = 0, ch_end = length left, ch_cap = cs\<rparr>"
  define b' where "b' = b\<lparr>chunk_list := nc # chunk_list b, buf_size := add64 (buf_size b) (length left)\<rparr>"
  have front: "wf_chunks (nc # chunk_list b)" "contents b' = contents b @ left"
    using add_front_chunk[OF all c(1) lm c(3) c(2)] by (auto simp: nc_def b'_def contents_def m_def)
  have "buf_size b' = length (contents b')" using wfD(2) len by (simp add: front(2)) (simp add: b'_def size_t)
  then have "wf_buffer b'" using front wfD(4,5) len by (simp add: wf_buffer_def) (simp add: b'_def)
  with mw front(2) show ?thesis by (auto simp: Let_def b'_def nc_def)
qed

lemma push_correct:
  assumes wf: "wf_buffer b" and A: "alloc_ok A"
    and len: "length (contents b) + length src < 2 ^ 64"
    and push: "push A src b = (b', r)"
  shows "wf_buffer b' \<and> default_chunk_size b' = default_chunk_size b \<and>
     (r = Inr (length src) \<and> contents b' = contents b @ src \<or>
      r = Inl Bad_alloc \<and> (\<exists>k < length src. contents b' = contents b @ take k src))"
proof -
  from fill_first_correct[OF wf len] obtain b1 k where
    f: "fill_first src b = Some (b1, drop k src)" and k: "k \<le> length src" and wf1: "wf_buffer b1"
    and c1: "contents b1 = contents b @ take k src"
    and d1: "default_chunk_size b1 = default_chunk_size b"
    and all: "k < length src \<longrightarrow> (\<forall>c \<in> set (chunk_list b1). wf_chunk c \<and> has_data c)" by blast
  show ?thesis
  proof (cases "k = length src")
    case True
    with push f wf1 c1 d1 show ?thesis by (simp add: push_def)
  next
    case False
    with k have kl: "k < length src" by simp
    define cs where "cs = (if length (drop k src) > default_chunk_size b1 then length (drop k src) else default_chunk_size b1)"
    show ?thesis
    proof (cases "A cs")
      case None
      then have "b' = b1 \<and> r = Inl Bad_alloc"
        using push f kl by (simp add: push_def Chunk_new_def cs_def split: if_splits)
      with wf1 c1 d1 kl show ?thesis by auto
    next
      case (Some m0)
      then have "length m0 = cs" using A by blast
      moreover have "length (contents b1) + length (drop k src) < 2 ^ 64" using c1 len kl by simp
      ultimately obtain m where m: "mem_write m0 0 (drop k src) = Some m"
        "wf_buffer (b1\<lparr>chunk_list := \<lparr>ch_p = m, ch_offset = 0, ch_end = length (drop k src), ch_cap = cs\<rparr> # chunk_list b1,
            buf_size := add64 (buf_size b1) (length (drop k src))\<rparr>)" (is "wf_buffer ?b'")
        "contents (b1\<lparr>chunk_list := \<lparr>ch_p = m, ch_offset = 0, ch_end = length (drop k src), ch_cap = cs\<rparr> # chunk_list b1,
            buf_size := add64 (buf_size b1) (length (drop k src))\<rparr>) = contents b1 @ drop k src"
        using push_chunk[OF wf1 mp[OF all kl] _ _ cs_def] kl by (auto simp: Let_def)
      have "b' = ?b'" "r = Inr (length src)"
        using push f kl Some m(1) by (auto simp: push_def Chunk_new_def Let_def cs_def split: if_splits)
      with m(2,3) c1 d1 show ?thesis by simp
    qed
  qed
qed

section \<open>drain\<close>

lemma drain_loop_correct:
  "\<lbrakk>wf_chunks cl; d \<le> len; d + length (chunks_bytes cl) < 2 ^ 64; drain_loop len d cl = (cl', n)\<rbrakk>
   \<Longrightarrow> wf_chunks cl' \<and> chunks_bytes cl' = drop (len - d) (chunks_bytes cl) \<and>
       n = min len (d + length (chunks_bytes cl))"
proof (induction len d cl arbitrary: cl' n rule: drain_loop.induct)
  case (1 len d cl)
  show ?case
  proof (cases "d < len \<and> cl \<noteq> []")
    case False
    with "1.prems" show ?thesis by (auto simp: drain_loop.simps[of len d cl])
  next
    case True
    define ch where "ch = last cl"
    define xs where "xs = butlast cl"
    from True have cl: "cl = xs @ [ch]" by (simp add: ch_def xs_def)
    with "1.prems"(1) have wfc: "wf_chunk ch" and wfx: "wf_chunks xs"
      by (simp_all add: wf_chunks_snoc)
    have lenc: "length (chunk_bytes ch) = ch_len ch" using wfc by (simp add: size_t chunk_simps)
    have bytes: "chunks_bytes cl = chunk_bytes ch @ chunks_bytes xs" by (simp add: cl chunk_simps)
    show ?thesis
    proof (cases "ch_len ch \<le> sub64 len d")
      case whole: True
      then have le: "ch_len ch \<le> len - d" using True by (simp add: size_t)
      have add: "add64 d (ch_len ch) = d + ch_len ch"
        using "1.prems"(3) lenc by (simp add: bytes size_t)
      have "drain_loop len (d + ch_len ch) xs = (cl', n)"
        using "1.prems"(4) whole True add
        by (simp add: drain_loop.simps[of len d cl] ch_def xs_def Let_def)
      moreover have "d + ch_len ch \<le> len" using le True by arith
      ultimately have "wf_chunks cl' \<and> chunks_bytes cl' = drop (len - (d + ch_len ch)) (chunks_bytes xs) \<and>
            n = min len (d + ch_len ch + length (chunks_bytes xs))"
        using "1.IH"[OF True ch_def] whole wfx "1.prems"(3) add lenc by (simp add: bytes xs_def)
      then show ?thesis using le lenc by (simp add: bytes add.assoc)
    next
      case part: False
      define k where "k = sub64 len d"
      have k: "k < ch_len ch" "k = len - d" using part True by (simp_all add: k_def size_t)
      have res: "cl' = xs @ [ch\<lparr>ch_offset := add64 (ch_offset ch) k\<rparr>]" "n = len"
        using "1.prems"(4) part True
        by (auto simp: drain_loop.simps[of len d cl] ch_def xs_def Let_def k_def)
      note adv = advance_chunk[OF wfc k(1)]
      show ?thesis
        using adv wfx k lenc True by (simp add: res wf_chunks_snoc chunk_simps bytes)
    qed
  qed
qed

lemma drain_correct:
  assumes wf: "wf_buffer b" and dr: "drain len b = (b', n)"
  shows "wf_buffer b' \<and> n = min len (length (contents b)) \<and> contents b' = drop len (contents b) \<and>
     default_chunk_size b' = default_chunk_size b"
proof -
  note wfD = wf_bufferD[OF wf]
  obtain cl m where l: "drain_loop len 0 (chunk_list b) = (cl, m)" by fastforce
  with dr have b': "b' = b\<lparr>chunk_list := cl, buf_size := sub64 (buf_size b) n\<rparr>" and "n = m"
    by (auto simp: drain_def)
  with drain_loop_correct[OF wfD(1) _ _ l] wfD(2,3)
  have r: "wf_chunks cl" "chunks_bytes cl = drop len (contents b)"
    "n = min len (length (contents b))" by (simp_all add: contents_def)
  then have "contents b' = drop len (contents b)" by (simp add: b' contents_def)
  with r wfD show ?thesis by (auto simp: b' wf_buffer_def size_t)
qed

section \<open>data and dataChunk\<close>

lemma wf_chunks_back:
  assumes "wf_chunks cl" "chunks_bytes cl \<noteq> []"
  obtains xs ch where "cl = xs @ [ch]" "wf_chunks xs" "wf_chunk ch" "has_data ch"
    "chunks_bytes cl = chunk_bytes ch @ chunks_bytes xs"
proof (cases cl rule: rev_cases)
  case Nil
  with assms show ?thesis by simp
next
  case (snoc xs ch)
  with assms have "wf_chunk ch" "wf_chunks xs" by (simp_all add: wf_chunks_snoc)
  moreover have "has_data ch"
    using assms snoc \<open>wf_chunk ch\<close> by (auto simp: wf_chunks_snoc chunk_simps has_data_iff)
  ultimately show ?thesis using that snoc by (simp add: chunk_simps)
qed

lemma data_loop_done: "data_loop len len m cl = Some (Inr (m, cl))"
  by (subst data_loop.simps) simp

text \<open>One round of the loop copies from the chunk at the back.\<close>

lemma data_loop_round:
  assumes wfc: "wf_chunk ch" and dat: "has_data ch" and lt: "copied < len" and len: "len < 2 ^ 64" and m: "length m = len"
    and k: "k = min (ch_len ch) (len - copied)"
  shows "data_loop len copied m (xs @ [ch]) =
    data_loop len (copied + k) (take copied m @ take k (chunk_bytes ch) @ drop (copied + k) m)
      (if k \<ge> ch_len ch then xs else xs @ [ch\<lparr>ch_offset := add64 (ch_offset ch) k\<rparr>])"
    and "0 < k" and "k \<le> length (chunk_bytes ch)" and "copied + k \<le> len"
proof -
  have lenc: "length (chunk_bytes ch) = ch_len ch" using wfc by (simp add: size_t chunk_simps)
  show b: "0 < k" "k \<le> length (chunk_bytes ch)" "copied + k \<le> len" using dat wfc lt lenc by (auto simp: k has_data_len)
  have rd: "mem_read (ch_p ch) (ch_offset ch) k = Some (take k (chunk_bytes ch))"
    using wfc b(2) lenc by (auto simp: mem_read_def chunk_bytes_def wf_chunk_def size_t min_def)
  have wr: "mem_write m copied (take k (chunk_bytes ch)) = Some (take copied m @ take k (chunk_bytes ch) @ drop (copied + k) m)"
    using m b by (simp add: mem min_absorb2)
  have "add64 copied k = copied + k" "min (ch_len ch) (sub64 len copied) = k"
    using b(3) len lt by (simp_all add: size_t k sub64_exact)
  with lt dat rd wr show "data_loop len copied m (xs @ [ch]) =
    data_loop len (copied + k) (take copied m @ take k (chunk_bytes ch) @ drop (copied + k) m)
      (if k \<ge> ch_len ch then xs else xs @ [ch\<lparr>ch_offset := add64 (ch_offset ch) k\<rparr>])"
    by (subst data_loop.simps) (simp add: has_data_def Let_def)
qed

lemma data_loop_total:
  "\<lbrakk>wf_chunks cl; copied \<le> len; len < 2 ^ 64; len - copied \<le> length (chunks_bytes cl);
    length m = len\<rbrakk> \<Longrightarrow>
   \<exists>cl'. data_loop len copied m cl =
           Some (Inr (take copied m @ take (len - copied) (chunks_bytes cl), cl')) \<and>
         wf_chunks cl' \<and> chunks_bytes cl' = drop (len - copied) (chunks_bytes cl)"
proof (induction "length cl" arbitrary: cl copied m rule: less_induct)
  case less
  show ?case
  proof (cases "copied = len")
    case True
    then show ?thesis using less.prems by (simp add: data_loop_done)
  next
    case False
    with less.prems have lt: "copied < len" and ne: "chunks_bytes cl \<noteq> []" by auto
    from wf_chunks_back[OF less.prems(1) ne] obtain xs ch where
      cl: "cl = xs @ [ch]" and wfx: "wf_chunks xs" and wfc: "wf_chunk ch" and dat: "has_data ch"
      and bytes: "chunks_bytes cl = chunk_bytes ch @ chunks_bytes xs" .
    define k where "k = min (ch_len ch) (len - copied)"
    have lenc: "length (chunk_bytes ch) = ch_len ch" using wfc by (simp add: size_t chunk_simps)
    note round = data_loop_round[OF wfc dat lt less.prems(3,5) k_def]
    let ?m = "take copied m @ take k (chunk_bytes ch) @ drop (copied + k) m"
    have m': "length ?m = len" "take (copied + k) ?m = take copied m @ take k (chunk_bytes ch)"
      using less.prems(5) round(3,4) by auto
    show ?thesis
    proof (cases "ch_len ch \<le> k")
      case True
      then have keq: "k = length (chunk_bytes ch)" using round(3) lenc by simp
      have "len - (copied + k) \<le> length (chunks_bytes xs)" using less.prems(4) keq by (simp add: bytes)
      from less.hyps[OF _ wfx round(4) less.prems(3) this m'(1)] obtain cl' where
        "data_loop len (copied + k) ?m xs =
           Some (Inr (take (copied + k) ?m @ take (len - (copied + k)) (chunks_bytes xs), cl'))"
        "wf_chunks cl'" "chunks_bytes cl' = drop (len - (copied + k)) (chunks_bytes xs)"
        by (auto simp: cl)
      with round(1)[of xs] round(4) True show ?thesis using keq less.prems(2,5) by (simp add: m'(2) cl bytes[unfolded cl])
    next
      case False
      then have keq: "copied + k = len" "k = len - copied" using lt by (auto simp: k_def)
      have "k < ch_len ch" using False by simp
      note adv = advance_chunk[OF wfc this]
      have "data_loop len copied m cl = Some (Inr (?m, xs @ [ch\<lparr>ch_offset := add64 (ch_offset ch) k\<rparr>]))"
        using round(1)[of xs] False by (simp add: keq(1) data_loop_done cl)
      moreover have "?m = take copied m @ take (len - copied) (chunks_bytes cl)"
        using False lenc less.prems(5) by (simp add: keq(1) bytes keq(2)[symmetric])
      ultimately show ?thesis using adv wfx False lenc keq(2) by (simp add: wf_chunks_snoc chunk_simps bytes)
    qed
  qed
qed

text \<open>Reading the live bytes of the chunk at the back.\<close>

lemma read_back:
  assumes "chunk_list b = xs @ [ch]" "wf_chunk ch" "n \<le> ch_len ch"
  shows "read_ptr b (Ptr (length xs) (ch_offset ch)) n = Some (take n (chunk_bytes ch))"
proof -
  from assms(2,3) have "ch_offset ch + n \<le> length (ch_p ch)"
    by (auto simp: wf_chunk_def sub64_def split: if_splits)
  with assms show ?thesis
    by (simp add: mem chunk_bytes_def size_t min_def)
qed

text \<open>When the bytes span chunks they are copied to a new chunk at the back.\<close>

lemma data_copy:
  assumes wf: "wf_buffer b" and n: "0 < n" "n \<le> length (contents b)" and m0: "length m0 = n"
  shows "\<exists>cl'. data_loop n 0 m0 (chunk_list b) = Some (Inr (take n (contents b), cl')) \<and>
    (let b' = b\<lparr>chunk_list := cl' @ [\<lparr>ch_p = take n (contents b), ch_offset = 0, ch_end = n, ch_cap = n\<rparr>]\<rparr>
     in wf_buffer b' \<and> contents b' = contents b \<and> read_ptr b' (Ptr (length cl') 0) n = Some (take n (contents b)))"
proof -
  note wfD = wf_bufferD[OF wf]
  have n64: "n < 2 ^ 64" using n wfD(2,3) by simp
  from data_loop_total[OF wfD(1) le0 n64 _ m0] n obtain cl' where
    l: "data_loop n 0 m0 (chunk_list b) = Some (Inr (take n (contents b), cl'))"
    and wf': "wf_chunks cl'" and rest: "chunks_bytes cl' = drop n (contents b)"
    by (auto simp: contents_def)
  define nc where "nc = \<lparr>ch_p = take n (contents b), ch_offset = 0, ch_end = n, ch_cap = n\<rparr>"
  define b' where "b' = b\<lparr>chunk_list := cl' @ [nc]\<rparr>"
  have wfnc: "wf_chunk nc" "has_data nc" "chunk_bytes nc = take n (contents b)"
    using n n64 by (simp_all add: nc_def wf_chunk_def has_data_def chunk_bytes_def)
  have cont: "contents b' = contents b" using rest wfnc by (simp add: b'_def contents_def chunk_simps)
  have "wf_buffer b'" using wf' wfnc wfD cont by (simp add: wf_buffer_def) (simp add: b'_def wf_chunks_snoc)
  moreover have "read_ptr b' (Ptr (length cl') 0) n = Some (take n (contents b))"
    using n by (simp add: b'_def nc_def mem)
  ultimately show ?thesis using l cont by (auto simp: Let_def b'_def nc_def)
qed

lemma data_correct:
  assumes wf: "wf_buffer b" and A: "alloc_ok A" and n: "0 < n" "n \<le> length (contents b)"
  shows "\<exists>b' r. data A n b = Some (b', r) \<and> wf_buffer b' \<and> contents b' = contents b \<and>
     (r = Inl Bad_alloc \<and> A n = None \<or>
      (\<exists>q. r = Inr (Some q) \<and> read_ptr b' q n = Some (take n (contents b))))"
proof -
  note wfD = wf_bufferD[OF wf]
  have "chunks_bytes (chunk_list b) \<noteq> []" using n by (auto simp: contents_def)
  from wf_chunks_back[OF wfD(1) this] obtain xs ch where
    cl: "chunk_list b = xs @ [ch]" and wfx: "wf_chunks xs" and wfc: "wf_chunk ch" and dat: "has_data ch"
    and bytes: "chunks_bytes (chunk_list b) = chunk_bytes ch @ chunks_bytes xs" .
  have lenc: "length (chunk_bytes ch) = ch_len ch" using wfc by (simp add: size_t chunk_simps)
  have ns: "\<not> buf_size b < n" using n wfD(2) by simp
  show ?thesis
  proof (cases "n \<le> ch_len ch")
    case True
    then have "data A n b = Some (b, Inr (Some (Ptr (length xs) (ch_offset ch))))"
      using ns by (simp add: data_def cl)
    moreover have "take n (chunk_bytes ch) = take n (contents b)"
      using True lenc by (simp add: contents_def bytes)
    ultimately show ?thesis using read_back[OF cl wfc True] wf by simp
  next
    case copy: False
    show ?thesis
    proof (cases "A n")
      case None
      then have "data A n b = Some (b, Inl Bad_alloc)"
        using ns copy by (simp add: data_def cl Chunk_new_def)
      with wf None show ?thesis by simp
    next
      case (Some m0)
      with A have "length m0 = n" by blast
      from data_copy[OF wf n this] ns copy Some show ?thesis
        by (auto simp: data_def cl Chunk_new_def Let_def)
    qed
  qed
qed

lemma data_too_long: "wf_buffer b \<Longrightarrow> length (contents b) < n \<Longrightarrow> data A n b = Some (b, Inr None)"
  by (simp add: data_def wf_bufferD)

lemma dataChunk_correct:
  assumes wf: "wf_buffer b" and ne: "contents b \<noteq> []"
  shows "\<exists>q n. dataChunk b = Inr (q, n) \<and> 0 < n \<and> n \<le> length (contents b) \<and>
     read_ptr b q n = Some (take n (contents b))"
proof -
  from wf_chunks_back[OF wf_bufferD(1)[OF wf] ne[unfolded contents_def]] obtain xs ch where
    cl: "chunk_list b = xs @ [ch]" and wfc: "wf_chunk ch" and dat: "has_data ch"
    and bytes: "chunks_bytes (chunk_list b) = chunk_bytes ch @ chunks_bytes xs" .
  have lenc: "length (chunk_bytes ch) = ch_len ch" using wfc by (simp add: size_t chunk_simps)
  have "dataChunk b = Inr (Ptr (length xs) (ch_offset ch), ch_len ch)"
    by (simp add: dataChunk_def cl)
  moreover have "read_ptr b (Ptr (length xs) (ch_offset ch)) (ch_len ch) = Some (take (ch_len ch) (contents b))"
    using read_back[OF cl wfc order_refl] lenc by (simp add: contents_def bytes)
  ultimately show ?thesis using dat wfc lenc by (auto simp: has_data_len contents_def bytes)
qed

section \<open>space, spaceChunk and spaceHaveSeted\<close>

text \<open>
  What the two ways of asking for space establish: the front chunk has \<open>n\<close> free bytes at
  the returned pointer, and nothing else has changed.
\<close>

definition has_space :: "buffer \<Rightarrow> ptr \<Rightarrow> nat \<Rightarrow> bool" where
  "has_space b q n \<longleftrightarrow> (\<exists>ch rest. chunk_list b = ch # rest \<and> q = Ptr 0 (ch_end ch) \<and>
     ch_end ch + n \<le> ch_cap ch)"

lemma write_commit_correct:
  assumes wf: "wf_buffer b" and sp: "has_space b q n" and xs: "length xs \<le> n"
    and len: "length (contents b) + length xs < 2 ^ 64"
  shows "\<exists>b1 b2. write_ptr b q xs = Some b1 \<and> spaceHaveSeted (length xs) b1 = Inr b2 \<and>
     wf_buffer b2 \<and> contents b2 = contents b @ xs \<and> default_chunk_size b2 = default_chunk_size b"
proof -
  note wfD = wf_bufferD[OF wf]
  from sp obtain ch rest where cl: "chunk_list b = ch # rest" and q: "q = Ptr 0 (ch_end ch)"
    and room: "ch_end ch + n \<le> ch_cap ch" by (auto simp: has_space_def)
  from wfD(1) cl have wfc: "wf_chunk ch" and all: "\<forall>c \<in> set rest. wf_chunk c \<and> has_data c"
    and ok: "has_data ch \<or> ch_end ch < ch_cap ch" by (simp_all add: wf_chunks_Cons)
  have "ch_end ch + length xs \<le> ch_cap ch" using room xs by simp
  from extend_chunk[OF wfc this] obtain m where
    m: "mem_write (ch_p ch) (ch_end ch) xs = Some m"
    and wfc': "wf_chunk (ch\<lparr>ch_p := m, ch_end := add64 (ch_end ch) (length xs)\<rparr>)" (is "wf_chunk ?ch'")
    and bytes: "chunk_bytes (ch\<lparr>ch_p := m, ch_end := add64 (ch_end ch) (length xs)\<rparr>) =
                chunk_bytes ch @ xs" by blast
  define b2 where "b2 = b\<lparr>chunk_list := ?ch' # rest, buf_size := add64 (buf_size b) (length xs)\<rparr>"
  have "write_ptr b q xs = Some (b\<lparr>chunk_list := ch\<lparr>ch_p := m\<rparr> # rest\<rparr>)"
    by (simp add: q cl m)
  moreover have "spaceHaveSeted (length xs) (b\<lparr>chunk_list := ch\<lparr>ch_p := m\<rparr> # rest\<rparr>) = Inr b2"
    by (simp add: spaceHaveSeted_def b2_def)
  moreover have cont: "contents b2 = contents b @ xs"
    by (simp add: b2_def contents_def cl chunk_simps bytes)
  moreover have "wf_buffer b2"
  proof -
    have ok': "has_data ?ch' \<or> ch_end ?ch' < ch_cap ?ch'"
    proof (cases "xs = []")
      case True
      have e: "ch_end ch < 2 ^ 64" using wfc by (simp add: wf_chunk_def)
      show ?thesis using ok True by (simp add: add64_0[OF e] has_data_def)
    next
      case False
      then show ?thesis using has_data_iff[OF wfc'] bytes by simp
    qed
    have "buf_size b2 = length (contents b2)"
      using wfD(2) len by (simp add: cont) (simp add: b2_def size_t)
    then show ?thesis using wfc' all ok' wfD(4,5) len cont
      by (simp add: wf_buffer_def) (simp add: b2_def wf_chunks_Cons)
  qed
  ultimately show ?thesis by (auto simp: b2_def)
qed

lemma chunks_bytes_drop_empty:
  "chunks_bytes (dropWhile (\<lambda>ch. ch_offset ch = ch_end ch) cl) = chunks_bytes cl"
  by (induction cl) (auto simp: chunk_simps chunk_bytes_def)

lemma add_fresh_front:
  assumes wf: "wf_buffer b" and cap: "0 < cap" "cap < 2 ^ 64" "length m = cap"
    and all: "\<forall>c \<in> set cl. wf_chunk c \<and> has_data c" and bytes: "chunks_bytes cl = contents b"
  shows "wf_buffer (b\<lparr>chunk_list := \<lparr>ch_p = m, ch_offset = 0, ch_end = 0, ch_cap = cap\<rparr> # cl\<rparr>) \<and>
     contents (b\<lparr>chunk_list := \<lparr>ch_p = m, ch_offset = 0, ch_end = 0, ch_cap = cap\<rparr> # cl\<rparr>) = contents b \<and>
     has_space (b\<lparr>chunk_list := \<lparr>ch_p = m, ch_offset = 0, ch_end = 0, ch_cap = cap\<rparr> # cl\<rparr>) (Ptr 0 0) cap"
  using add_front_chunk[OF all cap(2,3) _ cap(1), of 0] wf_bufferD[OF wf] bytes
  by (simp add: wf_buffer_def contents_def has_space_def)

lemma drop_empty_all_data:
  assumes "wf_chunks cl"
  shows "\<forall>c \<in> set (dropWhile (\<lambda>ch. ch_offset ch = ch_end ch) cl). wf_chunk c \<and> has_data c"
proof (cases cl)
  case (Cons ch rest)
  with assms have all: "\<forall>c \<in> set rest. wf_chunk c \<and> has_data c" and ch: "wf_chunk ch"
    by (simp_all add: wf_chunks_Cons)
  then have "dropWhile (\<lambda>ch. ch_offset ch = ch_end ch) rest = rest"
    by (cases rest) (auto simp: has_data_def)
  with all ch Cons show ?thesis by (auto simp: has_data_def wf_chunk_def)
qed simp

lemma space_correct:
  assumes wf: "wf_buffer b" and A: "alloc_ok A" and n: "n < 2 ^ 64" and sp: "space A n b = (b', r)"
  shows "wf_buffer b' \<and> contents b' = contents b \<and> default_chunk_size b' = default_chunk_size b \<and>
     (r = Inl Bad_alloc \<or> (\<exists>q. r = Inr q \<and> has_space b' q n))"
proof -
  note wfD = wf_bufferD[OF wf]
  define cl where "cl = dropWhile (\<lambda>ch. ch_offset ch = ch_end ch) (chunk_list b)"
  have cl: "\<forall>c \<in> set cl. wf_chunk c \<and> has_data c" "chunks_bytes cl = contents b"
    using drop_empty_all_data[OF wfD(1)] by (simp_all add: cl_def chunks_bytes_drop_empty contents_def)
  show ?thesis
  proof (cases "chunk_list b \<noteq> [] \<and>
         sub64 (ch_cap (hd (chunk_list b))) (ch_end (hd (chunk_list b))) \<ge> n")
    case True
    then obtain ch rest where c: "chunk_list b = ch # rest" by (cases "chunk_list b") auto
    have "wf_chunk ch" using wfD(1) c by (simp add: wf_chunks_Cons)
    with True sp wf c show ?thesis
      by (auto simp: space_def has_space_def size_t) (auto simp: wf_chunk_def)
  next
    case False
    show ?thesis
    proof (cases "A (max n (default_chunk_size b))")
      case None
      then have "b' = b\<lparr>chunk_list := cl\<rparr>" "r = Inl Bad_alloc"
        using sp False by (auto simp: space_def cl_def Chunk_new_def Let_def)
      with cl wfD show ?thesis
        by (auto simp: wf_buffer_def contents_def intro: wf_chunks_all_data)
    next
      case (Some m)
      let ?c = "max n (default_chunk_size b)"
      have res: "b' = b\<lparr>chunk_list := \<lparr>ch_p = m, ch_offset = 0, ch_end = 0, ch_cap = ?c\<rparr> # cl\<rparr>"
        "r = Inr (Ptr 0 0)"
        using sp False Some by (auto simp: space_def cl_def Chunk_new_def Let_def)
      have "0 < ?c" "?c < 2 ^ 64" "length m = ?c" using n wfD(4,5) A Some by auto
      from add_fresh_front[OF wf this cl] have "has_space b' (Ptr 0 0) ?c"
        "wf_buffer b'" "contents b' = contents b" by (simp_all add: res)
      then show ?thesis by (auto simp: res has_space_def)
    qed
  qed
qed

lemma spaceChunk_correct:
  assumes wf: "wf_buffer b" and A: "alloc_ok A" and sp: "spaceChunk A b = (b', r)"
  shows "wf_buffer b' \<and> contents b' = contents b \<and> default_chunk_size b' = default_chunk_size b \<and>
     (r = Inl Bad_alloc \<or> (\<exists>q n. r = Inr (q, n) \<and> 0 < n \<and> has_space b' q n))"
proof -
  note wfD = wf_bufferD[OF wf]
  show ?thesis
  proof (cases "chunk_list b \<noteq> [] \<and>
         sub64 (ch_cap (hd (chunk_list b))) (ch_end (hd (chunk_list b))) > 0")
    case True
    then obtain ch rest where c: "chunk_list b = ch # rest" by (cases "chunk_list b") auto
    have "wf_chunk ch" using wfD(1) c by (simp add: wf_chunks_Cons)
    with True sp wf c show ?thesis
      by (auto simp: spaceChunk_def has_space_def size_t)
  next
    case False
    have all: "\<forall>c \<in> set (chunk_list b). wf_chunk c \<and> has_data c"
    proof (cases "chunk_list b")
      case (Cons ch rest)
      with False wfD(1) have "wf_chunk ch" "has_data ch \<or> ch_end ch < ch_cap ch"
        "ch_len ch \<le> 2 ^ 64" "sub64 (ch_cap ch) (ch_end ch) = 0"
        by (auto simp: wf_chunks_Cons size_t wf_chunk_def)
      with Cons wfD(1) show ?thesis by (auto simp: wf_chunks_Cons size_t)
    qed simp
    show ?thesis
    proof (cases "A (default_chunk_size b)")
      case None
      then have "b' = b" "r = Inl Bad_alloc"
        using sp False by (auto simp: spaceChunk_def Chunk_new_def)
      with wf show ?thesis by simp
    next
      case (Some m)
      let ?c = "default_chunk_size b"
      have res: "b' = b\<lparr>chunk_list := \<lparr>ch_p = m, ch_offset = 0, ch_end = 0, ch_cap = ?c\<rparr> # chunk_list b\<rparr>"
        "r = Inr (Ptr 0 0, ?c)"
        using sp False Some by (auto simp: spaceChunk_def Chunk_new_def)
      have "length m = ?c" using A Some by auto
      from add_fresh_front[OF wf wfD(4,5) this all] have "has_space b' (Ptr 0 0) ?c"
        "wf_buffer b'" "contents b' = contents b" by (simp_all add: res contents_def)
      then show ?thesis using wfD(4) by (auto simp: res)
    qed
  qed
qed

section \<open>operator[] and swap\<close>

text \<open>The sum \<open>cur + end\<close> may wrap around; subtracting the offset brings it back.\<close>

lemma sub64_add64_cancel:
  assumes "c \<le> b" "b < 2 ^ 64" "a + (b - c) < 2 ^ 64"
  shows "sub64 (add64 a b) c = a + (b - c)"
proof (cases "a + b < 2 ^ 64")
  case True
  with assms(1) show ?thesis by (simp add: size_t)
next
  case False
  with assms have "add64 a b = a + b - 2 ^ 64" by (simp add: add64_def le_mod_geq)
  with assms False show ?thesis by (auto simp: sub64_def)
qed

text \<open>One round of the loop looks at the chunk at the back.\<close>

lemma index_loop_snoc:
  assumes wfc: "wf_chunk ch" and n: "n = length (chunk_bytes ch)" and cur: "cur \<le> i" "i < 2 ^ 64" "cur + n < 2 ^ 64"
  shows "i < cur + n \<Longrightarrow> \<exists>k. index_loop i cur (xs @ [ch]) = Inr (Elem (Ptr (length xs) k)) \<and> k < length (ch_p ch) \<and>
      ch_p ch ! k = chunk_bytes ch ! (i - cur)"
    and "\<not> i < cur + n \<Longrightarrow> index_loop i cur (xs @ [ch]) = index_loop i (cur + n) xs"
proof -
  have len: "n = ch_end ch - ch_offset ch" using wfc by (simp add: n chunk_simps)
  have test: "sub64 (add64 cur (ch_end ch)) (ch_offset ch) = cur + n"
    using wfc cur(3) sub64_add64_cancel[of "ch_offset ch" "ch_end ch" cur] by (simp add: wf_chunk_def len)
  show "\<exists>k. index_loop i cur (xs @ [ch]) = Inr (Elem (Ptr (length xs) k)) \<and> k < length (ch_p ch) \<and>
      ch_p ch ! k = chunk_bytes ch ! (i - cur)" if i: "i < cur + n"
  proof -
    have lt: "i - cur < n" using i cur(1) by arith
    define k where "k = i - cur + ch_offset ch"
    have k: "k < length (ch_p ch)" "k < 2 ^ 64" "ch_offset ch + (i - cur) < ch_end ch"
      using lt wfc by (auto simp: k_def len wf_chunk_def)
    have "add64 (sub64 i cur) (ch_offset ch) = k" using cur(1) k(2) by (simp add: size_t k_def)
    with i test k(1) have "index_loop i cur (xs @ [ch]) = Inr (Elem (Ptr (length xs) k))"
      by (subst index_loop.simps) (simp add: Let_def)
    moreover have "ch_p ch ! k = chunk_bytes ch ! (i - cur)"
      using lt k by (simp add: chunk_bytes_def len k_def add.commute)
    ultimately show ?thesis using k(1) by blast
  qed
  have "add64 cur (ch_len ch) = cur + n" using cur(3) wfc by (simp add: size_t len)
  with test show "index_loop i cur (xs @ [ch]) = index_loop i (cur + n) xs" if "\<not> i < cur + n"
    using that by (subst index_loop.simps) (simp add: Let_def)
qed

lemma index_loop_correct:
  "\<lbrakk>wf_chunks cl; cur \<le> i; i < 2 ^ 64; cur + length (chunks_bytes cl) < 2 ^ 64\<rbrakk> \<Longrightarrow>
   (if i - cur < length (chunks_bytes cl)
    then \<exists>j k. index_loop i cur cl = Inr (Elem (Ptr j k)) \<and> j < length cl \<and>
           k < length (ch_p (cl ! j)) \<and> ch_p (cl ! j) ! k = chunks_bytes cl ! (i - cur)
    else index_loop i cur cl = Inr Static_todo)"
proof (induction cl arbitrary: cur rule: rev_induct)
  case Nil
  then show ?case by (simp add: index_loop.simps[of i cur "[]"])
next
  case (snoc ch xs)
  then have wfx: "wf_chunks xs" and wfc: "wf_chunk ch" by (simp_all add: wf_chunks_snoc)
  have bytes: "chunks_bytes (xs @ [ch]) = chunk_bytes ch @ chunks_bytes xs" by (simp add: chunk_simps)
  let ?n = "length (chunk_bytes ch)"
  have sum: "cur + ?n < 2 ^ 64" using snoc.prems(4) by (simp add: bytes)
  note round = index_loop_snoc[OF wfc refl snoc.prems(2,3) sum, of xs]
  show ?case
  proof (cases "i < cur + ?n")
    case True
    then have "i - cur < ?n" using snoc.prems(2) by arith
    with round(1)[OF True] show ?thesis by (auto simp: bytes nth_append)
  next
    case False
    have "cur + ?n \<le> i" "cur + ?n + length (chunks_bytes xs) < 2 ^ 64" using False snoc.prems(4) by (simp_all add: bytes)
    note IH = snoc.IH[OF wfx this(1) snoc.prems(3) this(2)]
    have "i - cur < length (chunks_bytes (xs @ [ch])) \<longleftrightarrow> i - (cur + ?n) < length (chunks_bytes xs)"
      and "chunks_bytes (xs @ [ch]) ! (i - cur) = chunks_bytes xs ! (i - (cur + ?n))"
      using False by (auto simp: bytes nth_append)
    with IH round(2)[OF False] show ?thesis by (auto simp: nth_append split: if_splits)
  qed
qed

lemma index_correct:
  assumes wf: "wf_buffer b" and i: "i < 2 ^ 64"
  shows "\<exists>lv. index b i = Inr lv \<and>
     load todo b lv = Some (if i < length (contents b) then contents b ! i else todo)"
proof -
  have "if i - 0 < length (chunks_bytes (chunk_list b))
    then \<exists>j k. index_loop i 0 (chunk_list b) = Inr (Elem (Ptr j k)) \<and> j < length (chunk_list b) \<and>
           k < length (ch_p (chunk_list b ! j)) \<and>
           ch_p (chunk_list b ! j) ! k = chunks_bytes (chunk_list b) ! (i - 0)
    else index_loop i 0 (chunk_list b) = Inr Static_todo"
    using wf_bufferD[OF wf] i by (intro index_loop_correct) (simp_all add: contents_def)
  then show ?thesis
    by (auto simp: index_def contents_def mem_read_def take_Suc_conv_app_nth hd_drop_conv_nth
             split: if_splits)
qed

lemma swap_correct: "swap this x = (x, this)"
  by (simp add: swap_def)

section \<open>The interface of the handler\<close>

interpretation bq: byte_queue wf_buffer contents push drain dataChunk spaceChunk
  read_ptr write_ptr spaceHaveSeted
proof (unfold_locales, goal_cases)
  case (1 A b xs b' v)
  then show ?case using push_correct[of b A xs b' v] by blast
next
  case (2 b n b' m)
  then show ?case using drain_correct[of b n b' m] by blast
next
  case (3 b)
  then show ?case by (rule dataChunk_correct)
next
  case (4 A b b' r)
  note sc = spaceChunk_correct[OF 4(2,1,3)]
  have "\<exists>b1 b2. write_ptr b' q xs = Some b1 \<and> spaceHaveSeted (length xs) b1 = Inr b2 \<and>
      wf_buffer b2 \<and> contents b2 = contents b @ xs"
    if "has_space b' q n" "length xs \<le> n" "length (contents b) + length xs < 2 ^ 64" for q n xs
    using write_commit_correct[OF _ that(1,2)] sc that(3) by fastforce
  with sc show ?case by blast
qed

section \<open>Sequences of operations\<close>

text \<open>
  A client of two buffers, of which \<open>swap\<close> exchanges the contents; the other operations are called on the first. It
  uses every operation of the class: as the test \<open>push\_drain\<close> of tests/buffer\_test.cc it writes into the space
  it is given and commits what it wrote, it looks at a run of bytes with \<open>data\<close> or \<open>dataChunk\<close> and drains it, and
  it reads a byte with \<open>operator[]\<close>. Of each call the client sees a value, or that \<open>bad_alloc\<close> is thrown, after
  which it goes on with the buffer as it is left. A run that does not return is \<open>None\<close>, one that is undefined
  a fault.
\<close>

datatype buf_op = Op_push "u8 list" | Op_space nat "u8 list" | Op_space_chunk "u8 list" | Op_take nat | Op_chunk
  | Op_drain nat | Op_index nat | Op_size | Op_chunk_size nat | Op_swap

datatype buf_out = Out_done | Out_count nat | Out_bytes "u8 list" | Out_null | Out_throw

fun write_commit :: "ptr \<Rightarrow> u8 list \<Rightarrow> buffer \<Rightarrow> buffer option" where
  "write_commit q xs b = (case write_ptr b q xs of None \<Rightarrow> None
     | Some b1 \<Rightarrow> (case spaceHaveSeted (length xs) b1 of Inl _ \<Rightarrow> None | Inr b2 \<Rightarrow> Some b2))"

definition commit_out :: "ptr \<Rightarrow> u8 list \<Rightarrow> buffer \<Rightarrow> buffer \<Rightarrow> (fault + (buffer \<times> buffer) \<times> buf_out)" where
  "commit_out q xs b y = (case write_commit q xs b of None \<Rightarrow> Inl Undef | Some b2 \<Rightarrow> Inr ((b2, y), Out_bytes xs))"

definition drain_out :: "ptr \<Rightarrow> nat \<Rightarrow> buffer \<Rightarrow> buffer \<Rightarrow> (fault + (buffer \<times> buffer) \<times> buf_out)" where
  "drain_out q n b y = (case read_ptr b q n of None \<Rightarrow> Inl Undef | Some xs \<Rightarrow> Inr ((fst (drain n b), y), Out_bytes xs))"

definition thrown :: "fault \<Rightarrow> buffer \<Rightarrow> buffer \<Rightarrow> (fault + (buffer \<times> buffer) \<times> buf_out)" where
  "thrown f b y = (if f = Bad_alloc then Inr ((b, y), Out_throw) else Inl f)"

text \<open>\<open>todo\<close> is the value of the static byte.\<close>

fun exec_op :: "allocator \<Rightarrow> u8 \<Rightarrow> buf_op \<Rightarrow> buffer \<times> buffer \<Rightarrow> (fault + (buffer \<times> buffer) \<times> buf_out) option" where
  "exec_op A todo (Op_push xs) (b, y) =
     (case push A xs b of (b', Inr n) \<Rightarrow> Some (Inr ((b', y), Out_count n)) | (b', Inl f) \<Rightarrow> Some (thrown f b' y))"
| "exec_op A todo (Op_space n xs) (b, y) =
     (case space A n b of (b', Inr q) \<Rightarrow> Some (commit_out q (take n xs) b' y) | (b', Inl f) \<Rightarrow> Some (thrown f b' y))"
| "exec_op A todo (Op_space_chunk xs) (b, y) =
     (case spaceChunk A b of (b', Inr (q, n)) \<Rightarrow> Some (commit_out q (take n xs) b' y) | (b', Inl f) \<Rightarrow> Some (thrown f b' y))"
| "exec_op A todo (Op_take n) (b, y) =
     (case data A n b of
        None \<Rightarrow> None
      | Some (b', Inl f) \<Rightarrow> Some (thrown f b' y)
      | Some (b', Inr None) \<Rightarrow> Some (Inr ((b', y), Out_null))
      | Some (b', Inr (Some q)) \<Rightarrow> Some (drain_out q n b' y))"
| "exec_op A todo Op_chunk (b, y) =
     (case dataChunk b of Inl f \<Rightarrow> Some (Inl f) | Inr (q, n) \<Rightarrow> Some (drain_out q n b y))"
| "exec_op A todo (Op_drain n) (b, y) = (case drain n b of (b', m) \<Rightarrow> Some (Inr ((b', y), Out_count m)))"
| "exec_op A todo (Op_index i) (b, y) =
     (case index b i of
        Inl f \<Rightarrow> Some (Inl f)
      | Inr lv \<Rightarrow> (case load todo b lv of None \<Rightarrow> Some (Inl Undef) | Some c \<Rightarrow> Some (Inr ((b, y), Out_bytes [c]))))"
| "exec_op A todo Op_size (b, y) = Some (Inr ((b, y), Out_count (size_buffer b)))"
| "exec_op A todo (Op_chunk_size n) (b, y) = Some (Inr ((set_default_chunk_size n b, y), Out_done))"
| "exec_op A todo Op_swap (b, y) = Some (Inr (swap b y, Out_done))"

fun exec_ops ::
  "allocator \<Rightarrow> u8 \<Rightarrow> buf_op list \<Rightarrow> buffer \<times> buffer \<Rightarrow> (fault + (buffer \<times> buffer) \<times> buf_out list) option" where
  "exec_ops A todo [] s = Some (Inr (s, []))"
| "exec_ops A todo (x # xs) s = (case exec_op A todo x s of
     None \<Rightarrow> None
   | Some (Inl f) \<Rightarrow> Some (Inl f)
   | Some (Inr (t, out)) \<Rightarrow> map_option (map_sum id (apsnd ((#) out))) (exec_ops A todo xs t))"

text \<open>
  What the class asks of its client at each call: sizes that fit into \<open>size_t\<close>, a chunk size that is not 0, and not to
  ask for the data of a buffer that has no chunk.
\<close>

fun op_pre :: "buf_op \<Rightarrow> buffer \<times> buffer \<Rightarrow> bool" where
  "op_pre (Op_push xs) (b, y) \<longleftrightarrow> length (contents b) + length xs < 2 ^ 64"
| "op_pre (Op_space n xs) (b, y) \<longleftrightarrow> n < 2 ^ 64 \<and> length (contents b) + length xs < 2 ^ 64"
| "op_pre (Op_space_chunk xs) (b, y) \<longleftrightarrow> length (contents b) + length xs < 2 ^ 64"
| "op_pre (Op_take n) (b, y) \<longleftrightarrow> 0 < n \<or> chunk_list b \<noteq> []"
| "op_pre Op_chunk (b, y) \<longleftrightarrow> chunk_list b \<noteq> []"
| "op_pre (Op_index i) (b, y) \<longleftrightarrow> i < 2 ^ 64"
| "op_pre (Op_chunk_size n) (b, y) \<longleftrightarrow> 0 < n \<and> n < 2 ^ 64"
| "op_pre x (b, y) \<longleftrightarrow> True"

fun ops_pre :: "allocator \<Rightarrow> u8 \<Rightarrow> buf_op list \<Rightarrow> buffer \<times> buffer \<Rightarrow> bool" where
  "ops_pre A todo [] s \<longleftrightarrow> True"
| "ops_pre A todo (x # xs) s \<longleftrightarrow> op_pre x s \<and>
     (case exec_op A todo x s of Some (Inr (t, out)) \<Rightarrow> ops_pre A todo xs t | _ \<Rightarrow> True)"

text \<open>The specification: two queues of bytes, and what each operation does to them and gives back.\<close>

fun queue_step :: "u8 \<Rightarrow> buf_op \<Rightarrow> u8 list \<times> u8 list \<Rightarrow> u8 list \<times> u8 list \<Rightarrow> buf_out \<Rightarrow> bool" where
  "queue_step todo (Op_push xs) (q, r) t out \<longleftrightarrow>
     t = (q @ xs, r) \<and> out = Out_count (length xs) \<or> out = Out_throw \<and> (\<exists>k < length xs. t = (q @ take k xs, r))"
| "queue_step todo (Op_space n xs) (q, r) t out \<longleftrightarrow>
     t = (q @ take n xs, r) \<and> out = Out_bytes (take n xs) \<or> out = Out_throw \<and> t = (q, r)"
| "queue_step todo (Op_space_chunk xs) (q, r) t out \<longleftrightarrow>
     (\<exists>n > 0. t = (q @ take n xs, r) \<and> out = Out_bytes (take n xs)) \<or> out = Out_throw \<and> t = (q, r)"
| "queue_step todo (Op_take n) (q, r) t out \<longleftrightarrow>
     (if length q < n then t = (q, r) \<and> out = Out_null
      else t = (drop n q, r) \<and> out = Out_bytes (take n q) \<or> out = Out_throw \<and> t = (q, r))"
| "queue_step todo Op_chunk (q, r) t out \<longleftrightarrow>
     (\<exists>n. (q \<noteq> [] \<longrightarrow> 0 < n) \<and> t = (drop n q, r) \<and> out = Out_bytes (take n q))"
| "queue_step todo (Op_drain n) (q, r) t out \<longleftrightarrow> t = (drop n q, r) \<and> out = Out_count (min n (length q))"
| "queue_step todo (Op_index i) (q, r) t out \<longleftrightarrow> t = (q, r) \<and> out = Out_bytes [if i < length q then q ! i else todo]"
| "queue_step todo Op_size (q, r) t out \<longleftrightarrow> t = (q, r) \<and> out = Out_count (length q)"
| "queue_step todo (Op_chunk_size n) (q, r) t out \<longleftrightarrow> t = (q, r) \<and> out = Out_done"
| "queue_step todo Op_swap (q, r) t out \<longleftrightarrow> t = (r, q) \<and> out = Out_done"

fun queue_run :: "u8 \<Rightarrow> buf_op list \<Rightarrow> u8 list \<times> u8 list \<Rightarrow> buf_out list \<Rightarrow> u8 list \<times> u8 list \<Rightarrow> bool" where
  "queue_run todo [] s outs t \<longleftrightarrow> outs = [] \<and> t = s"
| "queue_run todo (x # xs) s outs t \<longleftrightarrow>
     (\<exists>out outs' u. outs = out # outs' \<and> queue_step todo x s u out \<and> queue_run todo xs u outs' t)"

definition alloc_total :: "allocator \<Rightarrow> bool" where
  "alloc_total A \<longleftrightarrow> alloc_ok A \<and> (\<forall>n. A n \<noteq> None)"

lemma alloc_totalD [dest]: "alloc_total A \<Longrightarrow> alloc_ok A"
  by (simp add: alloc_total_def)

lemma alloc_total_no_throw:
  assumes "alloc_total A"
  shows "snd (push A xs b) \<noteq> Inl Bad_alloc" "snd (space A n b) \<noteq> Inl Bad_alloc"
    "snd (spaceChunk A b) \<noteq> Inl Bad_alloc"
proof -
  from assms have t: "\<And>n. A n \<noteq> None" by (simp add: alloc_total_def)
  show "snd (push A xs b) \<noteq> Inl Bad_alloc" "snd (space A n b) \<noteq> Inl Bad_alloc"
    "snd (spaceChunk A b) \<noteq> Inl Bad_alloc"
    by (auto simp: t push_def space_def spaceChunk_def Chunk_new_def Let_def
             split: option.splits if_splits)
qed

declare write_commit.simps [simp del]

lemma write_commit_ok:
  assumes "wf_buffer b" "has_space b q n" "length xs \<le> n" "length (contents b) + length xs < 2 ^ 64"
  shows "\<exists>b2. write_commit q xs b = Some b2 \<and> wf_buffer b2 \<and> contents b2 = contents b @ xs"
  using write_commit_correct[OF assms] by (auto simp: write_commit.simps)

text \<open>The two buffers are well formed, and hold these queues.\<close>

definition holds :: "buffer \<times> buffer \<Rightarrow> u8 list \<times> u8 list \<Rightarrow> bool" where
  "holds s q \<longleftrightarrow> wf_buffer (fst s) \<and> wf_buffer (snd s) \<and> q = (contents (fst s), contents (snd s))"

text \<open>An operation does what the specification says.\<close>

definition refines :: "u8 \<Rightarrow> buf_op \<Rightarrow> u8 list \<times> u8 list \<Rightarrow> (fault + (buffer \<times> buffer) \<times> buf_out) option \<Rightarrow> bool" where
  "refines todo x q r \<longleftrightarrow> (\<exists>s' out q'. r = Some (Inr (s', out)) \<and> holds s' q' \<and> queue_step todo x q q' out)"

lemma thrown_refines:
  "\<lbrakk>wf_buffer b; wf_buffer y; queue_step todo x q (contents b, contents y) Out_throw\<rbrakk> \<Longrightarrow>
   refines todo x q (Some (thrown Bad_alloc b y))"
  by (auto simp: refines_def thrown_def holds_def)

lemma commit_refines:
  assumes "wf_buffer b" and "has_space b p n" and "length (contents b) + length xs < 2 ^ 64" and "wf_buffer y"
    and "queue_step todo x q (contents b @ take n xs, contents y) (Out_bytes (take n xs))"
  shows "refines todo x q (Some (commit_out p (take n xs) b y))"
proof -
  have "length (contents b) + length (take n xs) < 2 ^ 64" using assms(3) by (simp add: min_def)
  with write_commit_ok[OF assms(1,2), of "take n xs"] obtain b2 where
    "write_commit p (take n xs) b = Some b2" "wf_buffer b2" "contents b2 = contents b @ take n xs" by auto
  with assms(4,5) show ?thesis by (auto simp: refines_def commit_out_def holds_def)
qed

lemma drain_refines:
  assumes "wf_buffer b" and "read_ptr b p n = Some (take n (contents b))" and "wf_buffer y"
    and "queue_step todo x q (drop n (contents b), contents y) (Out_bytes (take n (contents b)))"
  shows "refines todo x q (Some (drain_out p n b y))"
proof -
  obtain b2 m where d: "drain n b = (b2, m)" by fastforce
  from drain_correct[OF assms(1) d] assms show ?thesis by (auto simp: refines_def drain_out_def holds_def d)
qed

text \<open>The last chunk can be looked at where there is one, also when it holds nothing.\<close>

lemma last_chunk:
  assumes "wf_buffer b" and "chunk_list b \<noteq> []"
  shows "\<exists>n. dataChunk b = Inr (Ptr (length (chunk_list b) - 1) (ch_offset (last (chunk_list b))), n) \<and> n \<le> length (contents b) \<and>
     (contents b \<noteq> [] \<longrightarrow> 0 < n) \<and>
     read_ptr b (Ptr (length (chunk_list b) - 1) (ch_offset (last (chunk_list b)))) n = Some (take n (contents b))"
    and "data A 0 b = Some (b, Inr (Some (Ptr (length (chunk_list b) - 1) (ch_offset (last (chunk_list b))))))"
    and "read_ptr b (Ptr (length (chunk_list b) - 1) (ch_offset (last (chunk_list b)))) 0 = Some []"
proof -
  have wfc: "wf_chunk (last (chunk_list b))"
    using wf_bufferD(1)[OF assms(1)] assms(2) by (auto simp: wf_chunks_def)
  show r0: "read_ptr b (Ptr (length (chunk_list b) - 1) (ch_offset (last (chunk_list b)))) 0 = Some []"
    using wfc assms(2) by (auto simp: wf_chunk_def mem_read_def last_conv_nth)
  show "data A 0 b = Some (b, Inr (Some (Ptr (length (chunk_list b) - 1) (ch_offset (last (chunk_list b))))))"
    using assms(2) by (simp add: data_def)
  show "\<exists>n. dataChunk b = Inr (Ptr (length (chunk_list b) - 1) (ch_offset (last (chunk_list b))), n) \<and> n \<le> length (contents b) \<and>
     (contents b \<noteq> [] \<longrightarrow> 0 < n) \<and>
     read_ptr b (Ptr (length (chunk_list b) - 1) (ch_offset (last (chunk_list b)))) n = Some (take n (contents b))"
  proof (cases "contents b = []")
    case False
    from dataChunk_correct[OF assms(1) this] show ?thesis using assms(2) by (auto simp: dataChunk_def Let_def)
  next
    case True
    have "chunk_list b = butlast (chunk_list b) @ [last (chunk_list b)]" using assms(2) by simp
    then have "contents b = chunk_bytes (last (chunk_list b)) @ chunks_bytes (butlast (chunk_list b))"
      unfolding contents_def by (metis chunks_bytes_snoc)
    with True length_chunk_bytes[OF wfc] have "ch_len (last (chunk_list b)) = 0"
      using wfc by (simp add: ch_len_exact)
    with r0 True assms(2) show ?thesis by (simp add: dataChunk_def Let_def)
  qed
qed

lemma exec_op_refines:
  assumes A: "alloc_ok A" and q: "holds s q" and pre: "op_pre x s"
  shows "refines todo x q (exec_op A todo x s)"
proof -
  obtain b y where s: "s = (b, y)" by fastforce
  have wf: "wf_buffer b" "wf_buffer y" and q: "q = (contents b, contents y)" using q by (simp_all add: s holds_def)
  show ?thesis
  proof (cases x)
    case (Op_push xs)
    obtain b' r where p: "push A xs b = (b', r)" by fastforce
    with push_correct[OF wf(1) A _ p] wf(2) pre show ?thesis
      by (auto simp: Op_push s q refines_def thrown_def holds_def)
  next
    case (Op_space n xs)
    obtain b' r where p: "space A n b = (b', r)" by fastforce
    from space_correct[OF wf(1) A _ p] pre
    have c: "wf_buffer b'" "contents b' = contents b" "r = Inl Bad_alloc \<or> (\<exists>p. r = Inr p \<and> has_space b' p n)"
      by (simp_all add: Op_space s)
    from c(3) show ?thesis
    proof
      assume "r = Inl Bad_alloc"
      with p c(1,2) wf(2) thrown_refines[of b' y todo x q] show ?thesis by (simp add: Op_space s q)
    next
      assume "\<exists>p. r = Inr p \<and> has_space b' p n"
      with p c(1,2) wf(2) pre commit_refines[of b' _ n xs y todo x q] show ?thesis by (auto simp: Op_space s q)
    qed
  next
    case (Op_space_chunk xs)
    obtain b' r where p: "spaceChunk A b = (b', r)" by fastforce
    from spaceChunk_correct[OF wf(1) A p]
    have c: "wf_buffer b'" "contents b' = contents b" "r = Inl Bad_alloc \<or> (\<exists>p n. r = Inr (p, n) \<and> 0 < n \<and> has_space b' p n)"
      by simp_all
    from c(3) show ?thesis
    proof
      assume "r = Inl Bad_alloc"
      with p c(1,2) wf(2) thrown_refines[of b' y todo x q] show ?thesis by (simp add: Op_space_chunk s q)
    next
      assume "\<exists>p n. r = Inr (p, n) \<and> 0 < n \<and> has_space b' p n"
      then obtain pt n where r: "r = Inr (pt, n)" "0 < n" "has_space b' pt n" by blast
      then have "queue_step todo x q (contents b' @ take n xs, contents y) (Out_bytes (take n xs))"
        using c(2) by (auto simp: Op_space_chunk q)
      with commit_refines[OF c(1) r(3) _ wf(2)] pre c(2) p r(1) show ?thesis by (simp add: Op_space_chunk s)
    qed
  next
    case (Op_take n)
    consider "length (contents b) < n" | "n = 0" | "0 < n" "n \<le> length (contents b)" by linarith
    then show ?thesis
    proof cases
      case 1
      with wf data_too_long[OF wf(1) 1, of A] show ?thesis by (simp add: Op_take s q refines_def holds_def)
    next
      case 2
      with pre have "chunk_list b \<noteq> []" by (simp add: Op_take s)
      note l = last_chunk(2,3)[OF wf(1) this]
      from drain_refines[of b _ 0 y todo x q, OF wf(1) _ wf(2)] l(2) show ?thesis by (simp add: Op_take s q 2 l(1))
    next
      case 3
      from data_correct[OF wf(1) A 3] obtain b' r where d: "data A n b = Some (b', r)" "wf_buffer b'" "contents b' = contents b"
        "r = Inl Bad_alloc \<or> (\<exists>p. r = Inr (Some p) \<and> read_ptr b' p n = Some (take n (contents b')))" by auto
      from d(4) show ?thesis
      proof
        assume "r = Inl Bad_alloc"
        with d 3 wf(2) thrown_refines[of b' y todo x q] show ?thesis by (simp add: Op_take s q)
      next
        assume "\<exists>p. r = Inr (Some p) \<and> read_ptr b' p n = Some (take n (contents b'))"
        with d 3 wf(2) drain_refines[of b' _ n y todo x q] show ?thesis by (auto simp: Op_take s q)
      qed
    qed
  next
    case Op_chunk
    with pre have "chunk_list b \<noteq> []" by (simp add: s)
    from last_chunk(1)[OF wf(1) this] obtain p n where d: "dataChunk b = Inr (p, n)" "contents b \<noteq> [] \<longrightarrow> 0 < n"
      "read_ptr b p n = Some (take n (contents b))" by blast
    then have "queue_step todo x q (drop n (contents b), contents y) (Out_bytes (take n (contents b)))"
      by (auto simp: Op_chunk q)
    with drain_refines[OF wf(1) d(3) wf(2)] d(1) show ?thesis by (simp add: Op_chunk s)
  next
    case (Op_drain n)
    obtain b' m where d: "drain n b = (b', m)" by fastforce
    with drain_correct[OF wf(1) d] wf(2) show ?thesis by (simp add: Op_drain s q refines_def holds_def)
  next
    case (Op_index i)
    from index_correct[OF wf(1), of i todo] pre obtain lv where "index b i = Inr lv"
      "load todo b lv = Some (if i < length (contents b) then contents b ! i else todo)" by (auto simp: Op_index s)
    with wf show ?thesis by (simp add: Op_index s q refines_def holds_def)
  next
    case Op_size
    with wf wf_bufferD(2)[OF wf(1)] show ?thesis by (simp add: s q refines_def holds_def size_buffer_def)
  next
    case (Op_chunk_size n)
    with wf pre show ?thesis
      by (simp add: s q refines_def holds_def set_default_chunk_size_def wf_buffer_def contents_def)
  next
    case Op_swap
    with wf show ?thesis by (simp add: s q refines_def holds_def swap_correct)
  qed
qed

lemma exec_ops_refine:
  assumes "alloc_ok A" and "holds s q" and "ops_pre A todo ops s"
  shows "\<exists>s' outs q'. exec_ops A todo ops s = Some (Inr (s', outs)) \<and> holds s' q' \<and> queue_run todo ops q outs q'"
  using assms(2,3)
proof (induction ops arbitrary: s q)
  case (Cons x ops)
  from exec_op_refines[OF assms(1) Cons.prems(1)] Cons.prems(2) obtain t out u where
    t: "exec_op A todo x s = Some (Inr (t, out))" "holds t u" "queue_step todo x q u out"
    unfolding refines_def by fastforce
  with Cons.prems(2) have "ops_pre A todo ops t" by simp
  from Cons.IH[OF t(2) this] obtain s' outs q' where
    "exec_ops A todo ops t = Some (Inr (s', outs))" "holds s' q'" "queue_run todo ops u outs q'" by blast
  moreover from this(3) t(3) have "queue_run todo (x # ops) q (out # outs) q'" by (subst queue_run.simps) blast
  ultimately show ?case using t(1) by (intro exI[of _ s'] exI[of _ "out # outs"] exI[of _ q']) simp
qed auto

section \<open>Where data does not return\<close>

lemma data_loop_stuck:
  assumes "data_loop len copied m cl = Some r"
  shows "\<not> (copied < len \<and> cl \<noteq> [] \<and> ch_end (last cl) = ch_offset (last cl))"
proof (rule data_loop.raw_induct[OF _ assms,
    where P = "\<lambda>len copied m cl r. \<not> (copied < len \<and> cl \<noteq> [] \<and> ch_end (last cl) = ch_offset (last cl))"])
  fix f len copied new_p cl r
  assume "\<And>len copied new_p cl r. f len copied new_p cl = Some r \<Longrightarrow>
      \<not> (copied < len \<and> cl \<noteq> [] \<and> ch_end (last cl) = ch_offset (last cl))"
    and "(if copied < len then
        (if cl = [] then Some (Inl Undef)
         else
           (let ch = last cl in
            if ch_end ch > ch_offset ch then
              (let to_copy = min (ch_len ch) (sub64 len copied) in
               case mem_read (ch_p ch) (ch_offset ch) to_copy of
                 None \<Rightarrow> Some (Inl Undef)
               | Some xs \<Rightarrow>
                   (case mem_write new_p copied xs of
                      None \<Rightarrow> Some (Inl Undef)
                    | Some m \<Rightarrow>
                        f len (add64 copied to_copy) m
                          (if to_copy \<ge> ch_len ch then butlast cl
                           else butlast cl @
                                  [ch\<lparr>ch_offset := add64 (ch_offset ch) to_copy\<rparr>])))
            else f len copied new_p cl))
      else Some (Inr (new_p, cl))) = Some r"
  then show "\<not> (copied < len \<and> cl \<noteq> [] \<and> ch_end (last cl) = ch_offset (last cl))"
    by (fastforce simp: Let_def)
qed

section \<open>Properties of the buffer\<close>

text \<open>A buffer of two chunks with the bytes 1 to 5, the first byte already drained.\<close>

definition sample_buffer :: buffer where
  "sample_buffer = fst (drain 1 (fst (push zero_alloc [3, 4, 5]
     (fst (push zero_alloc [0, 1, 2] (set_default_chunk_size 2 new_buffer))))))"

lemma sample_buffer_eq:
  "sample_buffer = \<lparr>buf_size = 5, default_chunk_size = 2, chunk_list =
     [\<lparr>ch_p = [3, 4, 5], ch_offset = 0, ch_end = 3, ch_cap = 3\<rparr>,
      \<lparr>ch_p = [0, 1, 2], ch_offset = 1, ch_end = 3, ch_cap = 3\<rparr>]\<rparr>"
  by code_simp

lemma wf_sample_buffer: "wf_buffer sample_buffer"
  and contents_sample_buffer: "contents sample_buffer = [1, 2, 3, 4, 5]"
  by code_simp+

lemma alloc_total_zero: "alloc_total zero_alloc"
  by (simp add: alloc_total_def) (simp add: zero_alloc_def)



text \<open>
  \<open>push\<close> appends all its bytes and returns their number, across chunk boundaries; if
  the allocation of a new chunk throws, a proper prefix has been appended and the buffer
  is still well formed.
\<close>

theorem buffer_push_appends:
  assumes "wf_buffer b" and "alloc_ok A" and "length (contents b) + length src < 2 ^ 64"
    and "push A src b = (b', r)"
  shows "wf_buffer b' \<and>
     (r = Inr (length src) \<and> contents b' = contents b @ src \<or>
      r = Inl Bad_alloc \<and> (\<exists>k < length src. contents b' = contents b @ take k src))"
  using push_correct[OF assms] by blast

theorem buffer_push_appends_witness:
  "wf_buffer (fst (push zero_alloc [6, 7] sample_buffer)) \<and>
   snd (push zero_alloc [6, 7] sample_buffer) = Inr 2 \<and>
   contents (fst (push zero_alloc [6, 7] sample_buffer)) = [1, 2, 3, 4, 5, 6, 7]"
proof -
  have s: "snd (push zero_alloc [6, 7] sample_buffer) = Inr 2" by code_simp
  then have p: "push zero_alloc [6, 7] sample_buffer = (fst (push zero_alloc [6, 7] sample_buffer), Inr 2)"
    by (simp add: prod_eq_iff)
  show ?thesis
    using buffer_push_appends[OF wf_sample_buffer alloc_ok_zero _ p] s
    by (simp add: contents_sample_buffer)
qed

text \<open>
  \<open>drain\<close> removes the oldest bytes, as many as asked for or as there are, and returns
  that number.
\<close>

theorem buffer_drain_drops:
  assumes "wf_buffer b" and "drain len b = (b', n)"
  shows "wf_buffer b' \<and> n = min len (size_buffer b) \<and> contents b' = drop len (contents b)"
  using drain_correct[OF assms] wf_bufferD(2)[OF assms(1)] by (simp add: size_buffer_def)

theorem buffer_drain_drops_witness:
  "contents (fst (drain 3 sample_buffer)) = [4, 5] \<and> snd (drain 3 sample_buffer) = 3"
  using buffer_drain_drops[OF wf_sample_buffer prod.collapse[symmetric], of 3]
    wf_bufferD(2)[OF wf_sample_buffer]
  by (simp add: contents_sample_buffer size_buffer_def)

text \<open>
  \<open>data\<close> makes the oldest \<open>n\<close> bytes contiguous without changing the queue: for
  \<open>0 < n \<le> size\<close> it returns, and the pointer it sets can be read for \<open>n\<close> bytes, which are
  the oldest \<open>n\<close>; for \<open>n\<close> larger than the size it sets the null pointer.
\<close>

theorem buffer_data_contiguous:
  assumes "wf_buffer b" and "alloc_total A" and "0 < n"
  shows "if n \<le> size_buffer b
    then \<exists>b' q. data A n b = Some (b', Inr (Some q)) \<and> wf_buffer b' \<and> contents b' = contents b \<and>
           read_ptr b' q n = Some (take n (contents b))
    else data A n b = Some (b, Inr None)"
proof (cases "n \<le> length (contents b)")
  case True
  have "A n \<noteq> None" using assms(2) by (simp add: alloc_total_def)
  with data_correct[OF assms(1) alloc_totalD[OF assms(2)] assms(3) True] True show ?thesis
    using wf_bufferD(2)[OF assms(1)] by (auto simp: size_buffer_def)
next
  case False
  with data_too_long[OF assms(1), of n A] wf_bufferD(2)[OF assms(1)] show ?thesis
    by (simp add: size_buffer_def)
qed

theorem buffer_data_contiguous_witness:
  "\<exists>b' q. data zero_alloc 4 sample_buffer = Some (b', Inr (Some q)) \<and> wf_buffer b' \<and>
     contents b' = [1, 2, 3, 4, 5] \<and> read_ptr b' q 4 = Some [1, 2, 3, 4]"
  using buffer_data_contiguous[OF wf_sample_buffer alloc_total_zero, of 4]
    wf_bufferD(2)[OF wf_sample_buffer]
  by (simp add: contents_sample_buffer size_buffer_def)

text \<open>
  Zero-copy insertion: the space that \<open>space\<close> (of at least \<open>n\<close> bytes) and \<open>spaceChunk\<close>
  (of at least one byte) hand out can be written, and committing what was written with
  \<open>spaceHaveSeted\<close> appends exactly those bytes.
\<close>

theorem buffer_space_commit:
  assumes "wf_buffer b" and "alloc_total A" and "length (contents b) + length xs < 2 ^ 64"
    and "length xs \<le> n" and "n < 2 ^ 64"
  shows "(\<exists>b1 q b2 b3. space A n b = (b1, Inr q) \<and> write_ptr b1 q xs = Some b2 \<and>
       spaceHaveSeted (length xs) b2 = Inr b3 \<and> wf_buffer b3 \<and> contents b3 = contents b @ xs) \<and>
    (\<exists>b1 q m. spaceChunk A b = (b1, Inr (q, m)) \<and> 0 < m \<and>
       (length xs \<le> m \<longrightarrow> (\<exists>b2 b3. write_ptr b1 q xs = Some b2 \<and>
       spaceHaveSeted (length xs) b2 = Inr b3 \<and> wf_buffer b3 \<and> contents b3 = contents b @ xs)))"
proof
  note A = alloc_totalD[OF assms(2)]
  obtain b1 r where s: "space A n b = (b1, r)" by fastforce
  from space_correct[OF assms(1) A assms(5) s] alloc_total_no_throw(2)[OF assms(2), of n b] s
  obtain q where q: "r = Inr q" "wf_buffer b1" "has_space b1 q n" "contents b1 = contents b" by auto
  from write_commit_correct[OF q(2,3) assms(4)] assms(3) q(4)
  show "\<exists>b1 q b2 b3. space A n b = (b1, Inr q) \<and> write_ptr b1 q xs = Some b2 \<and>
       spaceHaveSeted (length xs) b2 = Inr b3 \<and> wf_buffer b3 \<and> contents b3 = contents b @ xs"
    unfolding s q(1) by fastforce
  obtain b1 r where s: "spaceChunk A b = (b1, r)" by fastforce
  from spaceChunk_correct[OF assms(1) A s] alloc_total_no_throw(3)[OF assms(2), of b] s
  obtain q m where q: "r = Inr (q, m)" "wf_buffer b1" "has_space b1 q m" "contents b1 = contents b"
    "0 < m" by auto
  have "\<exists>b2 b3. write_ptr b1 q xs = Some b2 \<and> spaceHaveSeted (length xs) b2 = Inr b3 \<and>
      wf_buffer b3 \<and> contents b3 = contents b @ xs" if "length xs \<le> m"
    using write_commit_correct[OF q(2,3) that] assms(3) q(4) by fastforce
  with s q(1,5) show "\<exists>b1 q m. spaceChunk A b = (b1, Inr (q, m)) \<and> 0 < m \<and>
       (length xs \<le> m \<longrightarrow> (\<exists>b2 b3. write_ptr b1 q xs = Some b2 \<and>
       spaceHaveSeted (length xs) b2 = Inr b3 \<and> wf_buffer b3 \<and> contents b3 = contents b @ xs))"
    by blast
qed

theorem buffer_space_commit_witness:
  "\<exists>b1 q b2 b3. space zero_alloc 2 sample_buffer = (b1, Inr q) \<and> write_ptr b1 q [9] = Some b2 \<and>
     spaceHaveSeted 1 b2 = Inr b3 \<and> wf_buffer b3 \<and> contents b3 = [1, 2, 3, 4, 5, 9]"
  using buffer_space_commit[OF wf_sample_buffer alloc_total_zero, of "[9]" 2]
  by (simp add: contents_sample_buffer)

text \<open>
  \<open>operator[]\<close> finds the byte at any position of the queue, also where its sum
  \<open>cur + end\<close> wraps around, and is the shared static byte beyond the end.
\<close>

theorem buffer_index:
  assumes "wf_buffer b" and "i < 2 ^ 64"
  shows "\<exists>lv. index b i = Inr lv \<and>
     load todo b lv = Some (if i < size_buffer b then contents b ! i else todo)"
  using index_correct[OF assms] wf_bufferD(2)[OF assms(1)] by (simp add: size_buffer_def)

theorem buffer_index_witness:
  "\<exists>lv. index sample_buffer 3 = Inr lv \<and> load 0 sample_buffer lv = Some 4"
  using buffer_index[OF wf_sample_buffer, of 3 0] wf_bufferD(2)[OF wf_sample_buffer]
  by (simp add: contents_sample_buffer size_buffer_def)

text \<open>
  C39. The edges of \<open>data\<close>. A request of no bytes from a buffer without chunks reads the
  last element of an empty list. A default chunk size of 0 lets \<open>spaceChunk\<close> leave an
  empty chunk behind the data of a later \<open>push\<close>, and then \<open>data\<close> does not return for any
  request that the buffer's size admits.
\<close>

theorem buffer_data_edges:
  assumes "alloc_total A" and "chunk_list b = []" and "xs \<noteq> []"
    and "length xs < 2 ^ 64" and "0 < n" and "n \<le> length xs"
  shows "data A 0 b = Some (b, Inl Undef) \<and>
    data A n (fst (push A xs (fst (spaceChunk A (set_default_chunk_size 0 new_buffer))))) = None"
proof
  show "data A 0 b = Some (b, Inl Undef)" using assms(2) by (simp add: data_def)
  have "A 0 \<noteq> None" "A (length xs) \<noteq> None" "A n \<noteq> None" using assms(1) by (auto simp: alloc_total_def)
  then obtain m where m: "A (length xs) = Some m" "length m = length xs" "A 0 = Some []"
    using assms(1) by (metis alloc_ok_def alloc_totalD length_0_conv not_None_eq)
  define c0 where "c0 = \<lparr>ch_p = [], ch_offset = 0, ch_end = 0, ch_cap = 0\<rparr>"
  define b0 where "b0 = \<lparr>buf_size = 0, default_chunk_size = 0, chunk_list = [c0]\<rparr>"
  have s: "fst (spaceChunk A (set_default_chunk_size 0 new_buffer)) = b0"
    using m(3) by (simp add: spaceChunk_def set_default_chunk_size_def new_buffer_def Chunk_new_def
      b0_def c0_def)
  have p: "fst (push A xs b0) = b0\<lparr>buf_size := length xs, chunk_list :=
      [\<lparr>ch_p = xs, ch_offset = 0, ch_end = length xs, ch_cap = length xs\<rparr>, c0]\<rparr>"
    using m assms(3,4)
    by (simp add: push_def fill_first_def b0_def c0_def Chunk_new_def mem size_t Let_def)
  obtain mn where mn: "A n = Some mn" using \<open>A n \<noteq> None\<close> by blast
  have "data_loop n 0 mn [\<lparr>ch_p = xs, ch_offset = 0, ch_end = length xs, ch_cap = length xs\<rparr>, c0] = None"
    using data_loop_stuck[of n 0 mn "[\<lparr>ch_p = xs, ch_offset = 0, ch_end = length xs, ch_cap = length xs\<rparr>, c0]"]
      assms(5) by (cases rule: option.exhaust) (auto simp: c0_def)
  then show "data A n (fst (push A xs (fst (spaceChunk A (set_default_chunk_size 0 new_buffer))))) = None"
    using assms(5,6) mn by (simp add: s p data_def Chunk_new_def) (simp add: c0_def)
qed

theorem buffer_data_edges_witness:
  "data zero_alloc 0 new_buffer = Some (new_buffer, Inl Undef) \<and>
   data zero_alloc 1 (fst (push zero_alloc [7, 8]
     (fst (spaceChunk zero_alloc (set_default_chunk_size 0 new_buffer))))) = None"
  by (rule buffer_data_edges[OF alloc_total_zero]) (simp_all add: new_buffer_def)

end
