(* ===== verification/Socket.thy ===== *)
theory Socket
  imports Prelude
begin

text \<open>
  The kernel's side of a connected non-blocking socket, as a script of what successive calls
  find; shared by the two server libraries.
\<close>

datatype errno = EAGAIN | EWOULDBLOCK | EINTR | Other_errno

datatype rx = Rx_data "u8 list" | Rx_eof | Rx_err errno

datatype recv_result = Recv "u8 list" | Recv_err errno

text \<open>
  \<open>recv\<close> on a non-blocking socket: at most \<open>len\<close> of the bytes at hand, 0 at the end of the
  stream, and \<open>EAGAIN\<close> when nothing is there.
\<close>

fun recv :: "nat \<Rightarrow> rx list \<Rightarrow> recv_result \<times> rx list" where
  "recv len [] = (Recv_err EAGAIN, [])"
| "recv len (Rx_data xs # evs) =
     (Recv (take len xs), if length xs \<le> len then evs else Rx_data (drop len xs) # evs)"
| "recv len (Rx_eof # evs) = (Recv [], Rx_eof # evs)"
| "recv len (Rx_err e # evs) = (Recv_err e, evs)"

fun rx_bytes :: "rx list \<Rightarrow> nat" where
  "rx_bytes [] = 0"
| "rx_bytes (Rx_data xs # evs) = length xs + rx_bytes evs"
| "rx_bytes (_ # evs) = rx_bytes evs"

text \<open>\<open>Tx n e\<close>: the kernel takes up to \<open>n\<close> bytes; with 0 bytes, \<open>errno\<close> is \<open>e\<close>.\<close>

datatype tx = Tx nat errno

text \<open>
  \<open>send\<close> as its callers see it that only look at the result: the script lists results of
  calls to come; when it is used up, the kernel takes everything.
\<close>

fun send :: "u8 list \<Rightarrow> int list \<Rightarrow> int \<times> int list" where
  "send bs [] = (int (length bs), [])"
| "send bs (r # rs) = (r, rs)"

lemma recv_progress:
  "recv len evs = (Recv xs, evs') \<Longrightarrow>
   length xs \<le> len \<and> rx_bytes evs' + length xs = rx_bytes evs \<and>
   (xs \<noteq> [] \<longrightarrow> rx_bytes evs' + length evs' < rx_bytes evs + length evs)"
  by (induction len evs rule: recv.induct) (auto split: if_splits simp: min_def)

lemma recv_error:
  "recv len evs = (Recv_err e, evs') \<Longrightarrow> rx_bytes evs' = rx_bytes evs"
  by (induction len evs rule: recv.induct) (auto split: if_splits)

end
