(* ===== verification/Handler.thy ===== *)
theory Handler
  imports Buffer_Correct Socket
begin

text \<open>
  \<open>tl::Handler\<close> (handler.h, handler.cc): the echo connection. The callback of its event reads
  what the socket has, moves it to the write buffer and writes it back when the socket is
  writable. The kernel's side of the socket is a script: \<open>rx\<close> is what successive \<open>recv\<close>
  calls find, \<open>tx\<close> what successive \<open>write\<close> calls accept. The bytes received and sent are
  results of the loops, so that a run can be compared with the socket's streams.
\<close>

section \<open>State\<close>

text \<open>The event a handler waits for; events are not persistent, \<open>None\<close> is not pending.\<close>

datatype interest = EV_READ | EV_WRITE

record handler =
  h_armed :: "(interest \<times> nat) option"
  h_read_buf :: buffer
  h_write_buf :: buffer

text \<open>
  The constructor; its argument is whether the socket could be made non-blocking. Otherwise
  it closes the descriptor and throws.
\<close>

definition Handler_new :: "bool \<Rightarrow> handler option" where
  "Handler_new nonblocking =
     (if \<not> nonblocking then None
      else Some \<lparr>h_armed = Some (EV_READ, 60), h_read_buf = new_buffer, h_write_buf = new_buffer\<rparr>)"

definition rearm :: "handler \<Rightarrow> handler" where
  "rearm h =
     (let what = (if size_buffer (h_write_buf h) \<noteq> 0 then EV_WRITE else EV_READ)
      in h\<lparr>h_armed := Some (what, 10)\<rparr>)"

section \<open>handleRead\<close>

datatype read_end = Read_break | Read_fail | Read_fault fault

function read_loop :: "allocator \<Rightarrow> buffer \<Rightarrow> rx list \<Rightarrow> buffer \<times> rx list \<times> u8 list \<times> read_end" where
  "read_loop A b evs = (case spaceChunk A b of
     (b1, Inl f) \<Rightarrow> (b1, evs, [], Read_fault f)
   | (b1, Inr (buf, len)) \<Rightarrow>
       (case recv len evs of
          (Recv_err e, evs') \<Rightarrow>
            if e = EAGAIN \<or> e = EWOULDBLOCK \<or> e = EINTR then (b1, evs', [], Read_break)
            else (b1, evs', [], Read_fail)
        | (Recv xs, evs') \<Rightarrow>
            if xs = [] then (b1, evs', [], Read_fail)
            else
              (case write_ptr b1 buf xs of
                 None \<Rightarrow> (b1, evs', xs, Read_fault Undef)
               | Some b2 \<Rightarrow>
                   (case spaceHaveSeted (length xs) b2 of
                      Inl f \<Rightarrow> (b2, evs', xs, Read_fault f)
                    | Inr b3 \<Rightarrow>
                        if length xs < len then (b3, evs', xs, Read_break)
                        else (case read_loop A b3 evs' of
                                (b4, evs'', ys, r) \<Rightarrow> (b4, evs'', xs @ ys, r))))))"
  by pat_completeness auto
termination
  by (relation "measure (\<lambda>(_, _, evs). rx_bytes evs + length evs)")
     (auto dest: recv_progress[OF sym])

declare read_loop.simps [simp del]

text \<open>The echo: everything in the read buffer goes to the write buffer, chunk by chunk.\<close>

partial_function (option) echo_loop ::
  "allocator \<Rightarrow> buffer \<Rightarrow> buffer \<Rightarrow> (buffer \<times> buffer \<times> fault option) option" where
  "echo_loop A r w =
     (if size_buffer r = 0 then Some (r, w, None)
      else
        (case dataChunk r of
           Inl f \<Rightarrow> Some (r, w, Some f)
         | Inr (buf, len) \<Rightarrow>
             (case read_ptr r buf len of
                None \<Rightarrow> Some (r, w, Some Undef)
              | Some xs \<Rightarrow>
                  (case push A xs w of
                     (w', Inl f) \<Rightarrow> Some (r, w', Some f)
                   | (w', Inr _) \<Rightarrow> echo_loop A (fst (drain len r)) w'))))"

declare echo_loop.simps [code]

definition handleRead ::
  "allocator \<Rightarrow> handler \<Rightarrow> rx list \<Rightarrow> (handler \<times> rx list \<times> u8 list \<times> (fault + int)) option" where
  "handleRead A h evs = (case read_loop A (h_read_buf h) evs of
     (b, evs', got, r) \<Rightarrow>
       (let h1 = h\<lparr>h_read_buf := b\<rparr> in
        case r of
          Read_fault f \<Rightarrow> Some (h1, evs', got, Inl f)
        | Read_fail \<Rightarrow> Some (h1, evs', got, Inr (-1))
        | Read_break \<Rightarrow>
            (case echo_loop A b (h_write_buf h1) of
               None \<Rightarrow> None
             | Some (rb, wb, Some f) \<Rightarrow>
                 Some (h1\<lparr>h_read_buf := rb, h_write_buf := wb\<rparr>, evs', got, Inl f)
             | Some (rb, wb, None) \<Rightarrow>
                 Some (rearm (h1\<lparr>h_read_buf := rb, h_write_buf := wb\<rparr>), evs', got, Inr 0))))"

section \<open>handleWrite\<close>

datatype write_end = Write_done | Write_again | Write_fail | Write_fault fault

function write_loop :: "buffer \<Rightarrow> tx list \<Rightarrow> buffer \<times> tx list \<times> u8 list \<times> write_end" where
  "write_loop b txs =
     (if size_buffer b = 0 then (b, txs, [], Write_done)
      else
        (case dataChunk b of
           Inl f \<Rightarrow> (b, txs, [], Write_fault f)
         | Inr (buf, len) \<Rightarrow>
             (case read_ptr b buf len of
                None \<Rightarrow> (b, txs, [], Write_fault Undef)
              | Some xs \<Rightarrow>
                  (case txs of
                     [] \<Rightarrow> (b, [], [], Write_again)
                   | Tx accepted e # txs' \<Rightarrow>
                       (let n = min accepted len in
                        if n = 0 then
                          (if e = EAGAIN \<or> e = EINTR then (b, txs', [], Write_again)
                           else (b, txs', [], Write_fail))
                        else (case write_loop (fst (drain n b)) txs' of
                                (b', txs'', ys, r) \<Rightarrow> (b', txs'', take n xs @ ys, r)))))))"
  by pat_completeness auto
termination by (relation "measure (\<lambda>(_, txs). length txs)") auto

declare write_loop.simps [simp del]

definition handleWrite :: "handler \<Rightarrow> tx list \<Rightarrow> handler \<times> tx list \<times> u8 list \<times> (fault + int)" where
  "handleWrite h txs = (case write_loop (h_write_buf h) txs of
     (b, txs', sent, r) \<Rightarrow>
       (let h1 = h\<lparr>h_write_buf := b\<rparr> in
        case r of
          Write_fault f \<Rightarrow> (h1, txs', sent, Inl f)
        | Write_again \<Rightarrow> (h1, txs', sent, Inr 0)
        | Write_fail \<Rightarrow> (h1, txs', sent, Inr (-1))
        | Write_done \<Rightarrow> (rearm h1, txs', sent, Inr 0)))"

section \<open>The event callback\<close>

record occurred =
  ev_timeout :: bool
  ev_read :: bool
  ev_write :: bool

text \<open>
  \<open>handler_event_cb\<close>: the handler after the call, \<open>None\<close> once it is deleted (which closes the
  socket), with the bytes received and sent by the call.
\<close>

definition handler_event_cb ::
  "allocator \<Rightarrow> occurred \<Rightarrow> handler \<Rightarrow> rx list \<Rightarrow> tx list \<Rightarrow>
   (handler option \<times> u8 list \<times> u8 list \<times> fault option) option" where
  "handler_event_cb A what h evs txs =
     (if ev_timeout what then Some (None, [], [], None)
      else
        (case (if ev_read what then handleRead A h evs else Some (h, evs, [], Inr 0)) of
           None \<Rightarrow> None
         | Some (h1, _, got, Inl f) \<Rightarrow> Some (Some h1, got, [], Some f)
         | Some (h1, _, got, Inr r) \<Rightarrow>
             if r \<noteq> 0 then Some (None, got, [], None)
             else
               (case (if ev_write what then handleWrite h1 txs else (h1, txs, [], Inr 0)) of
                  (h2, _, sent, Inl f) \<Rightarrow> Some (Some h2, got, sent, Some f)
                | (h2, _, sent, Inr r') \<Rightarrow>
                    if r' \<noteq> 0 then Some (None, got, sent, None)
                    else Some (Some h2, got, sent, None))))"

section \<open>A connection\<close>

text \<open>
  A connection over its life: the handler while it exists and the two streams of its
  socket. The loop calls the callback only for what the handler has armed, and the event is
  then no longer pending; anything else that happens to the socket goes unnoticed.
\<close>

record conn =
  c_handler :: "handler option"
  c_received :: "u8 list"
  c_sent :: "u8 list"

datatype io = Readable "rx list" | Writable "tx list" | Timeout

definition new_conn :: conn where
  "new_conn = \<lparr>c_handler = Handler_new True, c_received = [], c_sent = []\<rparr>"

definition call_back :: "allocator \<Rightarrow> occurred \<Rightarrow> rx list \<Rightarrow> tx list \<Rightarrow> handler \<Rightarrow> conn \<Rightarrow> conn option" where
  "call_back A what evs txs h c =
     (case handler_event_cb A what (h\<lparr>h_armed := None\<rparr>) evs txs of
        Some (h', got, sent, None) \<Rightarrow>
          Some \<lparr>c_handler = h', c_received = c_received c @ got, c_sent = c_sent c @ sent\<rparr>
      | _ \<Rightarrow> None)"

fun conn_step :: "allocator \<Rightarrow> conn \<Rightarrow> io \<Rightarrow> conn option" where
  "conn_step A c x = (case c_handler c of
     None \<Rightarrow> Some c
   | Some h \<Rightarrow>
       (case (h_armed h, x) of
          (Some (EV_READ, _), Readable evs) \<Rightarrow>
            call_back A \<lparr>ev_timeout = False, ev_read = True, ev_write = False\<rparr> evs [] h c
        | (Some (EV_WRITE, _), Writable txs) \<Rightarrow>
            call_back A \<lparr>ev_timeout = False, ev_read = False, ev_write = True\<rparr> [] txs h c
        | (Some _, Timeout) \<Rightarrow>
            call_back A \<lparr>ev_timeout = True, ev_read = False, ev_write = False\<rparr> [] [] h c
        | _ \<Rightarrow> Some c))"

fun conn_run :: "allocator \<Rightarrow> conn \<Rightarrow> io list \<Rightarrow> conn option" where
  "conn_run A c [] = Some c"
| "conn_run A c (x # xs) = (case conn_step A c x of None \<Rightarrow> None | Some c' \<Rightarrow> conn_run A c' xs)"

fun io_bytes :: "io \<Rightarrow> nat" where
  "io_bytes (Readable evs) = rx_bytes evs"
| "io_bytes _ = 0"

end
