(* ===== verification/Handler_Correct.thy ===== *)
theory Handler_Correct
  imports Handler
begin

text \<open>
  The echo connection is correct on top of the byte-queue interface: its loops return, run
  into no undefined behaviour, and the bytes sent are always a prefix of the bytes received.
  One path leaves a live connection with no event armed; it is stated at the end.
\<close>

section \<open>The loops\<close>

lemma size_buffer_0: "wf_buffer b \<Longrightarrow> size_buffer b = 0 \<longleftrightarrow> contents b = []"
  by (simp add: size_buffer_def wf_bufferD)

lemma read_loop_correct:
  "\<lbrakk>alloc_total A; wf_buffer b; length (contents b) + rx_bytes evs < 2 ^ 64;
    read_loop A b evs = (b', evs', got, r)\<rbrakk> \<Longrightarrow>
   wf_buffer b' \<and> contents b' = contents b @ got \<and> length got \<le> rx_bytes evs \<and>
   (\<forall>f. r \<noteq> Read_fault f)"
proof (induction "rx_bytes evs + length evs" arbitrary: b evs b' evs' got r rule: less_induct)
  case less
  obtain b1 s where sc: "spaceChunk A b = (b1, s)" by fastforce
  from bq.spaceChunk_law[OF alloc_totalD[OF less.prems(1)] less.prems(2) sc]
    alloc_total_no_throw(3)[OF less.prems(1), of b] sc
  obtain q n where s: "s = Inr (q, n)" "wf_buffer b1" "contents b1 = contents b" by auto
  show ?case
  proof (cases "recv n evs")
    case (Pair o1 evs1)
    show ?thesis
    proof (cases o1)
      case (Recv_err e)
      with less.prems(4) sc s Pair show ?thesis
        by (subst (asm) read_loop.simps) (auto split: if_splits)
    next
      case (Recv xs)
      note rp = recv_progress[OF Pair[unfolded Recv]]
      show ?thesis
      proof (cases "xs = []")
        case True
        with less.prems(4) sc s Pair Recv show ?thesis
          by (subst (asm) read_loop.simps) auto
      next
        case False
        have "length (contents b) + length xs < 2 ^ 64" using less.prems(3) rp by simp
        from bq.receive[OF alloc_totalD[OF less.prems(1)] less.prems(2) sc[unfolded s(1)] _ this] rp
        obtain b2 b3 where w: "write_ptr b1 q xs = Some b2" "spaceHaveSeted (length xs) b2 = Inr b3"
          "wf_buffer b3" "contents b3 = contents b @ xs" by blast
        show ?thesis
        proof (cases "length xs < n")
          case True
          with less.prems(4) sc s Pair Recv w False rp show ?thesis
            by (subst (asm) read_loop.simps) auto
        next
          case full: False
          obtain b4 e4 ys r4 where rec: "read_loop A b3 evs1 = (b4, e4, ys, r4)"
            by (metis prod_cases4)
          have eq: "b' = b4" "got = xs @ ys" "r = r4"
            using less.prems(4) sc s Pair Recv w False full rec
            by (subst (asm) read_loop.simps, simp)+
          have "length (contents b3) + rx_bytes evs1 < 2 ^ 64"
            using less.prems(3) rp w(4) by simp
          from less.hyps[OF _ less.prems(1) w(3) this rec] rp False w(4) eq show ?thesis by simp
        qed
      qed
    qed
  qed
qed

lemma echo_loop_correct:
  "\<lbrakk>alloc_total A; wf_buffer r; wf_buffer w; length (contents w) + length (contents r) < 2 ^ 64\<rbrakk> \<Longrightarrow>
   \<exists>r' w'. echo_loop A r w = Some (r', w', None) \<and> wf_buffer r' \<and> wf_buffer w' \<and>
     contents r' = [] \<and> contents w' = contents w @ contents r"
proof (induction "length (contents r)" arbitrary: r w rule: less_induct)
  case less
  show ?case
  proof (cases "contents r = []")
    case True
    with less.prems show ?thesis by (subst echo_loop.simps) (simp add: size_buffer_0)
  next
    case False
    from bq.transfer[OF alloc_totalD[OF less.prems(1)] less.prems(2,3) False less.prems(4)]
    obtain q n xs where d: "dataChunk r = Inr (q, n)" "read_ptr r q n = Some xs"
      and tr: "\<And>w' v r' m. push A xs w = (w', v) \<Longrightarrow> drain n r = (r', m) \<Longrightarrow>
        wf_buffer w' \<and> wf_buffer r' \<and>
        (v = Inl Bad_alloc \<or>
         v = Inr (length xs) \<and> contents w' @ contents r' = contents w @ contents r \<and>
         length (contents r') < length (contents r))" by blast
    obtain w' v where p: "push A xs w = (w', v)" by fastforce
    obtain r' m where dr: "drain n r = (r', m)" by fastforce
    from tr[OF p dr] alloc_total_no_throw(1)[OF less.prems(1), of xs w] p
    have t: "wf_buffer w'" "wf_buffer r'" "v = Inr (length xs)"
      "contents w' @ contents r' = contents w @ contents r"
      "length (contents r') < length (contents r)" by auto
    have "length (contents w') + length (contents r') < 2 ^ 64"
      using less.prems(4) arg_cong[OF t(4), of length] by simp
    from less.hyps[OF t(5) less.prems(1) t(2,1) this] t(4) show ?thesis
      using False less.prems(2) d p dr t(3)
      by (subst echo_loop.simps) (simp add: size_buffer_0)
  qed
qed

lemma write_loop_correct:
  "\<lbrakk>wf_buffer b; write_loop b txs = (b', txs', sent, r)\<rbrakk> \<Longrightarrow>
   wf_buffer b' \<and> contents b = sent @ contents b' \<and> (\<forall>f. r \<noteq> Write_fault f) \<and>
   (r = Write_done \<longleftrightarrow> contents b' = [])"
proof (induction txs arbitrary: b b' txs' sent r)
  case Nil
  show ?case
  proof (cases "contents b = []")
    case True
    with Nil show ?thesis by (subst (asm) write_loop.simps) (simp add: size_buffer_0)
  next
    case False
    from dataChunk_correct[OF Nil.prems(1) False] False Nil show ?thesis
      by (subst (asm) write_loop.simps) (auto simp: size_buffer_0)
  qed
next
  case (Cons x txs)
  obtain k e where x: "x = Tx k e" by (cases x)
  show ?case
  proof (cases "contents b = []")
    case True
    with Cons.prems show ?thesis by (subst (asm) write_loop.simps) (simp add: size_buffer_0)
  next
    case False
    from dataChunk_correct[OF Cons.prems(1) False] obtain q n where
      d: "dataChunk b = Inr (q, n)" "0 < n" "n \<le> length (contents b)"
        "read_ptr b q n = Some (take n (contents b))" by blast
    show ?thesis
    proof (cases "min k n = 0")
      case True
      with Cons.prems False d x show ?thesis
        by (subst (asm) write_loop.simps) (auto simp: size_buffer_0 Let_def split: if_splits)
    next
      case pos: False
      obtain j where j: "min k n = j" "j \<noteq> 0" "j \<le> n" using pos by auto
      obtain b1 m where dr: "drain j b = (b1, m)" by fastforce
      from drain_correct[OF Cons.prems(1) dr] have b1: "wf_buffer b1"
        "contents b1 = drop j (contents b)" by simp_all
      obtain b2 t2 ys r2 where rec: "write_loop b1 txs = (b2, t2, ys, r2)" by (metis prod_cases4)
      have "write_loop b (x # txs) = (b2, t2, take j (take n (contents b)) @ ys, r2)"
        using Cons.prems(1) False d x dr rec j
        by (subst write_loop.simps) (simp add: size_buffer_0 Let_def del: take_take)
      with Cons.prems(2) j(3) have eq: "b' = b2" "sent = take j (contents b) @ ys" "r = r2"
        by (simp_all add: min_def)
      from Cons.IH[OF b1(1) rec] have "drop j (contents b) = ys @ contents b2" "wf_buffer b2"
        "\<forall>f. r2 \<noteq> Write_fault f" "r2 = Write_done \<longleftrightarrow> contents b2 = []" by (simp_all add: b1(2))
      moreover from this(1) have "contents b = take j (contents b) @ ys @ contents b2"
        by (metis append_take_drop_id)
      ultimately show ?thesis by (simp add: eq)
    qed
  qed
qed

lemma read_loop_all:
  "\<lbrakk>alloc_total A; wf_buffer b; xs \<noteq> []; length (contents b) + length xs < 2 ^ 64\<rbrakk> \<Longrightarrow>
   \<exists>b'. read_loop A b [Rx_data xs] = (b', [], xs, Read_break)"
proof (induction "length xs" arbitrary: b xs rule: less_induct)
  case less
  obtain b1 s where sc: "spaceChunk A b = (b1, s)" by fastforce
  from bq.spaceChunk_law[OF alloc_totalD[OF less.prems(1)] less.prems(2) sc]
    alloc_total_no_throw(3)[OF less.prems(1), of b] sc
  obtain q n where s: "s = Inr (q, n)" "0 < n" "wf_buffer b1" "contents b1 = contents b" by auto
  let ?now = "take n xs" and ?later = "drop n xs"
  have now: "length ?now \<le> n" "length (contents b) + length ?now < 2 ^ 64" "?now \<noteq> []"
    using less.prems(3,4) s(2) by simp_all
  from bq.receive[OF alloc_totalD[OF less.prems(1)] less.prems(2) sc[unfolded s(1)] now(1,2)]
  obtain b2 b3 where w: "write_ptr b1 q ?now = Some b2" "spaceHaveSeted (length ?now) b2 = Inr b3"
    "wf_buffer b3" "contents b3 = contents b @ ?now" by blast
  note step = read_loop.simps[of A b "[Rx_data xs]"]
  show ?case
  proof (cases "length xs < n")
    case True
    with step sc s w now show ?thesis by simp
  next
    case full: False
    show ?thesis
    proof (cases "?later = []")
      case True
      obtain b4 s4 where sc4: "spaceChunk A b3 = (b4, s4)" by fastforce
      from bq.spaceChunk_law[OF alloc_totalD[OF less.prems(1)] w(3) sc4]
        alloc_total_no_throw(3)[OF less.prems(1), of b3] sc4
      have "read_loop A b3 [] = (b4, [], [], Read_break)" by (subst read_loop.simps) auto
      with True full step sc s w now show ?thesis by simp
    next
      case False
      have "length ?later < length xs" "length (contents b3) + length ?later < 2 ^ 64"
        using full s(2) less.prems(4) False w(4) by simp_all
      from less.hyps[OF this(1) less.prems(1) w(3) False this(2)] obtain b4 where
        "read_loop A b3 [Rx_data ?later] = (b4, [], ?later, Read_break)" by blast
      with False full step sc s w now show ?thesis by simp
    qed
  qed
qed

section \<open>The handler\<close>

definition wf_handler :: "handler \<Rightarrow> bool" where
  "wf_handler h \<longleftrightarrow> wf_buffer (h_read_buf h) \<and> wf_buffer (h_write_buf h) \<and> contents (h_read_buf h) = []"

lemma wf_rearm: "wf_handler (rearm h) \<longleftrightarrow> wf_handler h"
  and rearm_bufs: "h_write_buf (rearm h) = h_write_buf h" "h_read_buf (rearm h) = h_read_buf h"
  by (simp_all add: rearm_def wf_handler_def Let_def)

lemma handleRead_correct:
  assumes "alloc_total A" and "wf_handler h"
    and "length (contents (h_write_buf h)) + rx_bytes evs < 2 ^ 64"
  shows "\<exists>h' evs' got r. handleRead A h evs = Some (h', evs', got, Inr r) \<and> length got \<le> rx_bytes evs \<and>
    (r = 0 \<and> wf_handler h' \<and> contents (h_write_buf h') = contents (h_write_buf h) @ got \<and>
       h_armed h' = Some (if contents (h_write_buf h') \<noteq> [] then EV_WRITE else EV_READ, 10) \<or>
     r = -1)"
proof -
  from assms(2) have wf: "wf_buffer (h_read_buf h)" "wf_buffer (h_write_buf h)"
    "contents (h_read_buf h) = []" by (simp_all add: wf_handler_def)
  obtain b evs' got e where rl: "read_loop A (h_read_buf h) evs = (b, evs', got, e)"
    by (metis prod_cases4)
  have "length (contents (h_read_buf h)) + rx_bytes evs < 2 ^ 64" using assms(3) wf(3) by simp
  from read_loop_correct[OF assms(1) wf(1) this rl] wf(3)
  have b: "wf_buffer b" "contents b = got" "length got \<le> rx_bytes evs" "\<forall>f. e \<noteq> Read_fault f" by simp_all
  show ?thesis
  proof (cases e)
    case Read_break
    have "length (contents (h_write_buf h)) + length (contents b) < 2 ^ 64" using assms(3) b by simp
    from echo_loop_correct[OF assms(1) b(1) wf(2) this] b(2) obtain r' w' where
      ec: "echo_loop A b (h_write_buf h) = Some (r', w', None)" "wf_buffer r'" "wf_buffer w'"
      "contents r' = []" "contents w' = contents (h_write_buf h) @ got" by auto
    define h' where "h' = rearm (h\<lparr>h_read_buf := r', h_write_buf := w'\<rparr>)"
    have "handleRead A h evs = Some (h', evs', got, Inr 0)"
      using rl Read_break ec(1) by (simp add: handleRead_def h'_def)
    moreover have "wf_handler h'" using ec by (simp add: h'_def wf_rearm) (simp add: wf_handler_def)
    moreover have "h_armed h' = Some (if contents (h_write_buf h') \<noteq> [] then EV_WRITE else EV_READ, 10)"
      using size_buffer_0[OF ec(3)] by (simp add: h'_def rearm_def Let_def)
    moreover have "h_write_buf h' = w'" by (simp add: h'_def rearm_bufs)
    ultimately show ?thesis using b(3) ec(5) by blast
  qed (use rl b in \<open>simp_all add: handleRead_def\<close>)
qed

lemma handleWrite_correct:
  assumes "wf_handler h" and "handleWrite h txs = (h', txs', sent, v)"
  shows "wf_handler h' \<and> contents (h_write_buf h) = sent @ contents (h_write_buf h') \<and>
    (v = Inr 0 \<and> contents (h_write_buf h') = [] \<and> h_armed h' = Some (EV_READ, 10) \<or>
     v = Inr 0 \<and> contents (h_write_buf h') \<noteq> [] \<and> h_armed h' = h_armed h \<or>
     v = Inr (-1))"
proof -
  from assms(1) have wf: "wf_buffer (h_read_buf h)" "wf_buffer (h_write_buf h)"
    "contents (h_read_buf h) = []" by (simp_all add: wf_handler_def)
  obtain b t s r where wl: "write_loop (h_write_buf h) txs = (b, t, s, r)" by (metis prod_cases4)
  note wc = write_loop_correct[OF wf(2) wl]
  have "wf_handler (h\<lparr>h_write_buf := b\<rparr>)" using wf wc by (simp add: wf_handler_def)
  with wc assms(2) wl show ?thesis
    by (cases r) (auto simp: handleWrite_def wf_rearm rearm_bufs Let_def, auto simp: rearm_def size_buffer_0)
qed

lemma write_loop_flushes:
  "\<lbrakk>wf_buffer b; \<forall>x \<in> set txs. \<exists>n e. x = Tx (Suc n) e; length (contents b) \<le> length txs;
    write_loop b txs = (b', txs', sent, r)\<rbrakk> \<Longrightarrow> r = Write_done"
proof (induction txs arbitrary: b b' txs' sent r)
  case Nil
  then show ?case by (subst (asm) write_loop.simps) (simp add: size_buffer_0)
next
  case (Cons x txs)
  from Cons.prems(2) obtain k e where x: "x = Tx (Suc k) e" by auto
  show ?case
  proof (cases "contents b = []")
    case True
    with Cons.prems show ?thesis by (subst (asm) write_loop.simps) (simp add: size_buffer_0)
  next
    case False
    from dataChunk_correct[OF Cons.prems(1) False] obtain q n where
      d: "dataChunk b = Inr (q, n)" "0 < n" "read_ptr b q n = Some (take n (contents b))" by blast
    obtain j where j: "min (Suc k) n = j" "j \<noteq> 0" using d(2) by auto
    obtain b1 m where dr: "drain j b = (b1, m)" by fastforce
    from drain_correct[OF Cons.prems(1) dr] False j(2) Cons.prems(3) have b1: "wf_buffer b1"
      "length (contents b1) \<le> length txs" by auto
    obtain b2 t2 ys r2 where rec: "write_loop b1 txs = (b2, t2, ys, r2)" by (metis prod_cases4)
    have "r = r2"
      using Cons.prems(1,4) False d x dr rec j
      by (subst (asm) write_loop.simps) (simp add: size_buffer_0 Let_def del: take_take)
    with Cons.IH[OF b1(1) _ b1(2) rec] Cons.prems(2) show ?thesis by simp
  qed
qed

section \<open>The connection\<close>

definition conn_inv :: "conn \<Rightarrow> bool" where
  "conn_inv c \<longleftrightarrow> (case c_handler c of
     None \<Rightarrow> \<exists>rest. c_received c = c_sent c @ rest
   | Some h \<Rightarrow> wf_handler h \<and> c_received c = c_sent c @ contents (h_write_buf h) \<and>
       (contents (h_write_buf h) = [] \<longrightarrow> (\<exists>t. h_armed h = Some (EV_READ, t))))"

lemma conn_inv_new: "conn_inv new_conn"
  by (simp add: conn_inv_def new_conn_def Handler_new_def wf_handler_def wf_new_buffer contents_new_buffer)

lemma wf_disarm: "wf_handler (h\<lparr>h_armed := a\<rparr>) = wf_handler h"
  by (simp add: wf_handler_def)

lemma readable_step:
  assumes "alloc_total A" and "conn_inv c" and "c_handler c = Some h"
    and "length (c_received c) + rx_bytes evs < 2 ^ 64"
  shows "\<exists>c'. call_back A \<lparr>ev_timeout = False, ev_read = True, ev_write = False\<rparr> evs txs h c = Some c' \<and>
    conn_inv c' \<and> length (c_received c') \<le> length (c_received c) + rx_bytes evs"
proof -
  from assms(2,3) have h: "wf_handler h" "c_received c = c_sent c @ contents (h_write_buf h)"
    by (simp_all add: conn_inv_def)
  let ?h = "h\<lparr>h_armed := None\<rparr>"
  have "length (contents (h_write_buf ?h)) + rx_bytes evs < 2 ^ 64" using assms(4) h(2) by simp
  from handleRead_correct[OF assms(1) _ this] h(1) obtain h' evs' got r where
    hr: "handleRead A ?h evs = Some (h', evs', got, Inr r)" "length got \<le> rx_bytes evs"
    "r = 0 \<and> wf_handler h' \<and> contents (h_write_buf h') = contents (h_write_buf h) @ got \<and>
       h_armed h' = Some (if contents (h_write_buf h') \<noteq> [] then EV_WRITE else EV_READ, 10) \<or> r = -1"
    by (auto simp: wf_disarm)
  with h(2) show ?thesis
    by (auto simp: call_back_def handler_event_cb_def conn_inv_def)
qed

lemma writable_step:
  assumes "conn_inv c" and "c_handler c = Some h"
  shows "\<exists>c'. call_back A \<lparr>ev_timeout = False, ev_read = False, ev_write = True\<rparr> evs txs h c = Some c' \<and>
    conn_inv c' \<and> c_received c' = c_received c \<and>
    (\<forall>h'. c_handler c' = Some h' \<and> contents (h_write_buf h') \<noteq> [] \<longrightarrow> h_armed h' = None)"
proof -
  from assms have h: "wf_handler h" "c_received c = c_sent c @ contents (h_write_buf h)"
    by (simp_all add: conn_inv_def)
  let ?h = "h\<lparr>h_armed := None\<rparr>"
  obtain h' txs' sent v where hw: "handleWrite ?h txs = (h', txs', sent, v)" by (metis prod_cases4)
  have "wf_handler ?h" using h(1) by (simp add: wf_disarm)
  from handleWrite_correct[OF this hw] h(2) hw show ?thesis
    by (auto simp: call_back_def handler_event_cb_def conn_inv_def)
qed

lemma conn_step_correct:
  assumes "alloc_total A" and "conn_inv c" and "length (c_received c) + io_bytes x < 2 ^ 64"
  shows "\<exists>c'. conn_step A c x = Some c' \<and> conn_inv c' \<and>
    length (c_received c') \<le> length (c_received c) + io_bytes x"
proof (cases "c_handler c")
  case (Some h)
  have timeout: "\<exists>c'. call_back A \<lparr>ev_timeout = True, ev_read = False, ev_write = False\<rparr> [] [] h c = Some c' \<and>
      conn_inv c' \<and> c_received c' = c_received c"
    using assms(2) Some by (auto simp: call_back_def handler_event_cb_def conn_inv_def)
  show ?thesis
  proof (cases x)
    case (Readable evs)
    with readable_step[OF assms(1,2) Some, of evs "[]"] assms(2,3) Some show ?thesis
      by (auto split: option.splits prod.splits interest.splits)
  next
    case (Writable txs)
    with writable_step[OF assms(2) Some, of A "[]" txs] assms(2) Some show ?thesis
      by (fastforce split: option.splits prod.splits interest.splits)
  next
    case Timeout
    with timeout assms(2) Some show ?thesis
      by (fastforce split: option.splits prod.splits interest.splits)
  qed
qed (use assms(2) in simp)

lemma conn_run_correct:
  "\<lbrakk>alloc_total A; conn_inv c; length (c_received c) + sum_list (map io_bytes ios) < 2 ^ 64\<rbrakk> \<Longrightarrow>
   \<exists>c'. conn_run A c ios = Some c' \<and> conn_inv c'"
proof (induction ios arbitrary: c)
  case (Cons x ios)
  have "length (c_received c) + io_bytes x < 2 ^ 64" using Cons.prems(3) by simp
  from conn_step_correct[OF Cons.prems(1,2) this] obtain c1 where
    c1: "conn_step A c x = Some c1" "conn_inv c1"
    "length (c_received c1) \<le> length (c_received c) + io_bytes x" by blast
  with Cons.IH[OF Cons.prems(1) c1(2)] Cons.prems(3) show ?case by simp
qed simp

lemma unarmed_run: "c_handler c = Some h \<Longrightarrow> h_armed h = None \<Longrightarrow> conn_run A c ios = Some c"
  by (induction ios) auto

section \<open>Properties of the echo connection\<close>

text \<open>
  C8. The server echoes: whatever the socket does, no callback of a connection fails to
  return or runs into undefined behaviour, and the bytes sent are a prefix of the bytes
  received; while the connection lives the bytes in between are exactly those in its write
  buffer. Allocation must succeed and less than \<open>2 ^ 64\<close> bytes may arrive.
\<close>

theorem echo_prefix:
  assumes "alloc_total A" and "sum_list (map io_bytes ios) < 2 ^ 64"
  shows "\<exists>c. conn_run A new_conn ios = Some c \<and> (\<exists>rest. c_received c = c_sent c @ rest \<and>
    (\<forall>h. c_handler c = Some h \<longrightarrow> rest = contents (h_write_buf h) \<and> contents (h_read_buf h) = []))"
proof -
  have "length (c_received new_conn) + sum_list (map io_bytes ios) < 2 ^ 64"
    using assms(2) by (simp add: new_conn_def)
  from conn_run_correct[OF assms(1) conn_inv_new this] show ?thesis
    by (auto simp: conn_inv_def wf_handler_def split: option.splits)
qed

theorem echo_prefix_witness:
  "\<exists>c. conn_run zero_alloc new_conn [Readable [Rx_data [1, 2, 3]], Writable [Tx 2 EAGAIN], Timeout] = Some c \<and>
    (\<exists>rest. c_received c = c_sent c @ rest \<and>
    (\<forall>h. c_handler c = Some h \<longrightarrow> rest = contents (h_write_buf h) \<and> contents (h_read_buf h) = []))"
  by (rule echo_prefix[OF alloc_total_zero]) simp

text \<open>A handler with three bytes to send that waits for its socket to be writable.\<close>

definition sample_handler :: handler where
  "sample_handler = \<lparr>h_armed = Some (EV_WRITE, 10), h_read_buf = new_buffer,
     h_write_buf = fst (push zero_alloc [1, 2, 3] (set_default_chunk_size 2 new_buffer))\<rparr>"

lemma sample_handler_ok:
  "wf_handler sample_handler" "contents (h_write_buf sample_handler) = [1, 2, 3]"
  by (simp_all add: sample_handler_def wf_handler_def wf_new_buffer contents_new_buffer) code_simp+

text \<open>
  A successful \<open>handleRead\<close> appends to the write buffer exactly the bytes \<open>recv\<close>
  delivered, leaves the read buffer empty, and waits for the socket to become writable if
  and only if there is something to write.
\<close>

theorem handle_read_echoes:
  assumes "alloc_total A" and "wf_handler h"
    and "length (contents (h_write_buf h)) + rx_bytes evs < 2 ^ 64"
  shows "\<exists>h' evs' got r. handleRead A h evs = Some (h', evs', got, Inr r) \<and>
    (r = 0 \<and> contents (h_write_buf h') = contents (h_write_buf h) @ got \<and> contents (h_read_buf h') = [] \<and>
       h_armed h' = Some (if contents (h_write_buf h') \<noteq> [] then EV_WRITE else EV_READ, 10) \<or>
     r = -1)"
  using handleRead_correct[OF assms] unfolding wf_handler_def by blast

theorem handle_read_echoes_witness:
  "\<exists>h' evs' got r. handleRead zero_alloc sample_handler [Rx_data [4, 5]] = Some (h', evs', got, Inr r) \<and>
    (r = 0 \<and> contents (h_write_buf h') = [1, 2, 3] @ got \<and> contents (h_read_buf h') = [] \<and>
       h_armed h' = Some (if contents (h_write_buf h') \<noteq> [] then EV_WRITE else EV_READ, 10) \<or>
     r = -1)"
  using handle_read_echoes[OF alloc_total_zero sample_handler_ok(1), of "[Rx_data [4, 5]]"]
  by (simp add: sample_handler_ok(2))

lemma write_round:
  assumes "wf_handler h" and "\<forall>x \<in> set txs. \<exists>n e. x = Tx (Suc n) e"
    and "length (contents (h_write_buf h)) \<le> length txs"
  shows "\<exists>h' txs'. handleWrite h txs = (h', txs', contents (h_write_buf h), Inr 0) \<and>
    wf_handler h' \<and> contents (h_write_buf h') = [] \<and> h_armed h' = Some (EV_READ, 10)"
proof -
  from assms(1) have wf: "wf_buffer (h_write_buf h)" by (simp add: wf_handler_def)
  obtain b t s r where wl: "write_loop (h_write_buf h) txs = (b, t, s, r)" by (metis prod_cases4)
  from write_loop_flushes[OF wf assms(2,3) wl] have r: "r = Write_done" .
  with write_loop_correct[OF wf wl] have b: "contents b = []" "contents (h_write_buf h) = s" "wf_buffer b"
    by simp_all
  with wl r assms(1) show ?thesis
    by (simp add: handleWrite_def rearm_def size_buffer_0 Let_def wf_handler_def)
qed

text \<open>
  \<open>handleWrite\<close> sends everything it holds, in order, and goes back to reading, if each
  \<open>write\<close> accepts at least one byte.
\<close>

theorem handle_write_flushes:
  assumes "wf_handler h" and "\<forall>x \<in> set txs. \<exists>n e. x = Tx (Suc n) e"
    and "length (contents (h_write_buf h)) \<le> length txs"
  shows "\<exists>h' txs'. handleWrite h txs = (h', txs', contents (h_write_buf h), Inr 0) \<and>
    contents (h_write_buf h') = [] \<and> h_armed h' = Some (EV_READ, 10)"
  using write_round[OF assms] by blast

theorem handle_write_flushes_witness:
  "\<exists>h' txs'. handleWrite sample_handler [Tx 1 EAGAIN, Tx 1 EINTR, Tx 9 EAGAIN] =
     (h', txs', [1, 2, 3], Inr 0) \<and>
    contents (h_write_buf h') = [] \<and> h_armed h' = Some (EV_READ, 10)"
  using handle_write_flushes[OF sample_handler_ok(1), of "[Tx 1 EAGAIN, Tx 1 EINTR, Tx 9 EAGAIN]"]
  by (simp add: sample_handler_ok(2))

text \<open>A connection that waits for data with nothing left to send.\<close>

definition idle :: "conn \<Rightarrow> bool" where
  "idle c \<longleftrightarrow> (\<exists>h t. c_handler c = Some h \<and> wf_handler h \<and> contents (h_write_buf h) = [] \<and> h_armed h = Some (EV_READ, t) \<and>
     c_sent c = c_received c)"

lemma idle_new: "idle new_conn"
  by (simp add: idle_def new_conn_def Handler_new_def wf_handler_def wf_new_buffer contents_new_buffer)

lemma echo_round:
  assumes "alloc_total A" and "idle c" and "xs \<noteq> []" and "length xs < 2 ^ 64"
    and "\<forall>x \<in> set txs. \<exists>n e. x = Tx (Suc n) e" and "length xs \<le> length txs"
  shows "\<exists>c'. conn_run A c [Readable [Rx_data xs], Writable txs] = Some c' \<and> idle c' \<and> c_received c' = c_received c @ xs"
proof -
  from assms(2) obtain h t where h: "c_handler c = Some h" "wf_handler h" "contents (h_write_buf h) = []"
    "h_armed h = Some (EV_READ, t)" "c_sent c = c_received c" by (auto simp: idle_def)
  let ?h = "h\<lparr>h_armed := None\<rparr>"
  have wf: "wf_handler ?h" "wf_buffer (h_read_buf h)" "contents (h_read_buf h) = []"
    using h(2) by (simp_all add: wf_disarm) (simp_all add: wf_handler_def)
  have "length (contents (h_write_buf ?h)) + rx_bytes [Rx_data xs] < 2 ^ 64" using h(3) assms(4) by simp
  from handleRead_correct[OF assms(1) wf(1) this] obtain h1 evs got r where
    hr: "handleRead A ?h [Rx_data xs] = Some (h1, evs, got, Inr r)"
    "r = 0 \<and> wf_handler h1 \<and> contents (h_write_buf h1) = contents (h_write_buf h) @ got \<and>
       h_armed h1 = Some (if contents (h_write_buf h1) \<noteq> [] then EV_WRITE else EV_READ, 10) \<or> r = -1" by auto
  have "length (contents (h_read_buf h)) + length xs < 2 ^ 64" using wf(3) assms(4) by simp
  from read_loop_all[OF assms(1) wf(2) assms(3) this] obtain b where
    "read_loop A (h_read_buf h) [Rx_data xs] = (b, [], xs, Read_break)" by blast
  with hr(1) have r: "got = xs" "r = 0"
    by (auto simp: handleRead_def Let_def split: option.splits prod.splits)
  with hr(2) h(3) assms(3) have h1: "wf_handler h1" "contents (h_write_buf h1) = xs" "h_armed h1 = Some (EV_WRITE, 10)"
    by simp_all
  let ?c1 = "\<lparr>c_handler = Some h1, c_received = c_received c @ xs, c_sent = c_sent c\<rparr>"
  have s1: "conn_step A c (Readable [Rx_data xs]) = Some ?c1"
    using h(1,4) hr(1) r by (simp add: call_back_def handler_event_cb_def)
  have "wf_handler (h1\<lparr>h_armed := None\<rparr>)" "length (contents (h_write_buf (h1\<lparr>h_armed := None\<rparr>))) \<le> length txs"
    using h1 assms(6) by (simp_all add: wf_disarm)
  from write_round[OF this(1) assms(5) this(2)] h1(2) obtain h2 t2 where
    hw: "handleWrite (h1\<lparr>h_armed := None\<rparr>) txs = (h2, t2, xs, Inr 0)" "wf_handler h2"
    "contents (h_write_buf h2) = []" "h_armed h2 = Some (EV_READ, 10)" by auto
  then have "conn_step A ?c1 (Writable txs) =
      Some \<lparr>c_handler = Some h2, c_received = c_received c @ xs, c_sent = c_sent c @ xs\<rparr>"
    using h1(3) by (simp add: call_back_def handler_event_cb_def)
  with s1 hw h(5) show ?thesis by (simp add: idle_def)
qed

lemma conn_run_append:
  "conn_run A c (xs @ ys) = (case conn_run A c xs of None \<Rightarrow> None | Some c' \<Rightarrow> conn_run A c' ys)"
  by (induction xs arbitrary: c) (auto split: option.split)

definition echo_io :: "u8 list \<times> tx list \<Rightarrow> io list" where
  "echo_io r = [Readable [Rx_data (fst r)], Writable (snd r)]"

definition flushing :: "u8 list \<times> tx list \<Rightarrow> bool" where
  "flushing r \<longleftrightarrow> fst r \<noteq> [] \<and> length (fst r) < 2 ^ 64 \<and> (\<forall>x \<in> set (snd r). \<exists>n e. x = Tx (Suc n) e) \<and>
     length (fst r) \<le> length (snd r)"

lemma echo_rounds:
  "\<lbrakk>alloc_total A; \<forall>r \<in> set rs. flushing r; idle c\<rbrakk> \<Longrightarrow>
   \<exists>c'. conn_run A c (concat (map echo_io rs)) = Some c' \<and> idle c' \<and> c_received c' = c_received c @ concat (map fst rs)"
proof (induction rs arbitrary: c)
  case (Cons r rs)
  obtain xs txs where r: "r = (xs, txs)" by fastforce
  with Cons.prems(2) have "xs \<noteq> []" "length xs < 2 ^ 64" "\<forall>x \<in> set txs. \<exists>n e. x = Tx (Suc n) e" "length xs \<le> length txs"
    by (simp_all add: flushing_def)
  from echo_round[OF Cons.prems(1,3) this] obtain c1 where
    c1: "conn_run A c (echo_io r) = Some c1" "idle c1" "c_received c1 = c_received c @ xs" by (auto simp: echo_io_def r)
  from Cons.IH[OF Cons.prems(1) _ c1(2)] Cons.prems(2) c1 show ?case by (auto simp: conn_run_append r)
qed simp

text \<open>
  C9. The echo is complete: whenever the kernel takes what is written, in however small pieces, a connection
  sends back everything it has received, round after round, and waits for more.
\<close>

theorem echo_complete:
  assumes "alloc_total A" and "\<forall>r \<in> set rs. flushing r"
  shows "\<exists>c h. conn_run A new_conn (concat (map echo_io rs)) = Some c \<and> c_received c = concat (map fst rs) \<and>
    c_sent c = concat (map fst rs) \<and> c_handler c = Some h \<and> (\<exists>t. h_armed h = Some (EV_READ, t))"
proof -
  have "c_received new_conn = []" by (simp add: new_conn_def)
  with echo_rounds[OF assms idle_new] show ?thesis by (fastforce simp: idle_def)
qed

theorem echo_complete_witness:
  "\<exists>c. conn_run zero_alloc new_conn (concat (map echo_io [([1, 2, 3], [Tx 1 EAGAIN, Tx 1 EAGAIN, Tx 5 EAGAIN]), ([4], [Tx 1 EAGAIN])])) =
    Some c \<and> c_sent c = [1, 2, 3, 4]"
  using echo_complete[OF alloc_total_zero, of "[([1, 2, 3], [Tx 1 EAGAIN, Tx 1 EAGAIN, Tx 5 EAGAIN]), ([4], [Tx 1 EAGAIN])]"]
  by (auto simp: flushing_def)

text \<open>
  C33. A write that the kernel does not take in full loses the connection's events: if the
  handler still has bytes to send after \<open>handleWrite\<close>, nothing is armed (the event that
  fired was not persistent and only the path with everything sent adds it again), and no
  later readiness of the socket or passage of time changes the connection.
\<close>

theorem partial_write_stalls:
  assumes "conn_inv c" and "c_handler c = Some h" and "h_armed h = Some (EV_WRITE, t)"
    and "conn_step A c (Writable txs) = Some c'" and "c_handler c' = Some h'"
    and "contents (h_write_buf h') \<noteq> []"
  shows "conn_run A c' ios = Some c' \<and> c_sent c' \<noteq> c_received c'"
proof -
  from writable_step[OF assms(1,2), of A "[]" txs] assms(2-6)
  have "h_armed h' = None" "conn_inv c'" by auto
  with unarmed_run[OF assms(5)] assms(5,6) show ?thesis by (simp add: conn_inv_def)
qed

theorem partial_write_stalls_witness:
  "\<exists>c'. conn_step zero_alloc \<lparr>c_handler = Some sample_handler, c_received = [1, 2, 3], c_sent = []\<rparr>
      (Writable [Tx 2 EAGAIN, Tx 0 EAGAIN]) = Some c' \<and> c_sent c' = [1, 2] \<and>
    conn_run zero_alloc c' [Writable [Tx 9 EAGAIN], Timeout] = Some c' \<and> c_sent c' \<noteq> c_received c'"
proof -
  let ?c = "\<lparr>c_handler = Some sample_handler, c_received = [1, 2, 3], c_sent = []\<rparr>"
  have inv: "conn_inv ?c" by (simp add: conn_inv_def sample_handler_ok)
  let ?s = "conn_step zero_alloc ?c (Writable [Tx 2 EAGAIN, Tx 0 EAGAIN])"
  have "case ?s of None \<Rightarrow> False | Some c \<Rightarrow> (case c_handler c of None \<Rightarrow> False
    | Some h \<Rightarrow> c_sent c = [1, 2] \<and> contents (h_write_buf h) \<noteq> [])"
    by code_simp
  then obtain c h where c: "?s = Some c" "c_handler c = Some h" "c_sent c = [1, 2]"
    "contents (h_write_buf h) \<noteq> []" by (auto split: option.splits)
  have "h_armed sample_handler = Some (EV_WRITE, 10)" by (simp add: sample_handler_def)
  from partial_write_stalls[OF inv _ this c(1,2,4), of "[Writable [Tx 9 EAGAIN], Timeout]"] c
  show ?thesis by auto
qed

end
