(* ===== verification/ThreadPool.thy ===== *)
theory ThreadPool
  imports Prelude
begin

text \<open>
  \<open>tl::ThreadPool\<close> (thread\_pool.h, thread\_pool.cc): worker threads that take tasks from
  one FIFO queue per priority. The functions are the critical sections of the code, each
  executed under \<open>tasks_mutex_\<close>; the step relation interleaves them with everything the
  code does outside the lock: running a task, the notifications that follow the unlock,
  and spurious wakeups of the condition variable. \<open>tp_posted\<close>, \<open>tp_taken\<close> and \<open>tp_done\<close>
  are history variables that no step reads.
\<close>

section \<open>State and critical sections\<close>

text \<open>
  Where a worker's \<open>loop()\<close> is: about to enter the critical section (at the start, after
  a task, or woken from the wait), in \<open>condition_.wait\<close>, running a task, or returned.
\<close>

datatype 't worker = At_lock | Blocked | Running 't | Exited

record 't pool =
  tp_tasks :: "'t list list"
  tp_stop :: bool
  tp_threads :: "'t worker list"
  tp_notify_one :: nat
  tp_notify_all :: bool
  tp_posted :: "(nat \<times> 't) list"
  tp_taken :: "(nat \<times> 't) list"
  tp_done :: "'t list"

definition ThreadPool_new :: "nat \<Rightarrow> int \<Rightarrow> fault + 't pool" where
  "ThreadPool_new num_threads priority_count =
     (if \<not> priority_count > 0 then Inl Abort
      else Inr \<lparr>tp_tasks = replicate (nat priority_count) [], tp_stop = False,
             tp_threads = replicate num_threads At_lock, tp_notify_one = 0,
             tp_notify_all = False, tp_posted = [], tp_taken = [], tp_done = []\<rparr>)"

text \<open>\<open>postPriority\<close> up to the unlock; the \<open>notify_one\<close> it still owes is counted.\<close>

definition postPriority :: "int \<Rightarrow> 't \<Rightarrow> 't pool \<Rightarrow> fault + 't pool" where
  "postPriority priority task p =
     (if \<not> priority < int (length (tp_tasks p)) then Inl Abort
      else if \<not> priority \<ge> 0 then Inl Abort
      else (let k = nat priority in
        Inr (p\<lparr>tp_tasks := (tp_tasks p)[k := tp_tasks p ! k @ [task]],
               tp_notify_one := Suc (tp_notify_one p),
               tp_posted := tp_posted p @ [(k, task)]\<rparr>)))"

definition post :: "'t \<Rightarrow> 't pool \<Rightarrow> fault + 't pool" where
  "post task p = postPriority 0 task p"

fun allempty :: "'t list list \<Rightarrow> bool" where
  "allempty [] = True"
| "allempty (tp # tps) = (if tp \<noteq> [] then False else allempty tps)"

text \<open>The loop over \<open>tasks_\<close> that takes the first task of the first queue with one.\<close>

fun take_first :: "'t list list \<Rightarrow> ((nat \<times> 't) \<times> 't list list) option" where
  "take_first [] = None"
| "take_first ([] # qs) =
     (case take_first qs of None \<Rightarrow> None | Some ((k, t), qs') \<Rightarrow> Some ((Suc k, t), [] # qs'))"
| "take_first ((t # ts) # qs) = Some ((0, t), ts # qs)"

text \<open>
  The critical section of \<open>loop\<close> of thread \<open>i\<close>: the predicate of the wait is evaluated;
  false, the thread blocks. Otherwise it returns on \<open>stop_\<close> with no task left, or takes a
  task.
\<close>

definition loop_section :: "nat \<Rightarrow> 't pool \<Rightarrow> 't pool" where
  "loop_section i p =
     (if \<not> (tp_stop p \<or> \<not> allempty (tp_tasks p))
      then p\<lparr>tp_threads := (tp_threads p)[i := Blocked]\<rparr>
      else if tp_stop p \<and> allempty (tp_tasks p)
      then p\<lparr>tp_threads := (tp_threads p)[i := Exited]\<rparr>
      else (case take_first (tp_tasks p) of
              None \<Rightarrow> p
            | Some ((k, t), qs) \<Rightarrow>
                p\<lparr>tp_tasks := qs, tp_threads := (tp_threads p)[i := Running t],
                  tp_taken := tp_taken p @ [(k, t)]\<rparr>))"

definition run_task :: "nat \<Rightarrow> 't \<Rightarrow> 't pool \<Rightarrow> 't pool" where
  "run_task i t p = p\<lparr>tp_threads := (tp_threads p)[i := At_lock], tp_done := tp_done p @ [t]\<rparr>"

text \<open>The destructor up to the unlock, and \<open>notify_all\<close>, which wakes every waiter.\<close>

definition set_stop :: "'t pool \<Rightarrow> 't pool" where
  "set_stop p = p\<lparr>tp_stop := True, tp_notify_all := True\<rparr>"

fun wake :: "'t worker \<Rightarrow> 't worker" where
  "wake Blocked = At_lock"
| "wake w = w"

definition notify_all :: "'t pool \<Rightarrow> 't pool" where
  "notify_all p = p\<lparr>tp_threads := map wake (tp_threads p), tp_notify_all := False\<rparr>"

definition get_stop :: "'t pool \<Rightarrow> bool" where
  "get_stop p = tp_stop p"

section \<open>Steps\<close>

text \<open>What the pool does by itself: its workers and the notifications under way.\<close>

inductive internal_step :: "'t pool \<Rightarrow> 't pool \<Rightarrow> bool" where
  enter: "\<lbrakk>i < length (tp_threads p); tp_threads p ! i = At_lock\<rbrakk> \<Longrightarrow>
     internal_step p (loop_section i p)"
| run: "\<lbrakk>i < length (tp_threads p); tp_threads p ! i = Running t\<rbrakk> \<Longrightarrow>
     internal_step p (run_task i t p)"
| notify_one: "\<lbrakk>i < length (tp_threads p); tp_threads p ! i = Blocked; tp_notify_one p = Suc n\<rbrakk> \<Longrightarrow>
     internal_step p (p\<lparr>tp_threads := (tp_threads p)[i := At_lock], tp_notify_one := n\<rparr>)"
| notify_none: "\<lbrakk>Blocked \<notin> set (tp_threads p); tp_notify_one p = Suc n\<rbrakk> \<Longrightarrow>
     internal_step p (p\<lparr>tp_notify_one := n\<rparr>)"
| notify_all: "tp_notify_all p \<Longrightarrow> internal_step p (notify_all p)"

text \<open>All steps: also clients posting, the destructor and spurious wakeups.\<close>

inductive pool_step :: "'t pool \<Rightarrow> 't pool \<Rightarrow> bool" where
  internal: "internal_step p p' \<Longrightarrow> pool_step p p'"
| client: "postPriority k t p = Inr p' \<Longrightarrow> pool_step p p'"
| destroy: "\<not> tp_stop p \<Longrightarrow> pool_step p (set_stop p)"
| spurious: "\<lbrakk>i < length (tp_threads p); tp_threads p ! i = Blocked\<rbrakk> \<Longrightarrow>
     pool_step p (p\<lparr>tp_threads := (tp_threads p)[i := At_lock]\<rparr>)"

inductive_cases internal_stepE: "internal_step p p'"
inductive_cases pool_stepE: "pool_step p p'"

definition reachable :: "'t pool \<Rightarrow> bool" where
  "reachable p \<longleftrightarrow> (\<exists>n k p0. ThreadPool_new n k = Inr p0 \<and> pool_step\<^sup>*\<^sup>* p0 p)"

section \<open>Invariant\<close>

definition awake :: "'t worker \<Rightarrow> nat" where
  "awake w = (case w of At_lock \<Rightarrow> 1 | _ \<Rightarrow> 0)"

definition held :: "'t worker \<Rightarrow> 't multiset" where
  "held w = (case w of Running t \<Rightarrow> {#t#} | _ \<Rightarrow> {#})"

abbreviation queued :: "'t pool \<Rightarrow> nat" where
  "queued p \<equiv> sum_list (map length (tp_tasks p))"

definition at_level :: "nat \<Rightarrow> (nat \<times> 't) list \<Rightarrow> 't list" where
  "at_level k xs = map snd (filter (\<lambda>x. fst x = k) xs)"

definition pool_inv :: "'t pool \<Rightarrow> bool" where
  "pool_inv p \<longleftrightarrow>
     (\<forall>k < length (tp_tasks p). at_level k (tp_posted p) = at_level k (tp_taken p) @ tp_tasks p ! k) \<and>
     (\<forall>x \<in> set (tp_posted p). fst x < length (tp_tasks p)) \<and>
     (\<forall>x \<in> set (tp_taken p). fst x < length (tp_tasks p)) \<and>
     mset (map snd (tp_taken p)) = mset (tp_done p) + sum_list (map held (tp_threads p)) \<and>
     (Blocked \<in> set (tp_threads p) \<longrightarrow>
        queued p \<le> tp_notify_one p + sum_list (map awake (tp_threads p))) \<and>
     (tp_stop p \<and> Blocked \<in> set (tp_threads p) \<longrightarrow> tp_notify_all p) \<and>
     (Exited \<in> set (tp_threads p) \<longrightarrow> tp_stop p)"

lemma awake_simps [simp]:
  "awake At_lock = 1" "awake (Running t) = 0" "awake Blocked = 0" "awake Exited = 0"
  by (simp_all add: awake_def)

lemma held_simps [simp]:
  "held At_lock = {#}" "held (Running t) = {#t#}" "held Blocked = {#}" "held Exited = {#}"
  by (simp_all add: held_def)

lemma at_level_simps [simp]:
  "at_level k [] = []"
  "at_level k (xs @ ys) = at_level k xs @ at_level k ys"
  "at_level k [(j, t)] = (if j = k then [t] else [])"
  by (simp_all add: at_level_def)

lemma allempty_iff: "allempty qs \<longleftrightarrow> sum_list (map length qs) = 0"
  by (induction qs) auto

text \<open>What \<open>take_first\<close> takes: the oldest task of the first queue that has one.\<close>

lemma take_first_Some:
  "take_first qs = Some ((k, t), qs') \<Longrightarrow>
   k < length qs \<and> qs ! k = t # qs' ! k \<and> qs' = qs[k := qs' ! k] \<and> (\<forall>j < k. qs ! j = []) \<and>
   sum_list (map length qs) = Suc (sum_list (map length qs'))"
  by (induction qs arbitrary: k qs' rule: take_first.induct)
     (fastforce simp: nth_Cons split: option.splits prod.splits nat.splits)+

lemma take_first_None: "take_first qs = None \<longleftrightarrow> allempty qs"
  by (induction qs rule: take_first.induct) (auto split: option.splits)

lemma queued_append:
  "k < length qs \<Longrightarrow> sum_list (map length (qs[k := qs ! k @ [t]])) = Suc (sum_list (map length qs))"
  using sum_list_map_update[of k qs length "qs ! k @ [t]"] by simp

section \<open>Every step keeps the invariant\<close>

lemma pool_invD:
  assumes "pool_inv p"
  shows "\<And>k. k < length (tp_tasks p) \<Longrightarrow>
      at_level k (tp_posted p) = at_level k (tp_taken p) @ tp_tasks p ! k"
    "\<And>x. x \<in> set (tp_posted p) \<Longrightarrow> fst x < length (tp_tasks p)"
    "\<And>x. x \<in> set (tp_taken p) \<Longrightarrow> fst x < length (tp_tasks p)"
    "mset (map snd (tp_taken p)) = mset (tp_done p) + sum_list (map held (tp_threads p))"
    "Blocked \<in> set (tp_threads p) \<Longrightarrow>
       queued p \<le> tp_notify_one p + sum_list (map awake (tp_threads p))"
    "tp_stop p \<Longrightarrow> Blocked \<in> set (tp_threads p) \<Longrightarrow> tp_notify_all p"
    "Exited \<in> set (tp_threads p) \<Longrightarrow> tp_stop p"
  using assms by (auto simp: pool_inv_def)

lemma set_update_other: "y \<in> set (xs[i := x]) \<Longrightarrow> y \<noteq> x \<Longrightarrow> y \<in> set xs"
  using set_update_subset_insert by fastforce

lemma inv_new: "ThreadPool_new n k = Inr p \<Longrightarrow> pool_inv p"
  using sum_list_replicate_0[of n, where 'b = "'a multiset"]
  by (auto simp: ThreadPool_new_def pool_inv_def split: if_splits)

lemma postPriority_Inr:
  assumes "postPriority k t p = Inr p'"
  shows "nat k < length (tp_tasks p)"
    "p' = p\<lparr>tp_tasks := (tp_tasks p)[nat k := tp_tasks p ! nat k @ [t]],
             tp_notify_one := Suc (tp_notify_one p), tp_posted := tp_posted p @ [(nat k, t)]\<rparr>"
  using assms by (auto simp: postPriority_def Let_def split: if_splits)

lemma inv_post:
  assumes "pool_inv p" and "postPriority k t p = Inr p'"
  shows "pool_inv p'"
proof -
  note D = pool_invD[OF assms(1)] and P = postPriority_Inr[OF assms(2)]
  have "at_level j (tp_posted p @ [(nat k, t)]) =
      at_level j (tp_taken p) @ (tp_tasks p)[nat k := tp_tasks p ! nat k @ [t]] ! j"
    if "j < length (tp_tasks p)" for j
    using D(1)[OF that] that by (simp add: nth_list_update)
  then show ?thesis using D P(1)
    by (auto simp: pool_inv_def P(2) queued_append simp del: at_level_simps)
qed

lemma inv_wake_one:
  assumes "pool_inv p" and i: "i < length (tp_threads p)" "tp_threads p ! i = Blocked"
    and n: "tp_notify_one p \<le> Suc n"
  shows "pool_inv (p\<lparr>tp_threads := (tp_threads p)[i := At_lock], tp_notify_one := n\<rparr>)"
proof -
  note D = pool_invD[OF assms(1)]
  have "Blocked \<in> set (tp_threads p)" using i by (metis nth_mem)
  with D show ?thesis
    using sum_list_map_update[OF i(1), of held At_lock] sum_list_map_update[OF i(1), of awake At_lock] i n
    by (auto simp: pool_inv_def dest!: set_update_other)
qed

lemma inv_run_task:
  assumes "pool_inv p" and i: "i < length (tp_threads p)" "tp_threads p ! i = Running t"
  shows "pool_inv (run_task i t p)"
proof -
  note D = pool_invD[OF assms(1)]
  have "sum_list (map held (tp_threads p)) =
      sum_list (map held ((tp_threads p)[i := At_lock])) + {#t#}"
    using sum_list_map_update[OF i(1), of held At_lock] i by simp
  moreover have "sum_list (map awake ((tp_threads p)[i := At_lock])) = Suc (sum_list (map awake (tp_threads p)))"
    using sum_list_map_update[OF i(1), of awake At_lock] i by simp
  ultimately show ?thesis using D
    by (auto simp: pool_inv_def run_task_def dest!: set_update_other)
qed

lemma map_wake:
  "map held (map wake ws) = map held ws"
  "Blocked \<notin> set (map wake ws)"
  "Exited \<in> set (map wake ws) \<longleftrightarrow> Exited \<in> set ws"
proof (induction ws)
  case (Cons w ws)
  { case 1 show ?case using Cons by (cases w) simp_all next
    case 2 show ?case using Cons by (cases w) simp_all next
    case 3 show ?case using Cons by (cases w) simp_all }
qed simp_all

lemma inv_notify_all: "pool_inv p \<Longrightarrow> pool_inv (notify_all p)"
  by (simp add: pool_inv_def notify_all_def map_wake del: map_map list.map_comp set_map list.set_map)

lemma inv_take:
  assumes "pool_inv p" and i: "i < length (tp_threads p)" "tp_threads p ! i = At_lock"
    and tk: "take_first (tp_tasks p) = Some ((k, t), qs)"
  shows "pool_inv (p\<lparr>tp_tasks := qs, tp_threads := (tp_threads p)[i := Running t],
                  tp_taken := tp_taken p @ [(k, t)]\<rparr>)"
proof -
  note D = pool_invD[OF assms(1)]
  from take_first_Some[OF tk] have k: "k < length (tp_tasks p)" "tp_tasks p ! k = t # qs ! k"
    "length qs = length (tp_tasks p)" "\<And>j. j \<noteq> k \<Longrightarrow> qs ! j = tp_tasks p ! j"
    "queued p = Suc (sum_list (map length qs))"
    by (metis length_list_update nth_list_update_neq)+
  have h: "sum_list (map held ((tp_threads p)[i := Running t])) =
      sum_list (map held (tp_threads p)) + {#t#}"
    using sum_list_map_update[OF i(1), of held "Running t"] i by simp
  have a: "sum_list (map awake (tp_threads p)) = Suc (sum_list (map awake ((tp_threads p)[i := Running t])))"
    using sum_list_map_update[OF i(1), of awake "Running t"] i by simp
  have l: "at_level j (tp_posted p) = at_level j (tp_taken p @ [(k, t)]) @ qs ! j"
    if "j < length qs" for j
    using D(1)[of j] that k by (cases "j = k") auto
  show ?thesis using D k h a l
    by (auto simp: pool_inv_def dest!: set_update_other)
qed

lemma inv_section:
  assumes "pool_inv p" and i: "i < length (tp_threads p)" "tp_threads p ! i = At_lock"
  shows "pool_inv (loop_section i p)"
proof -
  note D = pool_invD[OF assms(1)]
  have h: "sum_list (map held ((tp_threads p)[i := w])) = sum_list (map held (tp_threads p))"
    if "held w = {#}" for w
    using sum_list_map_update[OF i(1), of held w] i that by simp
  consider "\<not> tp_stop p" "allempty (tp_tasks p)" | "tp_stop p" "allempty (tp_tasks p)"
    | k t qs where "take_first (tp_tasks p) = Some ((k, t), qs)" "\<not> allempty (tp_tasks p)"
    using take_first_None[of "tp_tasks p"] by (cases "take_first (tp_tasks p)") auto
  then show ?thesis
  proof cases
    case 1
    then have "queued p = 0" by (simp only: allempty_iff)
    then have "queued p \<le> x" for x by (metis le0)
    with 1 D show ?thesis by (auto simp: loop_section_def pool_inv_def h dest!: set_update_other)
  next
    case 2
    then have "queued p = 0" by (simp only: allempty_iff)
    then have "queued p \<le> x" for x by (metis le0)
    with 2 D show ?thesis by (auto simp: loop_section_def pool_inv_def h dest!: set_update_other)
  next
    case 3
    with inv_take[OF assms 3(1)] show ?thesis by (simp add: loop_section_def)
  qed
qed

lemma inv_internal: "internal_step p p' \<Longrightarrow> pool_inv p \<Longrightarrow> pool_inv p'"
proof (induction rule: internal_step.induct)
  case (notify_one i p n)
  then show ?case by (intro inv_wake_one) simp_all
next
  case (notify_none p n)
  then show ?case using pool_invD[OF notify_none.prems] by (auto simp: pool_inv_def)
qed (auto intro: inv_section inv_run_task inv_notify_all)

lemma inv_set_stop: "pool_inv p \<Longrightarrow> pool_inv (set_stop p)"
  by (simp add: set_stop_def pool_inv_def)

lemma inv_pool_step: "pool_inv p \<Longrightarrow> pool_step p p' \<Longrightarrow> pool_inv p'"
proof (erule pool_stepE)
  fix i assume "pool_inv p" and p': "p' = p\<lparr>tp_threads := (tp_threads p)[i := At_lock]\<rparr>"
    and i: "i < length (tp_threads p)" "tp_threads p ! i = Blocked"
  then have "pool_inv (p\<lparr>tp_threads := (tp_threads p)[i := At_lock], tp_notify_one := tp_notify_one p\<rparr>)"
    by (intro inv_wake_one) simp_all
  then show ?thesis by (simp add: p')
qed (auto intro: inv_internal inv_post inv_set_stop)

interpretation pool: step_invariant pool_step pool_inv
  by unfold_locales (rule inv_pool_step)

lemma reachable_inv: "reachable p \<Longrightarrow> pool_inv p"
  by (auto simp: reachable_def intro: pool.inv_run inv_new)

section \<open>Shutting down\<close>

text \<open>
  After the destructor has set \<open>stop_\<close>, and as long as nobody posts, the remaining work is
  a measure that every step of the pool decreases.
\<close>

definition weight :: "'t worker \<Rightarrow> nat" where
  "weight w = (case w of At_lock \<Rightarrow> 1 | Running _ \<Rightarrow> 2 | Blocked \<Rightarrow> 2 | Exited \<Rightarrow> 0)"

lemma weight_simps [simp]:
  "weight At_lock = 1" "weight (Running t) = 2" "weight Blocked = 2" "weight Exited = 0"
  by (simp_all add: weight_def)

definition remaining :: "'t pool \<Rightarrow> nat" where
  "remaining p = 2 * queued p + sum_list (map weight (tp_threads p)) + tp_notify_one p +
     (if tp_notify_all p then 1 else 0)"

text \<open>While the destructor runs, a worker that has returned left no task behind.\<close>

definition stopping :: "'t pool \<Rightarrow> bool" where
  "stopping p \<longleftrightarrow> pool_inv p \<and> tp_stop p \<and>
     (Exited \<in> set (tp_threads p) \<longrightarrow> allempty (tp_tasks p))"

lemma section_stopping:
  assumes "stopping p" and i: "i < length (tp_threads p)" "tp_threads p ! i = At_lock"
  shows "stopping (loop_section i p) \<and> remaining (loop_section i p) < remaining p"
proof -
  from assms(1) have inv: "pool_inv p" and stop: "tp_stop p" by (simp_all add: stopping_def)
  have w: "sum_list (map weight ((tp_threads p)[i := w])) + 1 = sum_list (map weight (tp_threads p)) + weight w" for w
    using sum_list_map_update[OF i(1), of weight w] i by simp
  note inv' = inv_section[OF inv i]
  show ?thesis
  proof (cases "allempty (tp_tasks p)")
    case True
    with stop inv' show ?thesis using w[of Exited]
      by (simp add: loop_section_def stopping_def remaining_def)
  next
    case False
    then obtain k t qs where tk: "take_first (tp_tasks p) = Some ((k, t), qs)"
      using take_first_None[of "tp_tasks p"] by (cases "take_first (tp_tasks p)") auto
    from False assms(1) have "Exited \<notin> set (tp_threads p)" by (simp add: stopping_def)
    then have "Exited \<notin> set ((tp_threads p)[i := Running t])" by (auto dest!: set_update_other)
    with inv' stop tk False take_first_Some[OF tk] show ?thesis using w[of "Running t"]
      by (simp add: loop_section_def stopping_def remaining_def)
  qed
qed

lemma weight_wake_le: "sum_list (map weight (map wake ws)) \<le> sum_list (map weight ws)"
proof (induction ws)
  case (Cons w ws)
  then show ?case by (cases w) simp_all
qed simp

lemma internal_stopping:
  "internal_step p p' \<Longrightarrow> stopping p \<Longrightarrow> stopping p' \<and> remaining p' < remaining p"
proof (induction rule: internal_step.induct)
  case (enter i p)
  then show ?case using section_stopping by blast
next
  case (run i p t)
  have inv: "pool_inv (run_task i t p)"
    by (rule inv_run_task) (use run in \<open>simp_all add: stopping_def\<close>)
  have "sum_list (map weight ((tp_threads p)[i := At_lock])) + 2 = sum_list (map weight (tp_threads p)) + 1"
    using sum_list_map_update[OF run(1), of weight At_lock] run(2) by simp
  with run(3) inv show ?case
    by (auto simp: stopping_def remaining_def run_task_def dest!: set_update_other)
next
  case (notify_one i p n)
  have inv: "pool_inv (p\<lparr>tp_threads := (tp_threads p)[i := At_lock], tp_notify_one := n\<rparr>)"
    using notify_one by (intro inv_wake_one) (simp_all add: stopping_def)
  have "sum_list (map weight ((tp_threads p)[i := At_lock])) + 2 = sum_list (map weight (tp_threads p)) + 1"
    using sum_list_map_update[OF notify_one(1), of weight At_lock] notify_one(2) by simp
  with notify_one(3,4) inv show ?case
    by (auto simp: stopping_def remaining_def dest!: set_update_other)
next
  case (notify_none p n)
  have "pool_inv (p\<lparr>tp_notify_one := n\<rparr>)"
    using inv_internal[OF internal_step.notify_none[OF notify_none(1,2)]] notify_none(3)
    by (simp add: stopping_def)
  with notify_none show ?case by (simp add: stopping_def remaining_def)
next
  case (notify_all p)
  then have "pool_inv (notify_all p)" by (intro inv_notify_all) (simp add: stopping_def)
  with notify_all show ?case
    using weight_wake_le[of "tp_threads p"] map_wake(3)[of "tp_threads p"]
    by (simp add: stopping_def remaining_def ThreadPool.notify_all_def del: map_map list.map_comp set_map list.set_map)
qed

interpretation shutdown: measured_step internal_step stopping remaining
  by unfold_locales (use internal_stopping in blast)+

text \<open>The pool only comes to rest when every worker has returned.\<close>

lemma rest_all_exited:
  assumes "stopping p" and "\<And>p'. \<not> internal_step p p'"
  shows "\<forall>w \<in> set (tp_threads p). w = Exited"
proof (rule ccontr)
  assume "\<not> ?thesis"
  then obtain i where i: "i < length (tp_threads p)" "tp_threads p ! i \<noteq> Exited"
    by (auto simp: in_set_conv_nth)
  show False
  proof (cases "tp_threads p ! i")
    case At_lock
    with i(1) assms(2) show ?thesis by (metis internal_step.enter)
  next
    case Blocked
    then have "Blocked \<in> set (tp_threads p)" using i by (metis nth_mem)
    with assms(1) have "tp_notify_all p" by (simp add: stopping_def pool_inv_def)
    then show ?thesis using assms(2) by (metis internal_step.notify_all)
  next
    case (Running t)
    with i(1) assms(2) show ?thesis by (metis internal_step.run)
  next
    case Exited
    with i(2) show ?thesis by simp
  qed
qed

text \<open>Every posted task is queued, being run, or done.\<close>

lemma mset_levels:
  "(\<And>x. x \<in> set xs \<Longrightarrow> fst x < n) \<Longrightarrow> mset (map snd xs) = (\<Sum>k<n. mset (at_level k xs))"
proof (induction xs)
  case (Cons x xs)
  have "mset (at_level k (x # xs)) = (if k = fst x then {#snd x#} else {#}) + mset (at_level k xs)" for k
    by (auto simp: at_level_def)
  with Cons show ?case by (simp add: sum.distrib sum.delta)
qed (simp add: at_level_def)

lemma posted_accounted:
  assumes "pool_inv p"
  shows "mset (map snd (tp_posted p)) =
     mset (tp_done p) + sum_list (map held (tp_threads p)) + sum_list (map mset (tp_tasks p))"
proof -
  note D = pool_invD[OF assms]
  let ?n = "length (tp_tasks p)"
  have "mset (map snd (tp_posted p)) = (\<Sum>k<?n. mset (at_level k (tp_posted p)))"
    by (rule mset_levels) (rule D(2))
  also have "\<dots> = (\<Sum>k<?n. mset (at_level k (tp_taken p)) + mset (tp_tasks p ! k))"
    by (rule sum.cong) (simp_all add: D(1))
  also have "\<dots> = mset (map snd (tp_taken p)) + (\<Sum>k<?n. mset (tp_tasks p ! k))"
    unfolding sum.distrib by (subst mset_levels[of "tp_taken p" ?n]) (use D(3) in auto)
  also have "(\<Sum>k<?n. mset (tp_tasks p ! k)) = sum_list (map mset (tp_tasks p))"
    by (simp add: sum_list_sum_nth lessThan_atLeast0)
  finally show ?thesis using D(4) by simp
qed

lemma allempty_mset: "allempty qs \<Longrightarrow> sum_list (map mset qs) = {#}"
  by (induction qs) (auto split: if_splits)

lemma stopping_exited_done:
  assumes "stopping p" and "\<forall>w \<in> set (tp_threads p). w = Exited" and "tp_threads p \<noteq> []"
  shows "allempty (tp_tasks p) \<and> mset (tp_done p) = mset (map snd (tp_posted p))"
proof
  from assms have "Exited \<in> set (tp_threads p)" by (metis last_in_set)
  with assms(1) show e: "allempty (tp_tasks p)" by (simp add: stopping_def)
  have "map held (tp_threads p) = map (\<lambda>_. {#}) (tp_threads p)"
    using assms(2) by (metis held_simps(4) list.map_cong0)
  then have "sum_list (map held (tp_threads p)) = {#}" by (simp add: map_replicate_const)
  then show "mset (tp_done p) = mset (map snd (tp_posted p))"
    using posted_accounted[of p] assms(1) allempty_mset[OF e] by (simp add: stopping_def)
qed

section \<open>Properties of the thread pool\<close>

text \<open>
  A pool of two workers and two priorities with task 7 posted at priority 1 and then
  task 5 at priority 0, and one worker gone to sleep before that.
\<close>

definition sample_pool :: "nat pool" where
  "sample_pool = \<lparr>tp_tasks = [[5], [7]], tp_stop = False, tp_threads = [Blocked, At_lock],
     tp_notify_one = 2, tp_notify_all = False, tp_posted = [(1, 7), (0, 5)], tp_taken = [],
     tp_done = []\<rparr>"

lemma reachable_sample_pool: "reachable sample_pool"
proof -
  obtain p0 :: "nat pool" where p0: "ThreadPool_new 2 2 = Inr p0" by (auto simp: ThreadPool_new_def)
  let ?p1 = "loop_section 0 p0"
  have f: "p0 = \<lparr>tp_tasks = [[], []], tp_stop = False, tp_threads = [At_lock, At_lock],
      tp_notify_one = 0, tp_notify_all = False, tp_posted = [], tp_taken = [], tp_done = []\<rparr>"
    using p0 by (simp add: ThreadPool_new_def numeral_2_eq_2)
  have "pool_step p0 ?p1"
    by (rule pool_step.internal, rule internal_step.enter) (simp_all add: f)
  moreover obtain p2 where p2: "postPriority 1 7 ?p1 = Inr p2" "postPriority 0 5 p2 = Inr sample_pool"
    by (simp add: postPriority_def f loop_section_def sample_pool_def Let_def)
  ultimately have "pool_step\<^sup>*\<^sup>* p0 sample_pool"
    by (meson pool_step.client converse_rtranclp_into_rtranclp r_into_rtranclp)
  with p0 show ?thesis unfolding reachable_def by blast
qed

text \<open>
  C6. Nothing is lost, duplicated or reordered: in every reachable state, at each priority
  the tasks taken by the workers so far followed by those still queued are the tasks
  posted, in the order in which they were posted; and every posted task is either done,
  held by exactly one running worker, or queued.
\<close>

theorem pool_fifo_exactly_once:
  assumes "reachable p"
  shows "(\<forall>k < length (tp_tasks p). at_level k (tp_posted p) = at_level k (tp_taken p) @ tp_tasks p ! k) \<and>
    mset (map snd (tp_posted p)) =
      mset (tp_done p) + sum_list (map held (tp_threads p)) + sum_list (map mset (tp_tasks p))"
  using pool_invD(1)[OF reachable_inv[OF assms]] posted_accounted[OF reachable_inv[OF assms]] by blast

theorem pool_fifo_exactly_once_witness:
  "mset (map snd (tp_posted sample_pool)) =
     mset (tp_done sample_pool) + sum_list (map held (tp_threads sample_pool)) +
     sum_list (map mset (tp_tasks sample_pool)) \<and> tp_posted sample_pool = [(1, 7), (0, 5)]"
  using pool_fifo_exactly_once[OF reachable_sample_pool] by (simp add: sample_pool_def)

text \<open>
  Priorities are respected: a worker that enters its critical section while some task
  is queued takes the oldest task of the lowest-numbered non-empty queue, and no other
  queue changes.
\<close>

theorem pool_takes_highest_priority:
  assumes "\<not> allempty (tp_tasks p)" and "i < length (tp_threads p)"
  shows "\<exists>k t ts. k < length (tp_tasks p) \<and> tp_tasks p ! k = t # ts \<and> (\<forall>j < k. tp_tasks p ! j = []) \<and>
    tp_threads (loop_section i p) ! i = Running t \<and> tp_tasks (loop_section i p) = (tp_tasks p)[k := ts]"
proof -
  from assms(1) obtain k t qs where tk: "take_first (tp_tasks p) = Some ((k, t), qs)"
    using take_first_None[of "tp_tasks p"] by (cases "take_first (tp_tasks p)") auto
  from take_first_Some[OF tk] assms tk show ?thesis
    by (intro exI[of _ k] exI[of _ t] exI[of _ "qs ! k"]) (auto simp: loop_section_def)
qed

theorem pool_takes_highest_priority_witness:
  "\<exists>k t ts. k < length (tp_tasks sample_pool) \<and> tp_tasks sample_pool ! k = t # ts \<and>
    (\<forall>j < k. tp_tasks sample_pool ! j = []) \<and>
    tp_threads (loop_section 1 sample_pool) ! 1 = Running t \<and>
    tp_tasks (loop_section 1 sample_pool) = (tp_tasks sample_pool)[k := ts]"
  by (rule pool_takes_highest_priority) (simp_all add: sample_pool_def)

text \<open>
  C7. No wakeup is lost: while a worker sleeps and a task is queued, some worker is on its way to the lock (it
  will look at the queues before it sleeps) or a notification is still to come. A worker that runs a
  task does not count, so that this holds although tasks may never end.
\<close>

theorem pool_no_lost_wakeup:
  assumes "reachable p" and "\<not> allempty (tp_tasks p)" and "Blocked \<in> set (tp_threads p)"
  shows "0 < tp_notify_one p \<or> At_lock \<in> set (tp_threads p)"
proof -
  have "0 < queued p" using assms(2) by (simp only: allempty_iff neq0_conv)
  with pool_invD(5)[OF reachable_inv[OF assms(1)] assms(3)]
  have "0 < tp_notify_one p \<or> 0 < sum_list (map awake (tp_threads p))" by linarith
  then show ?thesis
  proof
    assume "0 < sum_list (map awake (tp_threads p))"
    then obtain w where "w \<in> set (tp_threads p)" "0 < awake w" by (metis sum_list_map_ex)
    then show ?thesis by - (cases w, auto)
  qed simp
qed

theorem pool_no_lost_wakeup_witness:
  "0 < tp_notify_one sample_pool \<or> At_lock \<in> set (tp_threads sample_pool)"
  by (rule pool_no_lost_wakeup[OF reachable_sample_pool]) (simp_all add: sample_pool_def)

text \<open>
  C4. The destructor drains a pool with at least one worker. Once \<open>stop_\<close> is set, and nobody posts any more, the
  pool makes at most \<open>remaining\<close> further steps (a task counts as one step, so this takes
  it that tasks return), it always gets to a state where it rests, and it rests only with
  every worker returned, no task queued, and every task ever posted executed once.
\<close>

theorem pool_shutdown_drains:
  assumes "reachable p" and "\<not> tp_stop p" and "tp_threads p \<noteq> []"
  shows "(\<forall>n q. (internal_step ^^ n) (set_stop p) q \<longrightarrow> n \<le> remaining (set_stop p)) \<and>
    (\<exists>q. internal_step\<^sup>*\<^sup>* (set_stop p) q \<and> (\<forall>r. \<not> internal_step q r)) \<and>
    (\<forall>q. internal_step\<^sup>*\<^sup>* (set_stop p) q \<and> (\<forall>r. \<not> internal_step q r) \<longrightarrow>
      (\<forall>w \<in> set (tp_threads q). w = Exited) \<and> allempty (tp_tasks q) \<and>
      mset (tp_done q) = mset (map snd (tp_posted q)))"
proof -
  note inv = reachable_inv[OF assms(1)]
  have st: "stopping (set_stop p)"
    using inv_set_stop[OF inv] pool_invD(7)[OF inv] assms(2) by (auto simp: stopping_def set_stop_def)
  have ne: "tp_threads q \<noteq> []" if "internal_step\<^sup>*\<^sup>* (set_stop p) q" for q
    using that
  proof (induction rule: rtranclp_induct)
    case base
    then show ?case using assms(3) by (simp add: set_stop_def)
  next
    case (step q r)
    from step(2,3) show ?case
      by (cases rule: internal_step.cases)
        (auto simp: loop_section_def run_task_def notify_all_def split: option.splits)
  qed
  show ?thesis
    using shutdown.run_bound[OF _ st] shutdown.reaches_end[OF st] shutdown.inv_run[OF _ st]
      rest_all_exited stopping_exited_done ne
    by (meson add_leD1)
qed

theorem pool_shutdown_drains_witness:
  "\<exists>q. internal_step\<^sup>*\<^sup>* (set_stop sample_pool) q \<and> (\<forall>r. \<not> internal_step q r) \<and>
    mset (tp_done q) = mset (map snd (tp_posted q))"
  using pool_shutdown_drains[OF reachable_sample_pool] by (auto simp: sample_pool_def)

end
