(* ===== verification/PoolStart.thy ===== *)
theory PoolStart
  imports ThreadPool
begin

text \<open>
  The constructor of \<open>tl::ThreadPool\<close> beside the workers that it has already started (thread\_pool.cc):
  \<open>tasks_\<close> is filled without the mutex while a worker goes over it. The accesses to the vector are steps of
  their own: \<open>reserve\<close> sets first the begin and then the end, \<open>push_back\<close> makes an element and
  advances the end, and a worker, under the mutex, reads the begin, then the end, and then each element.
  The mutex lets one worker at a time go over the vector.
\<close>

section \<open>State\<close>

datatype vec_ptr = Null | At nat

datatype ctor_pc = Ct_reserve | Ct_reserved | Ct_push nat | Ct_done

datatype reader_pc = Rd_free | Rd_begin vec_ptr | Rd_iter vec_ptr vec_ptr

record pool_start =
  ps_count :: nat
  ps_begin :: vec_ptr
  ps_end :: vec_ptr
  ps_filled :: nat
  ps_ctor :: ctor_pc
  ps_reader :: reader_pc

definition pool_start_new :: "nat \<Rightarrow> pool_start" where
  "pool_start_new n = \<lparr>ps_count = n, ps_begin = Null, ps_end = Null, ps_filled = 0, ps_ctor = Ct_reserve, ps_reader = Rd_free\<rparr>"

section \<open>Steps\<close>

definition ctor_next :: "pool_start \<Rightarrow> pool_start" where
  "ctor_next s = (case ps_ctor s of
     Ct_reserve \<Rightarrow> s\<lparr>ps_begin := At 0, ps_ctor := Ct_reserved\<rparr>
   | Ct_reserved \<Rightarrow> s\<lparr>ps_end := At 0, ps_ctor := Ct_push 0\<rparr>
   | Ct_push i \<Rightarrow>
       if i < ps_count s then s\<lparr>ps_end := At (Suc i), ps_filled := Suc i, ps_ctor := Ct_push (Suc i)\<rparr>
       else s\<lparr>ps_ctor := Ct_done\<rparr>
   | Ct_done \<Rightarrow> s)"

text \<open>The loop over \<open>tasks_\<close>; no task has been posted, so that no queue ends it early.\<close>

definition reader_next :: "pool_start \<Rightarrow> fault + pool_start" where
  "reader_next s = (case ps_reader s of
     Rd_free \<Rightarrow> Inr (s\<lparr>ps_reader := Rd_begin (ps_begin s)\<rparr>)
   | Rd_begin p \<Rightarrow> Inr (s\<lparr>ps_reader := Rd_iter p (ps_end s)\<rparr>)
   | Rd_iter p e \<Rightarrow>
       if p = e then Inr (s\<lparr>ps_reader := Rd_free\<rparr>)
       else (case p of
          Null \<Rightarrow> Inl Undef
        | At i \<Rightarrow> if i < ps_filled s then Inr (s\<lparr>ps_reader := Rd_iter (At (Suc i)) e\<rparr>) else Inl Undef))"

inductive pool_start_step :: "pool_start \<Rightarrow> fault + pool_start \<Rightarrow> bool" where
  ctor: "ps_ctor s \<noteq> Ct_done \<Longrightarrow> pool_start_step s (Inr (ctor_next s))"
| reader: "pool_start_step s (reader_next s)"

inductive_cases pool_start_stepE: "pool_start_step s r"

abbreviation pool_start_run :: "pool_start \<Rightarrow> pool_start \<Rightarrow> bool" where
  "pool_start_run \<equiv> (\<lambda>s t. pool_start_step s (Inr t))\<^sup>*\<^sup>*"

section \<open>What the constructor leaves\<close>

lemma ctor_pushes:
  assumes "ps_ctor s = Ct_push i" and "i \<le> ps_count s" and "ps_end s = At i" and "ps_filled s = i"
  shows "\<exists>k. (ctor_next ^^ k) s = s\<lparr>ps_end := At (ps_count s), ps_filled := ps_count s, ps_ctor := Ct_done\<rparr>"
  using assms
proof (induction "ps_count s - i" arbitrary: s i)
  case 0
  then show ?case by (intro exI[of _ 1]) (simp add: ctor_next_def)
next
  case (Suc d)
  let ?s = "ctor_next s"
  have s: "?s = s\<lparr>ps_end := At (Suc i), ps_filled := Suc i, ps_ctor := Ct_push (Suc i)\<rparr>"
    using Suc.hyps(2) Suc.prems by (simp add: ctor_next_def)
  have "d = ps_count ?s - Suc i" "Suc i \<le> ps_count ?s" using Suc.hyps(2) by (simp_all add: s)
  with Suc.hyps(1)[of ?s "Suc i"] obtain k where
    "(ctor_next ^^ k) ?s = ?s\<lparr>ps_end := At (ps_count ?s), ps_filled := ps_count ?s, ps_ctor := Ct_done\<rparr>"
    by (auto simp: s)
  then show ?case by (intro exI[of _ "Suc k"]) (simp add: s funpow_swap1)
qed

definition constructed :: "pool_start \<Rightarrow> bool" where
  "constructed s \<longleftrightarrow> ps_ctor s = Ct_done \<and> ps_begin s = At 0 \<and> ps_end s = At (ps_filled s) \<and>
     (case ps_reader s of
        Rd_free \<Rightarrow> True
      | Rd_begin p \<Rightarrow> p = At 0
      | Rd_iter p e \<Rightarrow> e = At (ps_filled s) \<and> (\<exists>i \<le> ps_filled s. p = At i))"

lemma constructed_reader: "constructed s \<Longrightarrow> case reader_next s of Inl _ \<Rightarrow> False | Inr t \<Rightarrow> constructed t"
proof (cases "ps_reader s")
  case (Rd_iter p e)
  assume c: "constructed s"
  then obtain i where "p = At i" "i \<le> ps_filled s" "e = At (ps_filled s)" using Rd_iter by (auto simp: constructed_def)
  with c Rd_iter show ?thesis by (cases "i = ps_filled s") (auto simp: constructed_def reader_next_def)
qed (auto simp: constructed_def reader_next_def)

lemma constructed_step: "constructed s \<Longrightarrow> pool_start_step s r \<Longrightarrow> \<exists>t. r = Inr t \<and> constructed t"
  by (erule pool_start_stepE) (use constructed_reader[of s] in \<open>auto simp: constructed_def split: sum.splits\<close>)

interpretation ps: step_invariant "\<lambda>s t. pool_start_step s (Inr t)" constructed
  by unfold_locales (auto dest: constructed_step)

text \<open>
  What a worker has read of the vector: nothing defined goes wrong unless exactly one of its two ends was read before
  \<open>reserve\<close> had written it.
\<close>

definition vec_ok :: "pool_start \<Rightarrow> bool" where
  "vec_ok s \<longleftrightarrow>
     (case ps_ctor s of
        Ct_reserve \<Rightarrow> ps_begin s = Null \<and> ps_end s = Null \<and> ps_filled s = 0
      | Ct_reserved \<Rightarrow> ps_begin s = At 0 \<and> ps_end s = Null \<and> ps_filled s = 0
      | Ct_push i \<Rightarrow> ps_begin s = At 0 \<and> ps_end s = At i \<and> ps_filled s = i
      | Ct_done \<Rightarrow> ps_begin s = At 0 \<and> ps_end s = At (ps_filled s)) \<and>
     (case ps_reader s of
        Rd_free \<Rightarrow> True
      | Rd_begin p \<Rightarrow> p = Null \<or> p = At 0
      | Rd_iter p e \<Rightarrow> (p = Null) \<noteq> (e = Null) \<or> p = e \<or> (\<exists>i j. p = At i \<and> e = At j \<and> i \<le> j \<and> j \<le> ps_filled s))"

lemma vec_ok_new: "vec_ok (pool_start_new n)"
  by (simp add: vec_ok_def pool_start_new_def)

lemma vec_ok_ctor: "vec_ok s \<Longrightarrow> vec_ok (ctor_next s)"
  unfolding vec_ok_def ctor_next_def by (auto split: ctor_pc.splits reader_pc.splits)

lemma vec_ok_reader: "vec_ok s \<Longrightarrow> reader_next s = Inr t \<Longrightarrow> vec_ok t"
proof (cases "ps_reader s")
  case Rd_free
  assume "vec_ok s" "reader_next s = Inr t"
  with Rd_free show ?thesis by (cases "ps_ctor s") (clarsimp simp: vec_ok_def reader_next_def)+
next
  case (Rd_begin p)
  assume "vec_ok s" "reader_next s = Inr t"
  with Rd_begin show ?thesis
    by (cases "ps_ctor s"; cases p) (clarsimp simp: vec_ok_def reader_next_def)+
next
  case (Rd_iter p e)
  assume "vec_ok s" "reader_next s = Inr t"
  with Rd_iter show ?thesis
    by (cases p; cases e) (auto simp: vec_ok_def reader_next_def split: if_splits ctor_pc.splits)
qed

lemma vec_ok_fault:
  "vec_ok s \<Longrightarrow> reader_next s = Inl f \<Longrightarrow> f = Undef \<and> (\<exists>p e. ps_reader s = Rd_iter p e \<and> (p = Null) \<noteq> (e = Null))"
  unfolding vec_ok_def reader_next_def
  by (auto split: ctor_pc.splits reader_pc.splits vec_ptr.splits if_splits)

interpretation vec: step_invariant "\<lambda>s t. pool_start_step s (Inr t)" vec_ok
  by unfold_locales (auto elim!: pool_start_stepE intro: vec_ok_ctor vec_ok_reader)

text \<open>
  Left alone, the constructor makes the queues that \<open>ThreadPool_new\<close> has, and workers that look at \<open>tasks_\<close> only
  from then on never leave it. But a worker that starts before leaves it: when it has read the begin of the
  empty vector, \<open>reserve\<close> gives the vector an end that the worker does not meet.
\<close>

theorem pool_constructor_race:
  assumes "ThreadPool_new w (int n) = Inr p"
  shows "(\<exists>k. constructed ((ctor_next ^^ k) (pool_start_new n)) \<and>
      ps_filled ((ctor_next ^^ k) (pool_start_new n)) = length (tp_tasks p)) \<and>
    (\<forall>s t f. constructed s \<and> pool_start_run s t \<longrightarrow> \<not> pool_start_step t (Inl f)) \<and>
    (\<exists>s. pool_start_run (pool_start_new n) s \<and> pool_start_step s (Inl Undef))"
proof (intro conjI)
  let ?s = "ctor_next (ctor_next (pool_start_new n))"
  have s: "?s = \<lparr>ps_count = n, ps_begin = At 0, ps_end = At 0, ps_filled = 0, ps_ctor = Ct_push 0, ps_reader = Rd_free\<rparr>"
    by (simp add: ctor_next_def pool_start_new_def)
  obtain k where "(ctor_next ^^ k) ?s = ?s\<lparr>ps_end := At (ps_count ?s), ps_filled := ps_count ?s, ps_ctor := Ct_done\<rparr>"
    using ctor_pushes[of ?s 0] by (auto simp: s)
  moreover have "(ctor_next ^^ Suc (Suc k)) (pool_start_new n) = (ctor_next ^^ k) ?s" by (simp add: funpow_swap1)
  moreover have "length (tp_tasks p) = n" using assms by (auto simp: ThreadPool_new_def split: if_splits)
  ultimately show "\<exists>k. constructed ((ctor_next ^^ k) (pool_start_new n)) \<and>
      ps_filled ((ctor_next ^^ k) (pool_start_new n)) = length (tp_tasks p)"
    by (intro exI[of _ "Suc (Suc k)"]) (simp add: s constructed_def)
  show "\<forall>s t f. constructed s \<and> pool_start_run s t \<longrightarrow> \<not> pool_start_step t (Inl f)"
    using ps.inv_run constructed_step by blast
  define a where "a = (pool_start_new n)\<lparr>ps_reader := Rd_begin Null\<rparr>"
  define b where "b = ctor_next (ctor_next a)"
  define c where "c = b\<lparr>ps_reader := Rd_iter Null (At 0)\<rparr>"
  have "pool_start_step (pool_start_new n) (Inr a)" "pool_start_step b (Inr c)" "pool_start_step c (Inl Undef)"
    using reader[of "pool_start_new n"] reader[of b] reader[of c]
    by (simp_all add: a_def b_def c_def reader_next_def ctor_next_def pool_start_new_def)
  moreover have "pool_start_step a (Inr (ctor_next a))" "pool_start_step (ctor_next a) (Inr b)"
    unfolding b_def by (rule ctor, simp add: a_def ctor_next_def pool_start_new_def)+
  ultimately show "\<exists>s. pool_start_run (pool_start_new n) s \<and> pool_start_step s (Inl Undef)"
    by (meson converse_rtranclp_into_rtranclp rtranclp.rtrancl_refl)
qed

theorem pool_constructor_race_witness:
  "\<exists>s. pool_start_run (pool_start_new 1) s \<and> pool_start_step s (Inl Undef)"
proof -
  obtain p :: "nat pool" where "ThreadPool_new 4 (int 1) = Inr p" by (simp add: ThreadPool_new_def)
  from pool_constructor_race[OF this] show ?thesis by blast
qed

end
