(* ===== verification/Dispatcher.thy ===== *)
theory Dispatcher
  imports Prelude
begin

text \<open>
  \<open>tl::Dispatcher\<close> (dispatcher.h, dispatcher.cc): callbacks posted by any thread are run,
  in order, by the thread in the event loop. A poster queues its callback under the lock
  and, if the queue was empty, activates \<open>ev_timer_\<close> after the unlock; the loop calls
  \<open>timerCB\<close>, which takes the whole queue under the lock and runs it without the lock.

  Of libevent the model uses what its documentation states: \<open>event_active\<close> makes the event
  active however often it is called, the loop calls the callback of an active event once
  and the event is then no longer active, \<open>event_base_loopbreak\<close> makes
  \<open>event_base_loop\<close> return after the callback that is running, and with
  \<open>EVLOOP_NO_EXIT_ON_EMPTY\<close> the loop does not return otherwise.
\<close>

section \<open>State and operations\<close>

text \<open>A posted callback is the user's or the \<open>loopbreak\<close> that \<open>stop\<close> posts.\<close>

datatype 'c callback = User 'c | Loopbreak

text \<open>
  Where the thread of \<open>dispatch\<close> is: before the call, in the loop waiting for events, in
  \<open>timerCB\<close> with the callbacks it still has to run, out of \<open>event_base_loop\<close>, or past
  \<open>cond_.notify_all\<close>.
\<close>

datatype 'c loop_pc = Not_started | In_loop | In_timerCB "'c callback list" | Left_loop | Notified

datatype joiner = Not_joined | Join_waiting | Joined

record 'c dispatcher =
  d_callbacks :: "'c callback list"
  d_stop :: bool
  d_active :: bool
  d_activating :: nat
  d_break :: bool
  d_loop :: "'c loop_pc"
  d_joiner :: joiner
  d_posted :: "'c callback list"
  d_executed :: "'c callback list"

definition Dispatcher_new :: "'c dispatcher" where
  "Dispatcher_new = \<lparr>d_callbacks = [], d_stop = True, d_active = False, d_activating = 0,
     d_break = False, d_loop = Not_started, d_joiner = Not_joined, d_posted = [], d_executed = []\<rparr>"

text \<open>\<open>post\<close> up to the unlock, counting the activation it owes, and the activation.\<close>

definition disp_post :: "'c callback \<Rightarrow> 'c dispatcher \<Rightarrow> 'c dispatcher" where
  "disp_post f d =
     (let do_post = (d_callbacks d = []) in
      d\<lparr>d_callbacks := d_callbacks d @ [f], d_posted := d_posted d @ [f],
        d_activating := (if do_post then Suc (d_activating d) else d_activating d)\<rparr>)"

definition disp_activate :: "'c dispatcher \<Rightarrow> 'c dispatcher" where
  "disp_activate d = d\<lparr>d_active := True, d_activating := d_activating d - 1\<rparr>"

definition disp_stop :: "'c dispatcher \<Rightarrow> 'c dispatcher" where
  "disp_stop d = disp_post Loopbreak d"

definition disp_dispatch :: "'c dispatcher \<Rightarrow> 'c dispatcher" where
  "disp_dispatch d = d\<lparr>d_stop := False, d_break := False, d_loop := In_loop\<rparr>"

text \<open>\<open>timerCB\<close>: the critical section that takes the queue, then one callback at a time.\<close>

definition disp_timerCB :: "'c dispatcher \<Rightarrow> 'c dispatcher" where
  "disp_timerCB d = d\<lparr>d_active := False, d_callbacks := [], d_loop := In_timerCB (d_callbacks d)\<rparr>"

definition disp_run_front :: "'c dispatcher \<Rightarrow> 'c dispatcher" where
  "disp_run_front d = (case d_loop d of
     In_timerCB (f # cbs) \<Rightarrow>
       d\<lparr>d_loop := In_timerCB cbs, d_executed := d_executed d @ [f],
         d_break := (d_break d \<or> f = Loopbreak)\<rparr>
   | _ \<Rightarrow> d)"

definition disp_notify :: "'c dispatcher \<Rightarrow> 'c dispatcher" where
  "disp_notify d = d\<lparr>d_loop := Notified,
     d_joiner := (if d_joiner d = Join_waiting then Joined else d_joiner d)\<rparr>"

definition disp_join :: "'c dispatcher \<Rightarrow> 'c dispatcher" where
  "disp_join d = d\<lparr>d_joiner := Join_waiting\<rparr>"

section \<open>Steps\<close>

text \<open>What happens without further calls: activations under way and the loop's thread.\<close>

inductive disp_internal :: "'c dispatcher \<Rightarrow> 'c dispatcher \<Rightarrow> bool" where
  activate: "0 < d_activating d \<Longrightarrow> disp_internal d (disp_activate d)"
| start: "d_loop d = Not_started \<Longrightarrow> disp_internal d (disp_dispatch d)"
| fire: "\<lbrakk>d_loop d = In_loop; \<not> d_break d; d_active d\<rbrakk> \<Longrightarrow> disp_internal d (disp_timerCB d)"
| callback: "d_loop d = In_timerCB (f # cbs) \<Longrightarrow> disp_internal d (disp_run_front d)"
| timer_return: "d_loop d = In_timerCB [] \<Longrightarrow> disp_internal d (d\<lparr>d_loop := In_loop\<rparr>)"
| leave: "\<lbrakk>d_loop d = In_loop; d_break d\<rbrakk> \<Longrightarrow> disp_internal d (d\<lparr>d_loop := Left_loop\<rparr>)"
| notify: "d_loop d = Left_loop \<Longrightarrow> disp_internal d (disp_notify d)"

text \<open>All steps but the spurious wakeup of a \<open>join\<close>, and that one.\<close>

inductive disp_step :: "'c dispatcher \<Rightarrow> 'c dispatcher \<Rightarrow> bool" where
  disp_internal: "disp_internal d d' \<Longrightarrow> disp_step d d'"
| client_post: "disp_step d (disp_post f d)"
| client_join: "d_joiner d = Not_joined \<Longrightarrow> disp_step d (disp_join d)"

inductive disp_any_step :: "'c dispatcher \<Rightarrow> 'c dispatcher \<Rightarrow> bool" where
  regular: "disp_step d d' \<Longrightarrow> disp_any_step d d'"
| spurious_join: "d_joiner d = Join_waiting \<Longrightarrow> disp_any_step d (d\<lparr>d_joiner := Joined\<rparr>)"

definition disp_reachable :: "'c dispatcher \<Rightarrow> bool" where
  "disp_reachable d \<longleftrightarrow> disp_any_step\<^sup>*\<^sup>* Dispatcher_new d"

section \<open>Invariant\<close>

fun in_hand :: "'c loop_pc \<Rightarrow> 'c callback list" where
  "in_hand (In_timerCB cbs) = cbs"
| "in_hand _ = []"

definition disp_inv :: "'c dispatcher \<Rightarrow> bool" where
  "disp_inv d \<longleftrightarrow>
     d_posted d = d_executed d @ in_hand (d_loop d) @ d_callbacks d \<and>
     (d_callbacks d \<noteq> [] \<longrightarrow> d_active d \<or> 0 < d_activating d) \<and>
     (d_break d \<longrightarrow> Loopbreak \<in> set (d_executed d)) \<and>
     (d_loop d = Left_loop \<or> d_loop d = Notified \<longrightarrow> d_break d)"

lemma disp_inv_new: "disp_inv Dispatcher_new"
  by (simp add: disp_inv_def Dispatcher_new_def)

lemmas disp_ops = disp_post_def disp_activate_def disp_dispatch_def disp_timerCB_def
  disp_run_front_def disp_notify_def disp_join_def

lemma disp_internal_inv: "disp_internal d d' \<Longrightarrow> disp_inv d \<Longrightarrow> disp_inv d'"
  by (induction rule: disp_internal.induct) (auto simp: disp_inv_def disp_ops)

lemma disp_step_inv: "disp_step d d' \<Longrightarrow> disp_inv d \<Longrightarrow> disp_inv d'"
  by (induction rule: disp_step.induct)
     (auto simp: disp_internal_inv, auto simp: disp_inv_def disp_ops Let_def)

lemma disp_any_step_inv: "disp_any_step d d' \<Longrightarrow> disp_inv d \<Longrightarrow> disp_inv d'"
  by (induction rule: disp_any_step.induct) (auto simp: disp_step_inv, auto simp: disp_inv_def)

interpretation disp: step_invariant disp_any_step disp_inv
  by unfold_locales (rule disp_any_step_inv)

lemma disp_reachable_inv: "disp_reachable d \<Longrightarrow> disp_inv d"
  by (auto simp: disp_reachable_def intro: disp.inv_run disp_inv_new)

section \<open>Progress\<close>

fun loop_weight :: "'c loop_pc \<Rightarrow> nat" where
  "loop_weight Not_started = 3"
| "loop_weight In_loop = 2"
| "loop_weight (In_timerCB cbs) = 3 + length cbs"
| "loop_weight Left_loop = 1"
| "loop_weight Notified = 0"

definition disp_remaining :: "'c dispatcher \<Rightarrow> nat" where
  "disp_remaining d = 3 * d_activating d + (if d_active d then 2 else 0) + length (d_callbacks d) +
     loop_weight (d_loop d)"

lemma disp_internal_decreases: "disp_internal d d' \<Longrightarrow> disp_remaining d' < disp_remaining d"
  by (induction rule: disp_internal.induct) (auto simp: disp_remaining_def disp_ops)

interpretation disp_progress: measured_step disp_internal disp_inv disp_remaining
  by unfold_locales (auto intro: disp_internal_inv disp_internal_decreases)

text \<open>Where the dispatcher can only rest.\<close>

lemma disp_rest:
  assumes "disp_inv d" and rest: "\<And>d'. \<not> disp_internal d d'"
  shows "d_activating d = 0 \<and>
    (d_loop d = In_loop \<and> d_callbacks d = [] \<and> d_executed d = d_posted d \<or>
     d_loop d = Notified \<and> Loopbreak \<in> set (d_executed d))"
proof -
  have a: "d_activating d = 0" using rest disp_internal.activate by (metis neq0_conv)
  show ?thesis
  proof (cases "d_loop d")
    case Not_started
    with rest show ?thesis by (metis disp_internal.start)
  next
    case In_loop
    with rest have "\<not> d_break d" "\<not> d_active d" by (metis disp_internal.leave, metis disp_internal.fire disp_internal.leave)
    with a In_loop assms(1) show ?thesis by (simp add: disp_inv_def)
  next
    case (In_timerCB cbs)
    with rest show ?thesis by (cases cbs) (metis disp_internal.timer_return, metis disp_internal.callback)
  next
    case Left_loop
    with rest show ?thesis by (metis disp_internal.notify)
  next
    case Notified
    with a assms(1) show ?thesis by (simp add: disp_inv_def)
  qed
qed

section \<open>Properties of the dispatcher\<close>

text \<open>Callbacks 1 and 2 posted before the loop starts, then the stop, then callback 3.\<close>

definition sample_disp :: "nat dispatcher" where
  "sample_disp = disp_post (User 3) (disp_stop (disp_post (User 2) (disp_post (User 1) Dispatcher_new)))"

lemma reachable_sample_disp: "disp_reachable sample_disp"
proof -
  have post: "disp_reachable d \<Longrightarrow> disp_reachable (disp_post f d)" for f and d :: "nat dispatcher"
    unfolding disp_reachable_def
    by (metis disp_any_step.regular disp_step.client_post rtranclp.rtrancl_into_rtrancl)
  have "disp_reachable (Dispatcher_new :: nat dispatcher)" by (simp add: disp_reachable_def)
  then show ?thesis unfolding sample_disp_def disp_stop_def by (intro post)
qed

text \<open>
  C11. Callbacks run exactly once and in the order of their posts: at any time the callbacks
  executed, those in the hands of \<open>timerCB\<close> and those still queued are, in this order, the
  callbacks posted. And no activation is lost: while callbacks are queued, the timer event
  is active or a poster is about to activate it, although only the poster that found the
  queue empty activates.
\<close>

theorem dispatcher_in_order_no_lost_activation:
  assumes "disp_reachable d"
  shows "d_posted d = d_executed d @ in_hand (d_loop d) @ d_callbacks d \<and>
    (d_callbacks d \<noteq> [] \<longrightarrow> d_active d \<or> 0 < d_activating d)"
  using disp_reachable_inv[OF assms] by (simp add: disp_inv_def)

theorem dispatcher_in_order_no_lost_activation_witness:
  "d_posted sample_disp = [User 1, User 2, Loopbreak, User 3] \<and>
   d_callbacks sample_disp = d_posted sample_disp \<and> (d_active sample_disp \<or> 0 < d_activating sample_disp)"
  using dispatcher_in_order_no_lost_activation[OF reachable_sample_disp]
  by (simp add: sample_disp_def disp_ops disp_stop_def Dispatcher_new_def Let_def)

text \<open>
  C10. Every posted callback is executed unless the loop is stopped: without further posts
  the dispatcher makes at most \<open>disp_remaining\<close> steps, and it rests only in the loop with
  everything posted executed, or after the loop, when a \<open>loopbreak\<close> has been executed.
\<close>

theorem dispatcher_executes_all:
  assumes "disp_reachable d"
  shows "(\<forall>n e. (disp_internal ^^ n) d e \<longrightarrow> n \<le> disp_remaining d) \<and>
    (\<exists>e. disp_internal\<^sup>*\<^sup>* d e \<and> (\<forall>f. \<not> disp_internal e f)) \<and>
    (\<forall>e. disp_internal\<^sup>*\<^sup>* d e \<and> (\<forall>f. \<not> disp_internal e f) \<longrightarrow>
       d_loop e = In_loop \<and> d_executed e = d_posted e \<or>
       d_loop e = Notified \<and> Loopbreak \<in> set (d_executed e))"
proof -
  note inv = disp_reachable_inv[OF assms]
  show ?thesis
    using disp_progress.run_bound[OF _ inv] disp_progress.reaches_end[OF inv]
      disp_progress.inv_run[OF _ inv] disp_rest
    by (meson add_leD1)
qed

theorem dispatcher_executes_all_witness:
  "\<exists>e. disp_internal\<^sup>*\<^sup>* sample_disp e \<and> (d_loop e = In_loop \<and> d_executed e = d_posted e \<or>
     d_loop e = Notified \<and> Loopbreak \<in> set (d_executed e))"
  using dispatcher_executes_all[OF reachable_sample_disp] by blast

text \<open>
  C12. \<open>stop\<close> is graceful: once the loop has been left, every callback posted before the
  first \<open>stop\<close> has been executed, in order.
\<close>

theorem dispatcher_stop_graceful:
  assumes "disp_reachable d" and "d_loop d = Left_loop \<or> d_loop d = Notified"
    and "d_posted d = before @ Loopbreak # after" and "Loopbreak \<notin> set before"
  shows "\<exists>rest. d_executed d = before @ Loopbreak # rest"
proof -
  have inv: "d_posted d = d_executed d @ in_hand (d_loop d) @ d_callbacks d"
    "Loopbreak \<in> set (d_executed d)"
    using disp_reachable_inv[OF assms(1)] assms(2) by (auto simp: disp_inv_def)
  then obtain us where us: "before @ Loopbreak # after = d_executed d @ us" using assms(3) by simp
  have "length before < length (d_executed d)"
  proof (rule ccontr)
    assume "\<not> length before < length (d_executed d)"
    then have "d_executed d = take (length (d_executed d)) before"
      using us by (metis append_eq_conv_conj le_less_linear order_less_imp_le take_append take_all_iff diff_is_0_eq take_0 append_Nil2)
    then have "set (d_executed d) \<subseteq> set before" by (metis set_take_subset)
    with inv(2) assms(4) show False by blast
  qed
  then have "\<exists>rest. before @ Loopbreak # rest = d_executed d"
    using us by (auto simp: append_eq_append_conv2 Cons_eq_append_conv)
  then show ?thesis by metis
qed

lemma reachable_internal: "disp_reachable d \<Longrightarrow> disp_internal d d' \<Longrightarrow> disp_reachable d'"
  unfolding disp_reachable_def
  by (metis disp_any_step.regular disp_step.disp_internal rtranclp.rtrancl_into_rtrancl)

text \<open>The sample run to its end: all four callbacks were taken together.\<close>

definition sample_disp_end :: "nat dispatcher" where
  "sample_disp_end = sample_disp\<lparr>d_callbacks := [], d_stop := False, d_activating := 0, d_break := True,
     d_loop := Left_loop, d_executed := [User 1, User 2, Loopbreak, User 3]\<rparr>"

lemma reachable_sample_disp_end: "disp_reachable sample_disp_end"
proof -
  note sample = sample_disp_def disp_stop_def disp_ops Dispatcher_new_def Let_def
  define d3 where "d3 = disp_timerCB (disp_dispatch (disp_activate sample_disp))"
  define d7 where "d7 = disp_run_front (disp_run_front (disp_run_front (disp_run_front d3)))"
  have "disp_reachable d3" unfolding d3_def
    by (intro reachable_internal[OF _ disp_internal.fire] reachable_internal[OF _ disp_internal.start]
        reachable_internal[OF _ disp_internal.activate] reachable_sample_disp) (simp_all add: sample)
  then have "disp_reachable d7" unfolding d7_def
    by (intro reachable_internal[OF _ disp_internal.callback]) (auto simp: d3_def sample)
  then have "disp_reachable (d7\<lparr>d_loop := In_loop, d_loop := Left_loop\<rparr>)"
    by (intro reachable_internal[OF _ disp_internal.leave] reachable_internal[OF _ disp_internal.timer_return])
      (simp_all add: d7_def d3_def sample)
  moreover have "d7\<lparr>d_loop := In_loop, d_loop := Left_loop\<rparr> = sample_disp_end"
    by (simp add: sample_disp_end_def d7_def d3_def sample)
  ultimately show ?thesis by simp
qed

theorem dispatcher_stop_graceful_witness:
  "\<exists>rest. d_executed sample_disp_end = [User 1, User 2] @ Loopbreak # rest"
  by (rule dispatcher_stop_graceful[OF reachable_sample_disp_end, where after = "[User 3]"])
     (simp_all add: sample_disp_end_def sample_disp_def disp_stop_def disp_post_def Dispatcher_new_def)

text \<open>
  C38. \<open>join\<close> waits without a predicate: a \<open>join\<close> that begins after the loop's thread has
  notified is not woken by anything but a spurious wakeup.
\<close>

theorem dispatcher_late_join_blocks:
  assumes "d_loop d = Notified" and "disp_step\<^sup>*\<^sup>* (disp_join d) e"
  shows "d_joiner e = Join_waiting"
proof -
  have "d_joiner e = Join_waiting \<and> d_loop e = Notified"
    using assms(2)
  proof (induction rule: rtranclp_induct)
    case base
    then show ?case using assms(1) by (simp add: disp_join_def)
  next
    case (step e f)
    from step(2,3) show ?case
      by (auto elim!: disp_step.cases disp_internal.cases simp: disp_ops Let_def)
  qed
  then show ?thesis by simp
qed

theorem dispatcher_late_join_blocks_witness:
  "d_joiner (disp_post (User 1) (disp_join (Dispatcher_new\<lparr>d_loop := Notified\<rparr>))) = Join_waiting"
  by (rule dispatcher_late_join_blocks[OF _ r_into_rtranclp[of disp_step, OF disp_step.client_post]]) simp

end
