(* ===== verification/Listener.thy ===== *)
theory Listener
  imports Main "HOL-Library.State_Monad" Prelude
begin

text \<open>
  How the listening sockets are opened: src/listener.cc (tl::Listener) and \<open>openLister\<close>, \<open>OnStart\<close>
  of ExtNet/Net/TcpService.cpp and WsService.cpp. The operating system and libevent are an argument that
  gives the result of each call; the calls that are made are the state of a state monad.
\<close>

section \<open>System calls\<close>

datatype event_cb = listener_event_cb | tcp_listen_cb | ws_listen_cb

datatype syscall = Sys_event_base_new | Sys_socket | Sys_setsockopt nat | Sys_reuseable | Sys_reuseable_port
  | Sys_nonblocking | Sys_bind string nat | Sys_listen nat | Sys_event_new event_cb | Sys_event_add
  | Sys_thread | Sys_event_free | Sys_close

type_synonym os = "syscall \<Rightarrow> int"

definition sys :: "os \<Rightarrow> syscall \<Rightarrow> (syscall list, int) state" where
  "sys os c = do { log \<leftarrow> State_Monad.get; State_Monad.set (log @ [c]); State_Monad.return (os c) }"

lemma run_sys [simp]: "run_state (sys os c) log = (os c, log @ [c])"
  by (simp add: sys_def)

text \<open>\<open>htons((unsigned short)port)\<close>\<close>

definition port16 :: "int \<Rightarrow> nat" where
  "port16 p = nat (p mod 65536)"

section \<open>tl::Listener\<close>

record listener =
  ls_addr :: string
  ls_port :: int
  ls_fd :: int
  ls_ev :: bool

definition Listener_new :: "string \<Rightarrow> int \<Rightarrow> listener" where
  "Listener_new addr port = \<lparr>ls_addr = addr, ls_port = port, ls_fd = -1, ls_ev = False\<rparr>"

text \<open>The values of the options on Linux.\<close>

definition SO_REUSEADDR :: nat where "SO_REUSEADDR = 2"
definition SO_REUSEPORT :: nat where "SO_REUSEPORT = 15"

definition Listener_open :: "os \<Rightarrow> listener \<Rightarrow> (syscall list, listener \<times> int) state" where
  "Listener_open os l0 = do {
     fd \<leftarrow> sys os Sys_socket;
     let l = l0\<lparr>ls_fd := fd\<rparr>;
     if fd < 0 then State_Monad.return (l, -1) else do {
     r1 \<leftarrow> sys os (Sys_setsockopt (or SO_REUSEADDR SO_REUSEPORT));
     if r1 < 0 then State_Monad.return (l, -1) else do {
     r2 \<leftarrow> sys os Sys_nonblocking;
     if r2 < 0 then State_Monad.return (l, -1) else do {
     r3 \<leftarrow> sys os (Sys_bind (ls_addr l) (port16 (ls_port l)));
     if r3 < 0 then State_Monad.return (l, -1) else do {
     r4 \<leftarrow> sys os (Sys_listen 512);
     if r4 < 0 then State_Monad.return (l, -1) else do {
     _ \<leftarrow> sys os (Sys_event_new listener_event_cb);
     _ \<leftarrow> sys os Sys_event_add;
     State_Monad.return (l\<lparr>ls_ev := True\<rparr>, 0) }}}}}}"

definition Listener_delete :: "os \<Rightarrow> listener \<Rightarrow> (syscall list, listener) state" where
  "Listener_delete os l = do {
     _ \<leftarrow> (if ls_ev l then sys os Sys_event_free else State_Monad.return 0);
     _ \<leftarrow> (if 0 \<le> ls_fd l then sys os Sys_close else State_Monad.return 0);
     State_Monad.return (if 0 \<le> ls_fd l then l\<lparr>ls_fd := -1\<rparr> else l) }"

text \<open>
  \<open>doAccept\<close> on what successive calls of \<open>accept\<close> return, -1 after that: the descriptors handed to
  \<open>handle_\<close> and the results still to come.
\<close>

fun Listener_doAccept :: "int list \<Rightarrow> int list \<times> int list" where
  "Listener_doAccept [] = ([], [])"
| "Listener_doAccept (s # rs) =
     (if s = -1 then ([], rs)
      else (case Listener_doAccept rs of (handled, rest) \<Rightarrow> (s # handled, rest)))"

section \<open>TcpService and WsService\<close>

record net_service =
  nv_addr :: string
  nv_port :: int
  nv_listenfd :: int
  nv_ev :: bool
  nv_handle :: bool

definition SetAddrAndPort :: "string \<Rightarrow> int \<Rightarrow> net_service \<Rightarrow> net_service" where
  "SetAddrAndPort addr port s = s\<lparr>nv_addr := addr, nv_port := port\<rparr>"

text \<open>The code of the two services, with the callback that each registers.\<close>

definition openLister :: "event_cb \<Rightarrow> os \<Rightarrow> net_service \<Rightarrow> (syscall list, net_service \<times> int) state" where
  "openLister cb os s0 = do {
     _ \<leftarrow> sys os Sys_event_base_new;
     listenfd \<leftarrow> sys os Sys_socket;
     let s = s0\<lparr>nv_listenfd := listenfd\<rparr>;
     if listenfd < 0 then State_Monad.return (s, listenfd) else do {
     _ \<leftarrow> sys os Sys_reuseable;
     _ \<leftarrow> sys os Sys_reuseable_port;
     r1 \<leftarrow> sys os Sys_nonblocking;
     if r1 < 0 then State_Monad.return (s, -1) else do {
     r2 \<leftarrow> sys os (Sys_bind (nv_addr s) (port16 (nv_port s)));
     if r2 < 0 then State_Monad.return (s, -1) else do {
     r3 \<leftarrow> sys os (Sys_listen 256);
     if r3 < 0 then State_Monad.return (s, -1) else do {
     _ \<leftarrow> sys os (Sys_event_new cb);
     _ \<leftarrow> sys os Sys_event_add;
     State_Monad.return (s\<lparr>nv_ev := True\<rparr>, 0) }}}}}"

definition OnStart :: "event_cb \<Rightarrow> os \<Rightarrow> net_service \<Rightarrow> (syscall list, net_service \<times> bool) state" where
  "OnStart cb os s0 = do {
     (s, r) \<leftarrow> openLister cb os s0;
     if r = 0 then do {
       _ \<leftarrow> sys os Sys_thread;
       State_Monad.return (s\<lparr>nv_handle := True\<rparr>, True) }
     else State_Monad.return (s, False) }"

definition tcp_openLister :: "os \<Rightarrow> net_service \<Rightarrow> (syscall list, net_service \<times> int) state" where
  "tcp_openLister = openLister tcp_listen_cb"

definition ws_openLister :: "os \<Rightarrow> net_service \<Rightarrow> (syscall list, net_service \<times> int) state" where
  "ws_openLister = openLister ws_listen_cb"

definition tcp_OnStart :: "os \<Rightarrow> net_service \<Rightarrow> (syscall list, net_service \<times> bool) state" where
  "tcp_OnStart = OnStart tcp_listen_cb"

definition ws_OnStart :: "os \<Rightarrow> net_service \<Rightarrow> (syscall list, net_service \<times> bool) state" where
  "ws_OnStart = OnStart ws_listen_cb"

section \<open>GateServer\<close>

text \<open>
  \<open>OpenServer\<close> starts the two services and the thread; it has no return statement behind that, which is
  undefined behaviour for a function that returns \<open>int\<close>.
\<close>

definition OpenServer ::
  "os \<Rightarrow> os \<Rightarrow> net_service \<Rightarrow> net_service \<Rightarrow> (syscall list, net_service \<times> net_service \<times> (fault + int)) state" where
  "OpenServer ws_os tcp_os ws0 tcp0 = do {
     (ws, started) \<leftarrow> ws_OnStart ws_os (SetAddrAndPort ''0.0.0.0'' 10086 ws0);
     if \<not> started then State_Monad.return (ws, tcp0, Inr (-1)) else do {
     (tcp, started') \<leftarrow> tcp_OnStart tcp_os (SetAddrAndPort ''0.0.0.0'' 10087 tcp0);
     if \<not> started' then State_Monad.return (ws, tcp, Inr (-2)) else do {
     _ \<leftarrow> sys ws_os Sys_thread;
     State_Monad.return (ws, tcp, Inl Undef) }}}"

section \<open>Properties\<close>

text \<open>A plan of calls, each with whether its failure ends the plan, and the calls that are made.\<close>

fun calls_made :: "os \<Rightarrow> (syscall \<times> bool) list \<Rightarrow> syscall list" where
  "calls_made os [] = []"
| "calls_made os ((c, must) # cs) = c # (if must \<and> os c < 0 then [] else calls_made os cs)"

definition all_ok :: "os \<Rightarrow> (syscall \<times> bool) list \<Rightarrow> bool" where
  "all_ok os cs \<longleftrightarrow> list_all (\<lambda>(c, must). must \<longrightarrow> 0 \<le> os c) cs"

definition listener_plan :: "listener \<Rightarrow> (syscall \<times> bool) list" where
  "listener_plan l = [(Sys_socket, True), (Sys_setsockopt SO_REUSEPORT, True), (Sys_nonblocking, True),
     (Sys_bind (ls_addr l) (port16 (ls_port l)), True), (Sys_listen 512, True),
     (Sys_event_new listener_event_cb, False), (Sys_event_add, False)]"

definition service_plan :: "event_cb \<Rightarrow> net_service \<Rightarrow> (syscall \<times> bool) list" where
  "service_plan cb s = [(Sys_event_base_new, False), (Sys_socket, True), (Sys_reuseable, False), (Sys_reuseable_port, False),
     (Sys_nonblocking, True), (Sys_bind (nv_addr s) (port16 (nv_port s)), True), (Sys_listen 256, True),
     (Sys_event_new cb, False), (Sys_event_add, False)]"

lemma reuse_options: "or SO_REUSEADDR SO_REUSEPORT = SO_REUSEPORT"
  by (simp add: SO_REUSEADDR_def SO_REUSEPORT_def)

lemma openLister_run:
  "\<exists>n. run_state (openLister cb os s) log =
     ((s\<lparr>nv_listenfd := os Sys_socket, nv_ev := nv_ev s \<or> all_ok os (service_plan cb s)\<rparr>, n),
      log @ calls_made os (service_plan cb s)) \<and> (n = 0 \<longleftrightarrow> all_ok os (service_plan cb s)) \<and> n \<le> 0"
  by (auto simp: openLister_def service_plan_def all_ok_def Let_def)

lemma Listener_open_run:
  "run_state (Listener_open os l) log =
     ((l\<lparr>ls_fd := os Sys_socket, ls_ev := ls_ev l \<or> all_ok os (listener_plan l)\<rparr>,
       if all_ok os (listener_plan l) then 0 else -1), log @ calls_made os (listener_plan l))"
  by (simp add: Listener_open_def listener_plan_def all_ok_def Let_def reuse_options)

lemma OnStart_run:
  "run_state (OnStart cb os s) log =
     ((s\<lparr>nv_listenfd := os Sys_socket, nv_ev := nv_ev s \<or> all_ok os (service_plan cb s),
          nv_handle := nv_handle s \<or> all_ok os (service_plan cb s)\<rparr>, all_ok os (service_plan cb s)),
      log @ calls_made os (service_plan cb s) @ (if all_ok os (service_plan cb s) then [Sys_thread] else []))"
  using openLister_run[of cb os s log] by (auto simp: OnStart_def)

lemma Listener_doAccept_until:
  "Listener_doAccept rs = (takeWhile (\<lambda>s. s \<noteq> -1) rs, drop 1 (dropWhile (\<lambda>s. s \<noteq> -1) rs))"
  by (induction rs) auto

text \<open>
  \<open>Listener::open\<close> and \<open>OnStart\<close> of the services make the calls of their plan up to the first
  failure that counts, and succeed exactly when there is none; then, and only then, the event is there and
  the service has its thread. The descriptor is kept in either case, and nothing closes it: only the
  destructor of \<open>Listener\<close> would. The option that \<open>Listener\<close> sets is \<open>SO_REUSEPORT\<close> alone.
\<close>

theorem listening_sequence:
  "run_state (Listener_open os l) log =
     ((l\<lparr>ls_fd := os Sys_socket, ls_ev := ls_ev l \<or> all_ok os (listener_plan l)\<rparr>,
       if all_ok os (listener_plan l) then 0 else -1), log @ calls_made os (listener_plan l)) \<and>
   run_state (OnStart cb os s) log =
     ((s\<lparr>nv_listenfd := os Sys_socket, nv_ev := nv_ev s \<or> all_ok os (service_plan cb s),
          nv_handle := nv_handle s \<or> all_ok os (service_plan cb s)\<rparr>, all_ok os (service_plan cb s)),
      log @ calls_made os (service_plan cb s) @ (if all_ok os (service_plan cb s) then [Sys_thread] else []))"
  using Listener_open_run OnStart_run by blast

end
