(* ===== verification/EchoServer.thy ===== *)
theory EchoServer
  imports Handler_Correct PoolStart Dispatcher Listener "HOL-Library.AList"
begin

text \<open>
  src/main.cc: the echo server. One state holds what the program puts together: the main thread, the
  thread pool, whose tasks are the indices of the dispatchers, the dispatchers, the listeners and the
  connections. The steps interleave the main thread, the workers, the event loops and the clients.

  A dispatcher runs in the worker that took its task, and what the loop calls (\<open>doAccept\<close> of its
  listener, \<open>handler_event_cb\<close> of its connections) are steps of their own, possible only in the loop.
  Before that, the constructor of the pool runs beside the workers that it has started, as in PoolStart.
  Of the kernel the steps use that \<open>accept\<close> returns descriptors that are not open. \<open>sv_ended\<close>,
  \<open>sv_accepted\<close>, \<open>sv_closed\<close> and \<open>sv_offered\<close> (the bytes that the clients had ready) are history that no step
  reads; \<open>sv_fault\<close> is set by undefined behaviour, a failed assertion or a callback that does not return.
\<close>

section \<open>State\<close>

definition MAX_IO_THREAD_COUNT :: nat where "MAX_IO_THREAD_COUNT = 4"

text \<open>
  Where \<open>main\<close> is: in the loop with its index, in \<open>delete thread_pool\<close> waiting for the workers, or behind it.
\<close>

datatype main_pc = Starting nat | Deleting | Deleted

record server =
  sv_pc :: main_pc
  sv_pool :: "nat pool"
  sv_disps :: "unit dispatcher list"
  sv_ls :: "listener option list"
  sv_conns :: "(int \<times> nat \<times> conn) list"
  sv_ended :: "conn list"
  sv_accepted :: "int list"
  sv_closed :: "int list"
  sv_offered :: nat
  sv_fault :: bool

text \<open>
  The state when the constructor of the pool has returned; a worker that has gone to sleep before that is one
  at the lock that has taken its first step.
\<close>

definition server_new :: "fault + server" where
  "server_new = (case ThreadPool_new MAX_IO_THREAD_COUNT 1 of
     Inl f \<Rightarrow> Inl f
   | Inr pool \<Rightarrow> Inr \<lparr>sv_pc = Starting 0, sv_pool = pool,
       sv_disps = replicate MAX_IO_THREAD_COUNT Dispatcher_new, sv_ls = replicate 4 None,
       sv_conns = [], sv_ended = [], sv_accepted = [], sv_closed = [], sv_offered = 0, sv_fault = False\<rparr>)"

section \<open>The main thread\<close>

text \<open>The body of the loop; what \<open>open\<close> returns is not looked at.\<close>

definition open_listener :: "os \<Rightarrow> listener" where
  "open_listener os = fst (fst (run_state (Listener_open os (Listener_new ''0.0.0.0'' 2200)) []))"

definition main_iteration :: "os \<Rightarrow> nat \<Rightarrow> server \<Rightarrow> server" where
  "main_iteration os i s = (case post i (sv_pool s) of
     Inl _ \<Rightarrow> s\<lparr>sv_fault := True\<rparr>
   | Inr pool \<Rightarrow> s\<lparr>sv_pc := Starting (Suc i), sv_pool := pool,
       sv_ls := (sv_ls s)[i := Some (open_listener os)]\<rparr>)"

definition main_delete :: "server \<Rightarrow> server" where
  "main_delete s = s\<lparr>sv_pc := Deleting, sv_pool := set_stop (sv_pool s)\<rparr>"

section \<open>What the event loops call\<close>

text \<open>
  The lambda of \<open>open\<close>: a new handler for the descriptor. When the constructor throws it has closed
  the descriptor, and \<open>h\<close> is still null where the exception is caught.
\<close>

definition handle_accepted :: "nat \<Rightarrow> (int \<Rightarrow> bool) \<Rightarrow> int \<Rightarrow> server \<Rightarrow> server" where
  "handle_accepted i nonblocking fd s0 =
     (let s = s0\<lparr>sv_accepted := sv_accepted s0 @ [fd]\<rparr> in
      case Handler_new (nonblocking fd) of
        None \<Rightarrow> s\<lparr>sv_closed := sv_closed s @ [fd]\<rparr>
      | Some h \<Rightarrow> s\<lparr>sv_conns := sv_conns s @ [(fd, i, \<lparr>c_handler = Some h, c_received = [], c_sent = []\<rparr>)]\<rparr>)"

definition server_accept :: "nat \<Rightarrow> (int \<Rightarrow> bool) \<Rightarrow> int list \<Rightarrow> server \<Rightarrow> server" where
  "server_accept i nonblocking rs s = fold (handle_accepted i nonblocking) (fst (Listener_doAccept rs)) s"

text \<open>The callback of a listener, with the flags it is called with.\<close>

definition listener_event :: "interest set \<Rightarrow> nat \<Rightarrow> (int \<Rightarrow> bool) \<Rightarrow> int list \<Rightarrow> server \<Rightarrow> server" where
  "listener_event what i nonblocking rs s = (if EV_READ \<in> what then server_accept i nonblocking rs s else s)"

text \<open>What \<open>accept\<close> may return: descriptors that are not open; one that \<open>Handler\<close> closed can come again.\<close>

fun accept_ok :: "(int \<Rightarrow> bool) \<Rightarrow> int set \<Rightarrow> int list \<Rightarrow> bool" where
  "accept_ok nonblocking used [] \<longleftrightarrow> True"
| "accept_ok nonblocking used (fd # fds) \<longleftrightarrow> fd \<notin> used \<and>
     accept_ok nonblocking (if nonblocking fd then insert fd used else used) fds"

text \<open>The destructor of a handler frees its event and closes its descriptor.\<close>

definition Handler_delete :: "int \<Rightarrow> conn \<Rightarrow> server \<Rightarrow> server" where
  "Handler_delete fd c s = s\<lparr>sv_conns := AList.delete fd (sv_conns s), sv_ended := sv_ended s @ [c], sv_closed := sv_closed s @ [fd]\<rparr>"

text \<open>A callback of a connection.\<close>

definition server_io :: "allocator \<Rightarrow> int \<Rightarrow> nat \<Rightarrow> conn \<Rightarrow> io \<Rightarrow> server \<Rightarrow> server" where
  "server_io A fd i c x s0 =
     (let s = s0\<lparr>sv_offered := sv_offered s0 + io_bytes x\<rparr> in
      case conn_step A c x of
        None \<Rightarrow> s\<lparr>sv_fault := True\<rparr>
      | Some c' \<Rightarrow>
          if c_handler c' = None
          then Handler_delete fd c' s
          else s\<lparr>sv_conns := AList.update fd (i, c') (sv_conns s)\<rparr>)"

section \<open>Steps\<close>

text \<open>What the program does without its clients: the start-up.\<close>

inductive server_internal :: "(nat \<Rightarrow> os) \<Rightarrow> server \<Rightarrow> server \<Rightarrow> bool" for os where
  iteration: "\<lbrakk>sv_pc s = Starting i; i < MAX_IO_THREAD_COUNT\<rbrakk> \<Longrightarrow> server_internal os s (main_iteration (os i) i s)"
| delete_pool: "sv_pc s = Starting MAX_IO_THREAD_COUNT \<Longrightarrow> server_internal os s (main_delete s)"
| joined: "\<lbrakk>sv_pc s = Deleting; \<forall>w \<in> set (tp_threads (sv_pool s)). w = Exited\<rbrakk> \<Longrightarrow>
     server_internal os s (s\<lparr>sv_pc := Deleted\<rparr>)"
| worker: "\<lbrakk>internal_step (sv_pool s) p; tp_done p = tp_done (sv_pool s)\<rbrakk> \<Longrightarrow>
     server_internal os s (s\<lparr>sv_pool := p\<rparr>)"
| task_end: "\<lbrakk>w < length (tp_threads (sv_pool s)); tp_threads (sv_pool s) ! w = Running i;
     i < length (sv_disps s); d_loop (sv_disps s ! i) = Notified\<rbrakk> \<Longrightarrow>
     server_internal os s (s\<lparr>sv_pool := run_task w i (sv_pool s)\<rparr>)"
| event_loop: "\<lbrakk>Running i \<in> set (tp_threads (sv_pool s)); i < length (sv_disps s); disp_internal (sv_disps s ! i) d\<rbrakk> \<Longrightarrow>
     server_internal os s (s\<lparr>sv_disps := (sv_disps s)[i := d]\<rparr>)"

text \<open>All steps: also spurious wakeups and what the clients bring about.\<close>

inductive server_step :: "allocator \<Rightarrow> (nat \<Rightarrow> os) \<Rightarrow> server \<Rightarrow> server \<Rightarrow> bool" for A os where
  server_internal: "server_internal os s s' \<Longrightarrow> server_step A os s s'"
| spurious_wakeup: "\<lbrakk>w < length (tp_threads (sv_pool s)); tp_threads (sv_pool s) ! w = Blocked\<rbrakk> \<Longrightarrow>
     server_step A os s (s\<lparr>sv_pool := (sv_pool s)\<lparr>tp_threads := (tp_threads (sv_pool s))[w := At_lock]\<rparr>\<rparr>)"
| accepts: "\<lbrakk>i < length (sv_disps s); d_loop (sv_disps s ! i) = In_loop; sv_ls s ! i = Some l; ls_ev l;
     accept_ok nonblocking (fst ` set (sv_conns s)) (fst (Listener_doAccept rs))\<rbrakk> \<Longrightarrow>
     server_step A os s (listener_event what i nonblocking rs s)"
| socket: "\<lbrakk>map_of (sv_conns s) fd = Some (i, c); i < length (sv_disps s); d_loop (sv_disps s ! i) = In_loop\<rbrakk> \<Longrightarrow>
     server_step A os s (server_io A fd i c x s)"

inductive_cases server_internalE: "server_internal os s s'"
inductive_cases server_stepE: "server_step A os s s'"

text \<open>
  The program from the start of \<open>main\<close>: the constructor of the pool with the workers that look at \<open>tasks_\<close> meanwhile,
  and what follows it. A worker that has begun to look at \<open>tasks_\<close> before the end of the constructor holds the mutex
  until it is through, and neither a worker nor \<open>post\<close> goes on before. \<open>Inl\<close> is undefined behaviour.
\<close>

record program =
  pg_pool :: pool_start
  pg_server :: "server option"

definition program_new :: program where
  "program_new = \<lparr>pg_pool = pool_start_new 1, pg_server = None\<rparr>"

inductive program_step :: "allocator \<Rightarrow> (nat \<Rightarrow> os) \<Rightarrow> program \<Rightarrow> fault + program \<Rightarrow> bool" for A os where
  constructor: "\<lbrakk>ps_ctor (pg_pool g) \<noteq> Ct_done \<or> ps_reader (pg_pool g) \<noteq> Rd_free; pool_start_step (pg_pool g) r\<rbrakk> \<Longrightarrow>
     program_step A os g (map_sum id (\<lambda>p. g\<lparr>pg_pool := p\<rparr>) r)"
| constructed: "\<lbrakk>ps_ctor (pg_pool g) = Ct_done; pg_server g = None\<rbrakk> \<Longrightarrow>
     program_step A os g (map_sum id (\<lambda>s. g\<lparr>pg_server := Some s\<rparr>) server_new)"
| program_goes_on: "\<lbrakk>ps_reader (pg_pool g) = Rd_free; pg_server g = Some s; server_step A os s s'\<rbrakk> \<Longrightarrow>
     program_step A os g (Inr (g\<lparr>pg_server := Some s'\<rparr>))"

inductive_cases program_stepE: "program_step A os g r"

abbreviation program_run :: "allocator \<Rightarrow> (nat \<Rightarrow> os) \<Rightarrow> program \<Rightarrow> program \<Rightarrow> bool" where
  "program_run A os \<equiv> (\<lambda>g h. program_step A os g (Inr h))\<^sup>*\<^sup>*"

text \<open>The states of the server in the runs of the program.\<close>

definition server_reachable :: "allocator \<Rightarrow> (nat \<Rightarrow> os) \<Rightarrow> server \<Rightarrow> bool" where
  "server_reachable A os s \<longleftrightarrow>
     (\<exists>g. program_run A os program_new g \<and> ps_reader (pg_pool g) = Rd_free \<and> pg_server g = Some s)"

section \<open>The threads\<close>

fun posted_by :: "main_pc \<Rightarrow> nat" where
  "posted_by (Starting i) = i"
| "posted_by _ = MAX_IO_THREAD_COUNT"

definition boot_pool :: "main_pc \<Rightarrow> nat pool \<Rightarrow> bool" where
  "boot_pool pc p \<longleftrightarrow> pool_inv p \<and> (Exited \<in> set (tp_threads p) \<longrightarrow> allempty (tp_tasks p)) \<and>
     length (tp_threads p) = MAX_IO_THREAD_COUNT \<and> length (tp_tasks p) = 1 \<and> tp_done p = [] \<and>
     tp_posted p = map (Pair 0) [0..<posted_by pc] \<and> (tp_stop p \<longleftrightarrow> pc = Deleting)"

text \<open>A dispatcher has not been started, or it is in its loop in the worker that runs its task.\<close>

definition boot_disp :: "nat pool \<Rightarrow> nat \<Rightarrow> unit dispatcher \<Rightarrow> bool" where
  "boot_disp p i d \<longleftrightarrow> d = Dispatcher_new \<or> d = disp_dispatch Dispatcher_new \<and> Running i \<in> set (tp_threads p)"

definition boot_inv :: "(nat \<Rightarrow> os) \<Rightarrow> server \<Rightarrow> bool" where
  "boot_inv os s \<longleftrightarrow> sv_pc s \<noteq> Deleted \<and> posted_by (sv_pc s) \<le> MAX_IO_THREAD_COUNT \<and>
     boot_pool (sv_pc s) (sv_pool s) \<and> length (sv_disps s) = MAX_IO_THREAD_COUNT \<and>
     (\<forall>i < length (sv_disps s). boot_disp (sv_pool s) i (sv_disps s ! i)) \<and>
     length (sv_ls s) = MAX_IO_THREAD_COUNT \<and>
     (\<forall>i < posted_by (sv_pc s). sv_ls s ! i = Some (open_listener (os i)))"

lemma section_exited:
  assumes "i < length (tp_threads p)" and "Exited \<in> set (tp_threads p) \<longrightarrow> allempty (tp_tasks p)"
    and "Exited \<in> set (tp_threads (loop_section i p))"
  shows "allempty (tp_tasks (loop_section i p))"
proof (cases "take_first (tp_tasks p)")
  case None
  then show ?thesis using take_first_None[of "tp_tasks p"] by (auto simp: loop_section_def)
next
  case (Some a)
  then have "\<not> allempty (tp_tasks p)" using take_first_None[of "tp_tasks p"] by simp
  with assms Some show ?thesis
    by (auto simp: loop_section_def split: prod.splits dest!: set_update_other)
qed

lemma take_first_length: "take_first qs = Some ((k, t), qs') \<Longrightarrow> length qs' = length qs"
  using take_first_Some by (metis length_list_update)

text \<open>The step of a worker that is not the end of a task.\<close>

lemma worker_step:
  assumes "internal_step p p'" and "tp_done p' = tp_done p"
  shows "length (tp_threads p') = length (tp_threads p) \<and> length (tp_tasks p') = length (tp_tasks p) \<and>
    tp_posted p' = tp_posted p \<and> tp_stop p' = tp_stop p \<and>
    (Running t \<in> set (tp_threads p) \<longrightarrow> Running t \<in> set (tp_threads p')) \<and>
    ((Exited \<in> set (tp_threads p) \<longrightarrow> allempty (tp_tasks p)) \<longrightarrow>
     (Exited \<in> set (tp_threads p') \<longrightarrow> allempty (tp_tasks p')))"
proof -
  have keep: "Running t \<in> set (ws[i := w])" if "Running t \<in> set ws" "ws ! i \<noteq> Running t" for ws i w
    using that by (metis in_set_conv_nth length_list_update nth_list_update_neq)
  from assms show ?thesis
  proof (cases rule: internal_step.cases)
    case (enter i)
    have "length (tp_tasks (loop_section i p)) = length (tp_tasks p)"
      using take_first_length[of "tp_tasks p"] by (auto simp: loop_section_def split: option.splits)
    moreover have "Running t \<in> set (tp_threads (loop_section i p))" if "Running t \<in> set (tp_threads p)"
      using that enter keep[of "tp_threads p" i] by (auto simp: loop_section_def split: option.splits)
    ultimately show ?thesis using enter section_exited[of i p]
      by (auto simp: loop_section_def split: option.splits)
  next
    case (run i t')
    with assms(2) show ?thesis by (simp add: run_task_def)
  next
    case (notify_one i n)
    then show ?thesis using keep[of "tp_threads p" i] by (auto dest!: set_update_other)
  next
    case (notify_none n)
    then show ?thesis by simp
  next
    case notify_all
    have "Running t \<in> set (map wake (tp_threads p))" if "Running t \<in> set (tp_threads p)"
      using that by (metis wake.simps(3) image_eqI list.set_map)
    with notify_all show ?thesis using map_wake(3)[of "tp_threads p"]
      by (auto simp: ThreadPool.notify_all_def)
  qed
qed

text \<open>No worker runs out of its task: all of them cannot have returned.\<close>

lemma not_all_exited:
  assumes "boot_pool Deleting p"
  shows "\<not> (\<forall>w \<in> set (tp_threads p). w = Exited)"
proof
  assume all: "\<forall>w \<in> set (tp_threads p). w = Exited"
  from assms have b: "stopping p" "length (tp_threads p) = 4" "tp_done p = []"
    "tp_posted p = map (Pair 0) [0..<4]"
    by (auto simp: boot_pool_def stopping_def MAX_IO_THREAD_COUNT_def)
  then have "tp_threads p \<noteq> []" by auto
  from stopping_exited_done[OF b(1) all this] b(3,4) have "mset [0..<4] = {#}" by (simp add: comp_def)
  then show False by (simp add: mset_set_empty_iff)
qed

lemma boot_pool_worker:
  "\<lbrakk>boot_pool pc p; internal_step p p'; tp_done p' = tp_done p\<rbrakk> \<Longrightarrow> boot_pool pc p'"
  using worker_step[of p p'] inv_internal[of p p'] unfolding boot_pool_def by metis

lemma boot_disp_mono:
  "\<lbrakk>boot_disp p i d; Running i \<in> set (tp_threads p) \<Longrightarrow> Running i \<in> set (tp_threads p')\<rbrakk> \<Longrightarrow> boot_disp p' i d"
  by (auto simp: boot_disp_def)

inductive_simps disp_internal_simps: "disp_internal d d'"

text \<open>Nobody posts to a dispatcher of the server: the only step is the start of its loop.\<close>

lemma disp_new_steps:
  "disp_internal Dispatcher_new d \<longleftrightarrow> d = disp_dispatch Dispatcher_new"
  "\<not> disp_internal (disp_dispatch Dispatcher_new) d"
  by (simp_all add: disp_internal_simps Dispatcher_new_def disp_dispatch_def)

lemma boot_disp_step:
  "\<lbrakk>boot_disp p i d; disp_internal d d'; Running i \<in> set (tp_threads p)\<rbrakk> \<Longrightarrow>
   boot_disp p i d' \<and> d = Dispatcher_new \<and> d' = disp_dispatch Dispatcher_new"
  by (auto simp: boot_disp_def disp_new_steps)

lemma post_pool:
  assumes "boot_pool (Starting i) p" and "i < MAX_IO_THREAD_COUNT"
  shows "\<exists>p'. post i p = Inr p' \<and> boot_pool (Starting (Suc i)) p' \<and> tp_threads p' = tp_threads p \<and>
    tp_notify_one p' = Suc (tp_notify_one p) \<and> tp_notify_all p' = tp_notify_all p"
proof -
  from assms(1) have p: "length (tp_tasks p) = 1" "pool_inv p" "\<not> tp_stop p" "Exited \<notin> set (tp_threads p)"
    by (auto simp: boot_pool_def dest: pool_invD(7))
  then obtain p' where p': "post i p = Inr p'" by (simp add: post_def postPriority_def Let_def)
  note f = postPriority_Inr(2)[OF p'[unfolded post_def]]
  have "pool_inv p'" using inv_post[OF p(2) p'[unfolded post_def]] .
  with assms p' p show ?thesis by (auto simp: boot_pool_def f)
qed

lemma boot_iteration:
  assumes "boot_inv os s" and "sv_pc s = Starting i" and "i < MAX_IO_THREAD_COUNT"
  shows "\<exists>p. main_iteration (os i) i s = s\<lparr>sv_pc := Starting (Suc i), sv_pool := p,
      sv_ls := (sv_ls s)[i := Some (open_listener (os i))]\<rparr> \<and> tp_threads p = tp_threads (sv_pool s) \<and>
    tp_notify_one p = Suc (tp_notify_one (sv_pool s)) \<and> tp_notify_all p = tp_notify_all (sv_pool s) \<and>
    boot_inv os (main_iteration (os i) i s)"
proof -
  have "boot_pool (Starting i) (sv_pool s)" using assms(1,2) by (simp add: boot_inv_def)
  from post_pool[OF this assms(3)] obtain p where p: "post i (sv_pool s) = Inr p"
    "boot_pool (Starting (Suc i)) p" "tp_threads p = tp_threads (sv_pool s)"
    "tp_notify_one p = Suc (tp_notify_one (sv_pool s))" "tp_notify_all p = tp_notify_all (sv_pool s)" by blast
  then show ?thesis using assms
    by (auto simp: main_iteration_def boot_inv_def boot_disp_def nth_list_update less_Suc_eq)
qed

lemma boot_delete:
  assumes "boot_inv os s" and "sv_pc s = Starting MAX_IO_THREAD_COUNT"
  shows "boot_inv os (main_delete s)"
  using assms inv_set_stop[of "sv_pool s"]
  by (auto simp: boot_inv_def main_delete_def boot_pool_def set_stop_def boot_disp_def)

lemma boot_worker:
  assumes "boot_inv os s" and "internal_step (sv_pool s) p" and "tp_done p = tp_done (sv_pool s)"
  shows "boot_inv os (s\<lparr>sv_pool := p\<rparr>)"
proof -
  have "boot_disp p i d" if "boot_disp (sv_pool s) i d" for i d
    using worker_step[OF assms(2,3), of i] boot_disp_mono[OF that, of p] by blast
  with assms boot_pool_worker[of "sv_pc s" "sv_pool s" p] show ?thesis by (simp add: boot_inv_def)
qed

lemma boot_event_loop:
  assumes "boot_inv os s" and "Running i \<in> set (tp_threads (sv_pool s))" and "i < length (sv_disps s)"
    and "disp_internal (sv_disps s ! i) d"
  shows "sv_disps s ! i = Dispatcher_new \<and> d = disp_dispatch Dispatcher_new \<and>
    boot_inv os (s\<lparr>sv_disps := (sv_disps s)[i := d]\<rparr>)"
  using assms boot_disp_step[of "sv_pool s" i "sv_disps s ! i" d]
  by (auto simp: boot_inv_def nth_list_update)

text \<open>Every step of the program keeps the invariant; a task does not end and the pool is not deleted.\<close>

lemma boot_internal:
  assumes "boot_inv os s" and "server_internal os s s'"
  shows "boot_inv os s'"
  using assms(2)
proof (cases rule: server_internal.cases)
  case joined
  with not_all_exited[of "sv_pool s"] assms(1) show ?thesis by (simp add: boot_inv_def)
next
  case (task_end w i)
  with assms(1) show ?thesis by (auto simp: boot_inv_def boot_disp_def Dispatcher_new_def disp_dispatch_def)
qed (use assms(1) boot_iteration boot_delete boot_worker boot_event_loop in blast)+

section \<open>The start-up ends\<close>

text \<open>
  The work that is left: a worker at the lock can block, a notification can bring a worker back to
  the lock, \<open>notify_all\<close> all of them.
\<close>

definition boot_weight :: "'t worker \<Rightarrow> nat" where
  "boot_weight w = (case w of At_lock \<Rightarrow> 2 | Blocked \<Rightarrow> 1 | _ \<Rightarrow> 0)"

lemma boot_weight_simps [simp]:
  "boot_weight At_lock = 2" "boot_weight Blocked = 1" "boot_weight (Running t) = 0" "boot_weight Exited = 0"
  by (simp_all add: boot_weight_def)

definition pool_work :: "'t pool \<Rightarrow> nat" where
  "pool_work p = 2 * tp_notify_one p + (if tp_notify_all p then Suc (length (tp_threads p)) else 0) +
     sum_list (map boot_weight (tp_threads p))"

fun main_work :: "main_pc \<Rightarrow> nat" where
  "main_work (Starting i) = 3 * (MAX_IO_THREAD_COUNT - i) + MAX_IO_THREAD_COUNT + 2"
| "main_work _ = 0"

definition not_started :: "'c dispatcher \<Rightarrow> nat" where
  "not_started d = (if d_loop d = Not_started then 1 else 0)"

definition boot_work :: "server \<Rightarrow> nat" where
  "boot_work s = main_work (sv_pc s) + pool_work (sv_pool s) + sum_list (map not_started (sv_disps s))"

lemma wake_weight: "sum_list (map boot_weight (map wake ws)) \<le> length ws + sum_list (map boot_weight ws)"
proof (induction ws)
  case (Cons w ws)
  then show ?case by (cases w) simp_all
qed simp

lemma section_work:
  assumes "i < length (tp_threads p)" and "tp_threads p ! i = At_lock"
  shows "pool_work (loop_section i p) < pool_work p"
proof -
  have "sum_list (map boot_weight ((tp_threads p)[i := w])) < sum_list (map boot_weight (tp_threads p))"
    if "boot_weight w < 2" for w
    using sum_list_map_update[OF assms(1), of boot_weight w] assms(2) that by simp
  then show ?thesis using take_first_None[of "tp_tasks p"]
    by (auto simp: loop_section_def pool_work_def split: option.splits)
qed

lemma worker_work:
  assumes "internal_step p p'" and "tp_done p' = tp_done p"
  shows "pool_work p' < pool_work p"
  using assms
proof (cases rule: internal_step.cases)
  case (enter i)
  with section_work show ?thesis by blast
next
  case (run i t)
  with assms(2) show ?thesis by (simp add: run_task_def)
next
  case (notify_one i n)
  with sum_list_map_update[OF notify_one(2), of boot_weight At_lock] show ?thesis
    by (simp add: pool_work_def)
next
  case notify_all
  with wake_weight[of "tp_threads p"] show ?thesis
    by (simp add: pool_work_def ThreadPool.notify_all_def del: map_map list.map_comp)
qed (simp add: pool_work_def)

lemma internal_work:
  assumes "boot_inv os s" and "server_internal os s s'"
  shows "boot_work s' < boot_work s"
  using assms(2)
proof (cases rule: server_internal.cases)
  case (iteration i)
  from boot_iteration[OF assms(1) iteration(2,3)] iteration show ?thesis
    by (auto simp: boot_work_def pool_work_def)
next
  case delete_pool
  with assms(1) show ?thesis
    by (simp add: boot_work_def pool_work_def main_delete_def set_stop_def boot_inv_def boot_pool_def)
next
  case joined
  with not_all_exited[of "sv_pool s"] assms(1) show ?thesis by (simp add: boot_inv_def)
next
  case (worker p)
  with worker_work[of "sv_pool s" p] show ?thesis by (simp add: boot_work_def)
next
  case (task_end w i)
  with assms(1) show ?thesis by (auto simp: boot_inv_def boot_disp_def Dispatcher_new_def disp_dispatch_def)
next
  case (event_loop i d)
  with boot_event_loop[OF assms(1) event_loop(2-4)] sum_list_map_update[OF event_loop(3), of not_started d]
  show ?thesis by (simp add: boot_work_def not_started_def Dispatcher_new_def disp_dispatch_def)
qed

interpretation startup: measured_step "server_internal os" "boot_inv os" boot_work for os
  by unfold_locales (rule boot_internal internal_work; assumption)+

lemma open_listener_ev: "ls_ev (open_listener os) \<longleftrightarrow> all_ok os (listener_plan (Listener_new ''0.0.0.0'' 2200))"
  by (simp add: open_listener_def Listener_open_run) (simp add: Listener_new_def)

text \<open>Where the program comes to rest: every event loop runs, each in a worker of its own.\<close>

definition serving :: "(nat \<Rightarrow> os) \<Rightarrow> server \<Rightarrow> bool" where
  "serving os s \<longleftrightarrow> sv_pc s = Deleting \<and> tp_tasks (sv_pool s) = [[]] \<and>
     mset (tp_threads (sv_pool s)) = image_mset Running (mset [0..<MAX_IO_THREAD_COUNT]) \<and>
     sv_disps s = replicate MAX_IO_THREAD_COUNT (disp_dispatch Dispatcher_new) \<and>
     sv_ls s = map (\<lambda>i. Some (open_listener (os i))) [0..<MAX_IO_THREAD_COUNT]"

lemma held_size:
  "size (sum_list (map held ws)) \<le> length ws"
  "size (sum_list (map held ws)) = length ws \<longleftrightarrow> (\<forall>w \<in> set ws. \<exists>t. w = Running t)"
  "\<forall>w \<in> set ws. \<exists>t. w = Running t \<Longrightarrow> image_mset Running (sum_list (map held ws)) = mset ws"
proof (induction ws)
  case (Cons w ws)
  { case 1 show ?case using Cons(1) by (cases w) simp_all next
    case 2 show ?case using Cons(1,2) by (cases w) auto next
    case 3 then show ?case using Cons(3) by (cases w) auto }
qed simp_all

lemma boot_rest_pool:
  assumes "boot_pool Deleting p" and rest: "\<And>p'. internal_step p p' \<Longrightarrow> tp_done p' \<noteq> tp_done p"
  shows "tp_tasks p = [[]] \<and> mset (tp_threads p) = image_mset Running (mset [0..<MAX_IO_THREAD_COUNT])"
proof -
  from assms(1) have b: "pool_inv p" "length (tp_tasks p) = 1" "length (tp_threads p) = MAX_IO_THREAD_COUNT"
    "tp_done p = []" "tp_posted p = map (Pair 0) [0..<MAX_IO_THREAD_COUNT]" "tp_stop p"
    "Exited \<in> set (tp_threads p) \<Longrightarrow> allempty (tp_tasks p)" by (auto simp: boot_pool_def)
  from b(2) obtain q where q: "tp_tasks p = [q]" by (auto simp: length_Suc_conv)
  have "At_lock \<notin> set (tp_threads p)"
  proof
    assume "At_lock \<in> set (tp_threads p)"
    then obtain i where "i < length (tp_threads p)" "tp_threads p ! i = At_lock" by (auto simp: in_set_conv_nth)
    from rest[OF internal_step.enter[OF this]] show False
      by (auto simp: loop_section_def split: option.splits if_splits)
  qed
  moreover have "Blocked \<notin> set (tp_threads p)"
  proof
    assume "Blocked \<in> set (tp_threads p)"
    from rest[OF internal_step.notify_all[OF pool_invD(6)[OF b(1,6) this]]] show False
      by (simp add: ThreadPool.notify_all_def)
  qed
  ultimately have ws: "w = Exited \<or> (\<exists>t. w = Running t)" if "w \<in> set (tp_threads p)" for w
    using that by (cases w) auto
  have acc: "mset [0..<MAX_IO_THREAD_COUNT] = sum_list (map held (tp_threads p)) + mset q"
    using posted_accounted[OF b(1)] by (simp add: b(4,5) q comp_def)
  have "size (sum_list (map held (tp_threads p)) + mset q) = MAX_IO_THREAD_COUNT"
    unfolding acc[symmetric] by simp
  then have "size (sum_list (map held (tp_threads p))) + length q = length (tp_threads p)"
    using b(3) by simp
  moreover have "Exited \<notin> set (tp_threads p)" if "q \<noteq> []" using that b(7) by (auto simp: q)
  with ws have "q = [] \<or> (\<forall>w \<in> set (tp_threads p). \<exists>t. w = Running t)" by blast
  ultimately have "q = []" "\<forall>w \<in> set (tp_threads p). \<exists>t. w = Running t"
    using held_size(2)[of "tp_threads p"] by auto
  with held_size(3)[OF this(2)] acc q show ?thesis by simp
qed

lemma boot_rest:
  assumes inv: "boot_inv os s" and rest: "\<And>s'. \<not> server_internal os s s'"
  shows "serving os s"
proof -
  have pc: "sv_pc s = Deleting"
  proof (cases "sv_pc s")
    case (Starting i)
    with inv have "i < MAX_IO_THREAD_COUNT \<or> i = MAX_IO_THREAD_COUNT" by (auto simp: boot_inv_def)
    with Starting rest show ?thesis by (metis server_internal.iteration server_internal.delete_pool)
  qed (use inv in \<open>simp_all add: boot_inv_def\<close>)
  from inv have b: "boot_pool Deleting (sv_pool s)" "length (sv_disps s) = MAX_IO_THREAD_COUNT"
    "\<And>i. i < MAX_IO_THREAD_COUNT \<Longrightarrow> boot_disp (sv_pool s) i (sv_disps s ! i)"
    "length (sv_ls s) = MAX_IO_THREAD_COUNT"
    "\<And>i. i < MAX_IO_THREAD_COUNT \<Longrightarrow> sv_ls s ! i = Some (open_listener (os i))"
    by (simp_all add: boot_inv_def pc)
  have "tp_done p' \<noteq> tp_done (sv_pool s)" if "internal_step (sv_pool s) p'" for p'
    using rest server_internal.worker[OF that] by blast
  note pool = boot_rest_pool[OF b(1) this]
  have "sv_disps s ! i = disp_dispatch Dispatcher_new" if i: "i < MAX_IO_THREAD_COUNT" for i
  proof -
    have "Running i \<in># mset (tp_threads (sv_pool s))" using i pool by simp
    then have r: "Running i \<in> set (tp_threads (sv_pool s))" by simp
    have "sv_disps s ! i \<noteq> Dispatcher_new"
      using rest server_internal.event_loop[OF r, of "disp_dispatch Dispatcher_new" os] i b(2)
      by (auto simp: disp_new_steps)
    with b(3)[OF i] show ?thesis by (simp add: boot_disp_def)
  qed
  with pool pc b(2,4,5) show ?thesis by (auto simp: serving_def intro: nth_equalityI)
qed

lemma boot_inv_new:
  assumes "server_new = Inr s"
  shows "boot_inv os s"
proof -
  obtain p where p: "ThreadPool_new MAX_IO_THREAD_COUNT 1 = Inr p"
    "s = \<lparr>sv_pc = Starting 0, sv_pool = p, sv_disps = replicate MAX_IO_THREAD_COUNT Dispatcher_new,
       sv_ls = replicate 4 None, sv_conns = [], sv_ended = [], sv_accepted = [], sv_closed = [],
       sv_offered = 0, sv_fault = False\<rparr>"
    using assms by (auto simp: server_new_def split: sum.splits)
  from inv_new[OF p(1)] p(1) have "boot_pool (Starting 0) p" by (auto simp: boot_pool_def ThreadPool_new_def)
  with p(2) show ?thesis by (simp add: boot_inv_def boot_disp_def MAX_IO_THREAD_COUNT_def)
qed

section \<open>The connections\<close>

declare conn_step.simps [simp del]

text \<open>
  Each descriptor that was accepted belongs to one live connection or has been closed, once for each time
  it was accepted.
\<close>

definition live :: "(int \<times> nat \<times> conn) list \<Rightarrow> conn set" where
  "live xs = (\<lambda>x. snd (snd x)) ` set xs"

definition conns_inv :: "server \<Rightarrow> bool" where
  "conns_inv s \<longleftrightarrow> distinct (map fst (sv_conns s)) \<and>
     (\<forall>c \<in> live (sv_conns s). c_handler c \<noteq> None) \<and>
     mset (sv_accepted s) = mset (sv_closed s) + mset (map fst (sv_conns s))"

definition all_conns :: "server \<Rightarrow> conn set" where
  "all_conns s = live (sv_conns s) \<union> set (sv_ended s)"

definition streams_inv :: "server \<Rightarrow> bool" where
  "streams_inv s \<longleftrightarrow> sv_offered s < 2 ^ 64 \<longrightarrow>
     \<not> sv_fault s \<and> (\<forall>c \<in> all_conns s. conn_inv c \<and> length (c_received c) \<le> sv_offered s)"

definition server_inv :: "(nat \<Rightarrow> os) \<Rightarrow> server \<Rightarrow> bool" where
  "server_inv os s \<longleftrightarrow> boot_inv os s \<and> conns_inv s \<and> streams_inv s"

lemma live_simps [simp]:
  "live [] = {}" "live ((fd, i, c) # xs) = insert c (live xs)" "live (xs @ ys) = live xs \<union> live ys"
  by (auto simp: live_def)

lemma live_map_of: "map_of xs fd = Some (i, c) \<Longrightarrow> c \<in> live xs"
  by (drule map_of_SomeD) (force simp: live_def)

text \<open>The two halves of the state do not touch each other.\<close>

lemma boot_frame:
  assumes "sv_pc s' = sv_pc s" and "sv_pool s' = sv_pool s" and "sv_disps s' = sv_disps s" and "sv_ls s' = sv_ls s"
  shows "boot_inv os s' = boot_inv os s"
  using assms by (simp add: boot_inv_def)

lemma conns_frame:
  assumes "sv_conns s' = sv_conns s" and "sv_ended s' = sv_ended s" and "sv_accepted s' = sv_accepted s"
    and "sv_closed s' = sv_closed s" and "sv_offered s' = sv_offered s" and "sv_fault s' = sv_fault s"
  shows "conns_inv s' = conns_inv s" "streams_inv s' = streams_inv s"
  using assms by (simp_all add: conns_inv_def streams_inv_def all_conns_def)

lemma handle_accepted_boot: "boot_inv os (handle_accepted i nb fd s) = boot_inv os s"
  by (rule boot_frame) (simp_all add: handle_accepted_def Let_def split: option.splits)

lemma handle_accepted_conns:
  assumes "conns_inv s" and "fd \<notin> fst ` set (sv_conns s)"
  shows "conns_inv (handle_accepted i nb fd s)"
  using assms by (auto simp: conns_inv_def handle_accepted_def Let_def split: option.splits)

lemma conn_inv_accepted:
  "Handler_new b = Some h \<Longrightarrow> conn_inv \<lparr>c_handler = Some h, c_received = [], c_sent = []\<rparr>"
  using conn_inv_new by (cases b) (auto simp: Handler_new_def new_conn_def)

lemma handle_accepted_streams: "streams_inv s \<Longrightarrow> streams_inv (handle_accepted i nb fd s)"
  by (auto simp: streams_inv_def all_conns_def handle_accepted_def Let_def conn_inv_accepted split: option.splits)

lemma accept_inv:
  "\<lbrakk>server_inv os s; accept_ok nb (fst ` set (sv_conns s)) fds\<rbrakk> \<Longrightarrow>
   server_inv os (fold (handle_accepted i nb) fds s)"
proof (induction fds arbitrary: s)
  case (Cons fd fds)
  from Cons.prems have fd: "fd \<notin> fst ` set (sv_conns s)" by simp
  with Cons.prems(1) have "server_inv os (handle_accepted i nb fd s)"
    by (simp add: server_inv_def handle_accepted_boot handle_accepted_conns handle_accepted_streams)
  moreover have "fst ` set (sv_conns (handle_accepted i nb fd s)) =
      (if nb fd then insert fd (fst ` set (sv_conns s)) else fst ` set (sv_conns s))"
    by (auto simp: handle_accepted_def Handler_new_def Let_def)
  ultimately show ?case using Cons.IH[of "handle_accepted i nb fd s"] Cons.prems(2) by simp
qed simp

text \<open>Replacing and removing in the table of connections.\<close>

lemma update_conns:
  assumes "map_of xs fd = Some y"
  shows "map fst (AList.update fd (i, c) xs) = map fst xs"
    and "live (AList.update fd (i, c) xs) \<subseteq> insert c (live xs)"
  using assms by (induction xs) auto

lemma delete_conns:
  assumes "distinct (map fst xs)" and "map_of xs fd = Some y"
  shows "mset (map fst xs) = add_mset fd (mset (map fst (AList.delete fd xs)))"
    and "distinct (map fst (AList.delete fd xs))"
    and "live (AList.delete fd xs) \<subseteq> live xs"
proof -
  show "live (AList.delete fd xs) \<subseteq> live xs" by (auto simp: AList.delete_eq live_def)
  show "distinct (map fst (AList.delete fd xs))" using assms(1) by (rule distinct_delete)
  have "AList.delete fd xs = xs" if "fd \<notin> fst ` set xs" for xs :: "(int \<times> nat \<times> conn) list"
    using that by (simp add: delete_id)
  with assms show "mset (map fst xs) = add_mset fd (mset (map fst (AList.delete fd xs)))"
    by (induction xs) (auto split: if_splits)
qed

lemma io_boot: "boot_inv os (server_io A fd i c x s) = boot_inv os s"
  by (rule boot_frame) (simp_all add: server_io_def Handler_delete_def Let_def split: option.splits)

lemma io_conns:
  assumes "conns_inv s" and c: "map_of (sv_conns s) fd = Some (i, c)"
  shows "conns_inv (server_io A fd i c x s)"
proof -
  from assms(1) have d: "distinct (map fst (sv_conns s))" "\<forall>c \<in> live (sv_conns s). c_handler c \<noteq> None"
    "mset (sv_accepted s) = mset (sv_closed s) + mset (map fst (sv_conns s))"
    by (auto simp: conns_inv_def)
  show ?thesis
  proof (cases "conn_step A c x")
    case None
    with assms(1) show ?thesis by (simp add: server_io_def Handler_delete_def conns_inv_def)
  next
    case (Some c')
    show ?thesis
    proof (cases "c_handler c' = None")
      case True
      with Some d delete_conns[OF d(1) c] show ?thesis
        by (fastforce simp: server_io_def Handler_delete_def conns_inv_def Let_def simp del: mset_map)
    next
      case False
      with Some d update_conns[OF c, of i c'] show ?thesis
        by (fastforce simp: server_io_def Handler_delete_def conns_inv_def Let_def simp del: mset_map)
    qed
  qed
qed

lemma io_streams:
  assumes "alloc_total A" and "streams_inv s" and "conns_inv s" and c: "map_of (sv_conns s) fd = Some (i, c)"
  shows "streams_inv (server_io A fd i c x s)"
proof (cases "sv_offered s + io_bytes x < 2 ^ 64")
  case True
  from live_map_of[OF c] have "c \<in> all_conns s" by (simp add: all_conns_def)
  with True assms(2) have inv: "\<not> sv_fault s" "conn_inv c" "length (c_received c) \<le> sv_offered s"
    "\<And>e. e \<in> all_conns s \<Longrightarrow> conn_inv e \<and> length (c_received e) \<le> sv_offered s + io_bytes x"
    by (auto simp: streams_inv_def intro: trans_le_add1)
  have "length (c_received c) + io_bytes x < 2 ^ 64" using True inv(3) by simp
  from conn_step_correct[OF assms(1) inv(2) this] inv(3) obtain c' where c': "conn_step A c x = Some c'"
    "conn_inv c'" "length (c_received c') \<le> sv_offered s + io_bytes x" by auto
  have "all_conns (server_io A fd i c x s) \<subseteq> insert c' (all_conns s)"
    using c'(1) update_conns(2)[OF c, of i c'] delete_conns(3)[OF _ c] assms(3)
    by (auto simp: all_conns_def server_io_def Handler_delete_def Let_def conns_inv_def)
  moreover have "\<not> sv_fault (server_io A fd i c x s)" "sv_offered (server_io A fd i c x s) = sv_offered s + io_bytes x"
    using c'(1) inv(1) by (simp_all add: server_io_def Handler_delete_def Let_def)
  moreover have "conn_inv e \<and> length (c_received e) \<le> sv_offered s + io_bytes x"
    if "e \<in> insert c' (all_conns s)" for e
    using that c'(2,3) inv(4) by blast
  ultimately show ?thesis by (metis streams_inv_def subsetD)
next
  case False
  moreover have "sv_offered (server_io A fd i c x s) = sv_offered s + io_bytes x"
    by (simp add: server_io_def Handler_delete_def Let_def split: option.splits)
  ultimately show ?thesis by (simp add: streams_inv_def)
qed

lemma internal_conns:
  assumes "boot_inv os s" and "server_internal os s s'"
  shows "conns_inv s' = conns_inv s" "streams_inv s' = streams_inv s"
proof -
  have "sv_conns s' = sv_conns s \<and> sv_ended s' = sv_ended s \<and> sv_accepted s' = sv_accepted s \<and>
      sv_closed s' = sv_closed s \<and> sv_offered s' = sv_offered s \<and> sv_fault s' = sv_fault s"
    using assms(2)
  proof (cases rule: server_internal.cases)
    case (iteration i)
    from boot_iteration[OF assms(1) iteration(2,3)] iteration show ?thesis by auto
  qed (simp_all add: main_delete_def)
  then show "conns_inv s' = conns_inv s" "streams_inv s' = streams_inv s"
    using conns_frame[of s' s] by simp_all
qed

lemma spurious_boot:
  assumes "boot_inv os s" and w: "w < length (tp_threads (sv_pool s))" "tp_threads (sv_pool s) ! w = Blocked"
  shows "boot_inv os (s\<lparr>sv_pool := (sv_pool s)\<lparr>tp_threads := (tp_threads (sv_pool s))[w := At_lock]\<rparr>\<rparr>)"
proof -
  let ?p = "(sv_pool s)\<lparr>tp_threads := (tp_threads (sv_pool s))[w := At_lock]\<rparr>"
  have "pool_inv ?p"
    using inv_pool_step[OF _ pool_step.spurious[OF w]] assms(1) by (simp add: boot_inv_def boot_pool_def)
  then have "boot_pool (sv_pc s) ?p"
    using assms(1) by (auto simp: boot_inv_def boot_pool_def dest!: set_update_other)
  moreover have "Running i \<in> set (tp_threads ?p)" if "Running i \<in> set (tp_threads (sv_pool s))" for i
    using that w(2) by (simp) (metis in_set_conv_nth length_list_update nth_list_update_neq worker.distinct(7))
  ultimately show ?thesis using assms(1) by (auto simp: boot_inv_def boot_disp_def)
qed

lemma server_step_inv:
  assumes "alloc_total A" and inv: "server_inv os s" and "server_step A os s s'"
  shows "server_inv os s'"
  using assms(3)
proof (cases rule: server_step.cases)
  case server_internal
  with inv boot_internal[of os s s'] internal_conns[of os s s'] show ?thesis by (simp add: server_inv_def)
next
  case (spurious_wakeup w)
  with inv spurious_boot[of os s w] conns_frame[of s' s] show ?thesis by (simp add: server_inv_def)
next
  case (accepts i l nonblocking rs what)
  with accept_inv[OF inv accepts(6)] inv show ?thesis by (simp add: listener_event_def server_accept_def)
next
  case (socket fd i c x)
  with inv io_conns[of s fd i c] io_streams[OF assms(1), of s fd i c] show ?thesis
    by (simp add: server_inv_def io_boot)
qed

lemma server_inv_new: "server_new = Inr s \<Longrightarrow> server_inv os s"
  using boot_inv_new[of s os]
  by (auto simp: server_inv_def server_new_def conns_inv_def streams_inv_def all_conns_def split: sum.splits)

interpretation serve: step_invariant "server_step A os" "\<lambda>s. alloc_total A \<and> server_inv os s" for A os
  by unfold_locales (auto intro: server_step_inv)

text \<open>The invariant of the program.\<close>

definition program_inv :: "(nat \<Rightarrow> os) \<Rightarrow> program \<Rightarrow> bool" where
  "program_inv os g \<longleftrightarrow> vec_ok (pg_pool g) \<and> (\<forall>s. pg_server g = Some s \<longrightarrow> server_inv os s)"

lemma server_starts: "\<exists>s. server_new = Inr s"
  by (simp add: server_new_def ThreadPool_new_def)

interpretation echo: step_invariant "\<lambda>g h. program_step A os g (Inr h)" "\<lambda>g. alloc_total A \<and> program_inv os g" for A os
proof
  fix g h assume g: "alloc_total A \<and> program_inv os g" and "program_step A os g (Inr h)"
  from this(2) show "alloc_total A \<and> program_inv os h"
  proof (rule program_stepE)
    fix r assume "Inr h = map_sum id (\<lambda>p. g\<lparr>pg_pool := p\<rparr>) r" "pool_start_step (pg_pool g) r"
    with g vec.inv_step[of "pg_pool g"] show ?thesis by (cases r) (auto simp: program_inv_def)
  next
    assume h: "Inr h = map_sum id (\<lambda>s. g\<lparr>pg_server := Some s\<rparr>) server_new"
    obtain s where s: "server_new = Inr s" using server_starts by blast
    from h[unfolded s] have "h = g\<lparr>pg_server := Some s\<rparr>" by simp
    with g server_inv_new[OF s] show ?thesis by (simp add: program_inv_def)
  next
    fix s s' assume "Inr h = (Inr (g\<lparr>pg_server := Some s'\<rparr>) :: fault + _)" "pg_server g = Some s" "server_step A os s s'"
    with g server_step_inv[of A os s s'] show ?thesis by (auto simp: program_inv_def)
  qed
qed

lemma program_run_inv:
  assumes "alloc_total A" and "program_run A os program_new g"
  shows "vec_ok (pg_pool g)" and "pg_server g = Some s \<Longrightarrow> server_inv os s"
proof -
  have "program_inv os program_new" by (simp add: program_inv_def program_new_def vec_ok_new)
  with echo.inv_run[OF assms(2)] assms(1) have "program_inv os g" by blast
  then show "vec_ok (pg_pool g)" and "pg_server g = Some s \<Longrightarrow> server_inv os s" by (simp_all add: program_inv_def)
qed

lemma program_fault:
  assumes "vec_ok (pg_pool g)" and "program_step A os g (Inl f)"
  shows "f = Undef \<and> (\<exists>p e. ps_reader (pg_pool g) = Rd_iter p e \<and> (p = Null) \<noteq> (e = Null))"
  using assms(2)
proof (rule program_stepE)
  fix r assume "Inl f = map_sum id (\<lambda>p. g\<lparr>pg_pool := p\<rparr>) r" "pool_start_step (pg_pool g) r"
  then have "reader_next (pg_pool g) = Inl f" by (cases r) (auto elim: pool_start_stepE)
  then show ?thesis by (rule vec_ok_fault[OF assms(1)])
next
  assume f: "Inl f = map_sum id (\<lambda>s. g\<lparr>pg_server := Some s\<rparr>) server_new"
  obtain s where s: "server_new = Inr s" using server_starts by blast
  from f[unfolded s] show ?thesis by simp
qed simp

lemma server_reachable_inv: "alloc_total A \<Longrightarrow> server_reachable A os s \<Longrightarrow> server_inv os s"
  using program_run_inv(2) unfolding server_reachable_def by blast

section \<open>Properties of the server\<close>

text \<open>A server all of whose calls succeed, with one client on descriptor 7 that has sent three bytes.\<close>

definition sample_os :: "nat \<Rightarrow> os" where
  "sample_os i = (\<lambda>_. 0)"

lemma step_reachable:
  assumes "server_reachable A os s" and "server_step A os s s'"
  shows "server_reachable A os s'"
proof -
  obtain g where g: "program_run A os program_new g" "ps_reader (pg_pool g) = Rd_free" "pg_server g = Some s"
    using assms(1) unfolding server_reachable_def by blast
  have "program_run A os program_new (g\<lparr>pg_server := Some s'\<rparr>)"
    using g(1) program_goes_on[OF g(2,3) assms(2)] by (rule rtranclp.rtrancl_into_rtrancl)
  with g(2) show ?thesis unfolding server_reachable_def by (intro exI[of _ "g\<lparr>pg_server := Some s'\<rparr>"]) simp
qed

lemma internal_reachable:
  assumes "server_reachable A os s" and "(server_internal os)\<^sup>*\<^sup>* s s'"
  shows "server_reachable A os s'"
  using assms(2,1) by (induction rule: rtranclp_induct) (auto intro: step_reachable server_step.server_internal)

lemma internal_history:
  assumes "(server_internal os)\<^sup>*\<^sup>* s s'" and "boot_inv os s"
  shows "sv_conns s' = sv_conns s \<and> sv_accepted s' = sv_accepted s \<and> sv_closed s' = sv_closed s \<and> sv_offered s' = sv_offered s"
  using assms(1)
proof (induction rule: rtranclp_induct)
  case (step t u)
  have "boot_inv os t" using startup.inv_run[OF step(1) assms(2)] .
  with step(3) boot_iteration[OF this] show ?case
    by (cases rule: server_internal.cases[OF step(2)]) (fastforce simp: main_delete_def step(3))+
qed simp

text \<open>The constructor that no worker disturbs.\<close>

lemma ctor_run:
  "program_run A os program_new (program_new\<lparr>pg_pool := (ctor_next ^^ 4) (pool_start_new 1)\<rparr>) \<and>
   ps_ctor ((ctor_next ^^ 4) (pool_start_new 1)) = Ct_done \<and> ps_reader ((ctor_next ^^ 4) (pool_start_new 1)) = Rd_free"
proof -
  define q where "q k = (ctor_next ^^ k) (pool_start_new 1)" for k
  have step: "program_step A os (program_new\<lparr>pg_pool := q k\<rparr>) (Inr (program_new\<lparr>pg_pool := q (Suc k)\<rparr>))"
    if "ps_ctor (q k) \<noteq> Ct_done" for k
    using program_step.constructor[of "program_new\<lparr>pg_pool := q k\<rparr>" "Inr (ctor_next (q k))" A os] ctor[of "q k"] that
    by (simp add: q_def)
  have run: "program_run A os program_new (program_new\<lparr>pg_pool := q k\<rparr>)"
    if "\<And>j. j < k \<Longrightarrow> ps_ctor (q j) \<noteq> Ct_done" for k
    using that
  proof (induction k)
    case (Suc k)
    then show ?case using step[of k] by (meson less_Suc_eq rtranclp.rtrancl_into_rtrancl)
  qed (simp add: q_def program_new_def)
  have q: "q (Suc k) = ctor_next (q k)" "q 0 = pool_start_new 1" for k by (simp_all add: q_def)
  have v: "q 1 = (pool_start_new 1)\<lparr>ps_begin := At 0, ps_ctor := Ct_reserved\<rparr>"
    "q 2 = (pool_start_new 1)\<lparr>ps_begin := At 0, ps_end := At 0, ps_ctor := Ct_push 0\<rparr>"
    "q 3 = (pool_start_new 1)\<lparr>ps_begin := At 0, ps_end := At 1, ps_filled := 1, ps_ctor := Ct_push 1\<rparr>"
    "q 4 = (pool_start_new 1)\<lparr>ps_begin := At 0, ps_end := At 1, ps_filled := 1, ps_ctor := Ct_done\<rparr>"
    by (simp_all add: numeral_eq_Suc q ctor_next_def pool_start_new_def)
  have "ps_ctor (q j) \<noteq> Ct_done" if "j < 4" for j
  proof -
    have "j = 0 \<or> j = 1 \<or> j = 2 \<or> j = 3" using that by auto
    then show ?thesis using v q(2) by (auto simp: pool_start_new_def)
  qed
  from run[of 4, OF this] v(4) show ?thesis unfolding q_def[symmetric] by (simp add: pool_start_new_def)
qed

lemma reachable_new: "\<exists>s0. server_new = Inr s0 \<and> server_reachable A os s0 \<and> sv_conns s0 = [] \<and> sv_accepted s0 = [] \<and>
    sv_closed s0 = [] \<and> sv_offered s0 = 0"
proof -
  obtain s0 where s0: "server_new = Inr s0" using server_starts by blast
  let ?g = "program_new\<lparr>pg_pool := (ctor_next ^^ 4) (pool_start_new 1)\<rparr>"
  have "program_step A os ?g (map_sum id (\<lambda>s. ?g\<lparr>pg_server := Some s\<rparr>) server_new)"
    by (rule program_step.constructed) (use ctor_run[of A os] in \<open>simp_all add: program_new_def\<close>)
  with ctor_run[of A os] have "program_run A os program_new (?g\<lparr>pg_server := Some s0\<rparr>)"
    by (auto simp: s0 intro: rtranclp.rtrancl_into_rtrancl)
  moreover have "ps_reader (pg_pool (?g\<lparr>pg_server := Some s0\<rparr>)) = Rd_free" using ctor_run[of A os] by simp
  ultimately have "server_reachable A os s0"
    unfolding server_reachable_def by (intro exI[of _ "?g\<lparr>pg_server := Some s0\<rparr>"]) simp
  with s0 show ?thesis by (auto simp: server_new_def split: sum.splits)
qed

lemma sample_server:
  "\<exists>s. server_reachable zero_alloc sample_os s \<and> sv_accepted s = [7] \<and> sv_offered s = 3"
proof -
  obtain s0 where s0: "server_new = Inr s0" "server_reachable zero_alloc sample_os s0" "sv_conns s0 = []"
    "sv_accepted s0 = []" "sv_offered s0 = 0" using reachable_new by blast
  note inv = boot_inv_new[OF s0(1), of sample_os]
  from startup.reaches_end[OF inv] obtain s where s: "(server_internal sample_os)\<^sup>*\<^sup>* s0 s"
    "\<And>u. \<not> server_internal sample_os s u" by blast
  from boot_rest[OF startup.inv_run[OF s(1) inv] s(2)] have serving: "serving sample_os s" .
  then have d: "length (sv_disps s) = MAX_IO_THREAD_COUNT" "d_loop (sv_disps s ! 0) = In_loop"
    "sv_ls s ! 0 = Some (open_listener (sample_os 0))"
    by (simp_all add: serving_def MAX_IO_THREAD_COUNT_def disp_dispatch_def numeral_eq_Suc)
  have l: "ls_ev (open_listener (sample_os 0))"
    by (simp add: open_listener_def Listener_open_def sample_os_def Let_def)
  from internal_history[OF s(1) inv] s0 have h: "sv_conns s = []" "sv_accepted s = []" "sv_offered s = 0" by simp_all
  define a where "a = listener_event {EV_READ} 0 (\<lambda>_. True) [7] s"
  have "server_step zero_alloc sample_os s a" unfolding a_def
    by (rule server_step.accepts[OF _ d(2,3) l]) (simp_all add: d(1) MAX_IO_THREAD_COUNT_def h(1))
  with internal_reachable[OF s0(2) s(1)] have ra: "server_reachable zero_alloc sample_os a" by (rule step_reachable)
  have a: "\<exists>c. map_of (sv_conns a) 7 = Some (0, c)" "sv_disps a = sv_disps s" "sv_accepted a = [7]" "sv_offered a = 0"
    by (simp_all add: a_def listener_event_def server_accept_def handle_accepted_def Handler_new_def h)
  then obtain c where c: "map_of (sv_conns a) 7 = Some (0, c)" by blast
  define b where "b = server_io zero_alloc 7 0 c (Readable [Rx_data [1, 2, 3]]) a"
  have "server_step zero_alloc sample_os a b" unfolding b_def
    by (rule server_step.socket[OF c]) (simp_all add: a(2) d MAX_IO_THREAD_COUNT_def)
  with ra have "server_reachable zero_alloc sample_os b" by (rule step_reachable)
  moreover have "sv_accepted b = [7]" "sv_offered b = 3"
    by (simp_all add: b_def server_io_def Handler_delete_def Let_def a(3,4) split: option.splits)
  ultimately show ?thesis by blast
qed

text \<open>
  C1. The whole server echoes: in every state that the program reaches, from the constructor of the pool on and in every
  interleaving of the main thread, the workers, the event loops and the clients, and of every connection, live or
  ended, the bytes sent are a prefix of the bytes received, and the rest is what the write buffer of a live connection
  holds. No step is undefined, with one exception: that of a worker that looked at \<open>tasks_\<close> while the constructor of the
  pool filled it, and read exactly one end of the vector before \<open>reserve\<close> had written it. Allocation
  must succeed and the clients must offer less than \<open>2 ^ 64\<close> bytes.
\<close>

theorem echo_server_safe:
  assumes "alloc_total A" and "program_run A os program_new g"
  shows "(\<forall>f. program_step A os g (Inl f) \<longrightarrow>
      f = Undef \<and> (\<exists>p e. ps_reader (pg_pool g) = Rd_iter p e \<and> (p = Null) \<noteq> (e = Null))) \<and>
    (\<forall>s. pg_server g = Some s \<and> sv_offered s < 2 ^ 64 \<longrightarrow>
      \<not> sv_fault s \<and> (\<forall>c \<in> all_conns s. \<exists>rest. c_received c = c_sent c @ rest \<and>
        (\<forall>h. c_handler c = Some h \<longrightarrow> rest = contents (h_write_buf h))))"
proof (intro conjI allI impI)
  fix f assume "program_step A os g (Inl f)"
  then show "f = Undef" "\<exists>p e. ps_reader (pg_pool g) = Rd_iter p e \<and> (p = Null) \<noteq> (e = Null)"
    using program_fault[OF program_run_inv(1)[OF assms]] by blast+
next
  fix s assume s: "pg_server g = Some s \<and> sv_offered s < 2 ^ 64"
  then have inv: "server_inv os s" using program_run_inv(2)[OF assms] by blast
  then show "\<not> sv_fault s" using s by (simp add: server_inv_def streams_inv_def)
  from inv s show "\<forall>c \<in> all_conns s. \<exists>rest. c_received c = c_sent c @ rest \<and>
      (\<forall>h. c_handler c = Some h \<longrightarrow> rest = contents (h_write_buf h))"
    by (fastforce simp: server_inv_def streams_inv_def conn_inv_def split: option.splits)
qed

theorem echo_server_safe_witness:
  "\<exists>s. sv_accepted s = [7] \<and> sv_offered s = 3 \<and> \<not> sv_fault s \<and> (\<forall>c \<in> all_conns s. \<exists>rest. c_received c = c_sent c @ rest \<and>
    (\<forall>h. c_handler c = Some h \<longrightarrow> rest = contents (h_write_buf h)))"
proof -
  obtain s where s: "server_reachable zero_alloc sample_os s" "sv_accepted s = [7]" "sv_offered s = 3"
    using sample_server by blast
  then obtain g where g: "program_run zero_alloc sample_os program_new g" "pg_server g = Some s"
    unfolding server_reachable_def by blast
  from echo_server_safe[OF alloc_total_zero g(1)] g(2) s(2,3) show ?thesis by (intro exI[of _ s] conjI) simp_all
qed

text \<open>
  C25. No descriptor leaks and none is closed twice: in every reachable state the live connections have different
  descriptors and a handler each, and the descriptors accepted so far are those closed so far and those
  of the live connections, each as many times.
\<close>

theorem echo_server_descriptors:
  assumes "alloc_total A" and "server_reachable A os s"
  shows "distinct (map fst (sv_conns s)) \<and> (\<forall>c \<in> live (sv_conns s). c_handler c \<noteq> None) \<and>
    mset (sv_accepted s) = mset (sv_closed s) + mset (map fst (sv_conns s))"
  using server_reachable_inv[OF assms] by (simp add: server_inv_def conns_inv_def)

theorem echo_server_descriptors_witness:
  "\<exists>s::server. sv_accepted s = [7] \<and> distinct (map fst (sv_conns s)) \<and> (\<forall>c \<in> live (sv_conns s). c_handler c \<noteq> None) \<and>
    mset (sv_accepted s) = mset (sv_closed s) + mset (map fst (sv_conns s))"
proof -
  obtain s where s: "server_reachable zero_alloc sample_os s" "sv_accepted s = [7]"
    using sample_server by blast
  from echo_server_descriptors[OF alloc_total_zero s(1)] s(2) show ?thesis by blast
qed

text \<open>
  C3. The server comes up and stays up. From every reachable state the program, left to itself, makes at most
  \<open>boot_work\<close> steps and comes to rest; it rests only when \<open>open\<close> has been called on every listener, no task is
  queued, each of the four event loops runs, and each in a worker of its own, although \<open>stop_\<close> may be set before any
  worker has taken a task. A listener has been opened, so that it accepts, if and only if every system call of its
  \<open>open\<close> has succeeded; the server runs on without those that have not. The destructor of the pool, in which \<open>main\<close>
  waits, never returns.
\<close>

theorem echo_server_starts:
  assumes "alloc_total A" and "server_reachable A os s"
  shows "sv_pc s \<noteq> Deleted \<and>
    (\<forall>n s'. (server_internal os ^^ n) s s' \<longrightarrow> n \<le> boot_work s) \<and>
    (\<exists>s'. (server_internal os)\<^sup>*\<^sup>* s s' \<and> (\<forall>u. \<not> server_internal os s' u)) \<and>
    (\<forall>s'. (server_internal os)\<^sup>*\<^sup>* s s' \<and> (\<forall>u. \<not> server_internal os s' u) \<longrightarrow> serving os s' \<and>
      (\<forall>i < MAX_IO_THREAD_COUNT. \<exists>l. sv_ls s' ! i = Some l \<and>
        (ls_ev l \<longleftrightarrow> all_ok (os i) (listener_plan (Listener_new ''0.0.0.0'' 2200)))))"
proof -
  have inv: "boot_inv os s" using server_reachable_inv[OF assms] by (simp add: server_inv_def)
  moreover have "sv_pc s \<noteq> Deleted" using inv by (simp add: boot_inv_def)
  moreover have "\<forall>i < MAX_IO_THREAD_COUNT. \<exists>l. sv_ls s' ! i = Some l \<and>
      (ls_ev l \<longleftrightarrow> all_ok (os i) (listener_plan (Listener_new ''0.0.0.0'' 2200)))" if "serving os s'" for s'
    using that open_listener_ev by (simp add: serving_def)
  ultimately show ?thesis
    using startup.run_bound[OF _ inv] startup.reaches_end[OF inv] startup.inv_run[OF _ inv] boot_rest
    by (meson add_leD1)
qed

theorem echo_server_starts_witness:
  "\<exists>s s'. server_new = Inr s \<and> (server_internal sample_os)\<^sup>*\<^sup>* s s' \<and> serving sample_os s' \<and> sv_pc s \<noteq> Deleted"
proof -
  obtain s where s: "server_new = Inr s" "server_reachable zero_alloc sample_os s" using reachable_new by blast
  from echo_server_starts[OF alloc_total_zero s(2)] s(1) show ?thesis by blast
qed

end
