(* ===== verification/Utf8.thy ===== *)
theory Utf8
  imports Prelude
begin

text \<open>
  ExtNet/common/utf8.c: the table-driven decoder. The table is the source's; a read behind
  its end, which a caller's \<open>state\<close> can cause, is a fault.
\<close>

unbundle bit_operations_syntax

section \<open>The decoder\<close>

definition utf8d :: "nat list" where
  "utf8d =
  [0, 0, 0, 0, 0, 0, 0, 0, 0, 0, 0, 0, 0, 0, 0, 0, 0, 0, 0, 0, 0, 0, 0, 0, 0, 0, 0, 0, 0, 0, 0, 0,
   0, 0, 0, 0, 0, 0, 0, 0, 0, 0, 0, 0, 0, 0, 0, 0, 0, 0, 0, 0, 0, 0, 0, 0, 0, 0, 0, 0, 0, 0, 0, 0,
   0, 0, 0, 0, 0, 0, 0, 0, 0, 0, 0, 0, 0, 0, 0, 0, 0, 0, 0, 0, 0, 0, 0, 0, 0, 0, 0, 0, 0, 0, 0, 0,
   0, 0, 0, 0, 0, 0, 0, 0, 0, 0, 0, 0, 0, 0, 0, 0, 0, 0, 0, 0, 0, 0, 0, 0, 0, 0, 0, 0, 0, 0, 0, 0,
   1, 1, 1, 1, 1, 1, 1, 1, 1, 1, 1, 1, 1, 1, 1, 1, 9, 9, 9, 9, 9, 9, 9, 9, 9, 9, 9, 9, 9, 9, 9, 9,
   7, 7, 7, 7, 7, 7, 7, 7, 7, 7, 7, 7, 7, 7, 7, 7, 7, 7, 7, 7, 7, 7, 7, 7, 7, 7, 7, 7, 7, 7, 7, 7,
   8, 8, 2, 2, 2, 2, 2, 2, 2, 2, 2, 2, 2, 2, 2, 2, 2, 2, 2, 2, 2, 2, 2, 2, 2, 2, 2, 2, 2, 2, 2, 2,
   0xa, 0x3, 0x3, 0x3, 0x3, 0x3, 0x3, 0x3, 0x3, 0x3, 0x3, 0x3, 0x3, 0x4, 0x3, 0x3,
   0xb, 0x6, 0x6, 0x6, 0x5, 0x8, 0x8, 0x8, 0x8, 0x8, 0x8, 0x8, 0x8, 0x8, 0x8, 0x8,
   0x0, 0x1, 0x2, 0x3, 0x5, 0x8, 0x7, 0x1, 0x1, 0x1, 0x4, 0x6, 0x1, 0x1, 0x1, 0x1,
   1, 1, 1, 1, 1, 1, 1, 1, 1, 1, 1, 1, 1, 1, 1, 1, 1, 0, 1, 1, 1, 1, 1, 0, 1, 0, 1, 1, 1, 1, 1, 1,
   1, 2, 1, 1, 1, 1, 1, 2, 1, 2, 1, 1, 1, 1, 1, 1, 1, 1, 1, 1, 1, 1, 1, 2, 1, 1, 1, 1, 1, 1, 1, 1,
   1, 2, 1, 1, 1, 1, 1, 1, 1, 2, 1, 1, 1, 1, 1, 1, 1, 1, 1, 1, 1, 1, 1, 3, 1, 3, 1, 1, 1, 1, 1, 1,
   1, 3, 1, 1, 1, 1, 1, 3, 1, 3, 1, 1, 1, 1, 1, 1, 1, 3, 1, 1, 1, 1, 1, 1, 1, 1, 1, 1, 1, 1, 1, 1]"

definition UTF8_ACCEPT :: u32 where "UTF8_ACCEPT = 0"

definition UTF8_REJECT :: u32 where "UTF8_REJECT = 1"

definition utf8d_at :: "u32 \<Rightarrow> u32 option" where
  "utf8d_at i = (if unat i < length utf8d then Some (of_nat (utf8d ! unat i)) else None)"

text \<open>\<open>decode\<close>: the state and the code point; \<open>None\<close> reads behind the table.\<close>

definition utf8_decode :: "u32 \<times> u32 \<Rightarrow> u32 \<Rightarrow> (u32 \<times> u32) option" where
  "utf8_decode = (\<lambda>(state, codep) byte.
     (case utf8d_at byte of
        None \<Rightarrow> None
      | Some ty \<Rightarrow>
          (let codep' = (if state \<noteq> UTF8_ACCEPT
                         then (byte AND 0x3F) OR push_bit 6 codep
                         else drop_bit (unat ty) 0xFF AND byte)
           in map_option (\<lambda>state'. (state', codep')) (utf8d_at (256 + state * 16 + ty)))))"

fun utf8_loop :: "u8 list \<Rightarrow> u32 \<times> u32 \<Rightarrow> (u32 \<times> u32) option" where
  "utf8_loop [] sc = Some sc"
| "utf8_loop (b # bs) sc = (case utf8_decode sc (ucast b) of None \<Rightarrow> None | Some sc' \<Rightarrow> utf8_loop bs sc')"

text \<open>
  \<open>is_utf8_len\<close> and \<open>is_utf8\<close> start with an uninitialised code point, an argument here.
  \<open>is_utf8\<close> reads up to the first NUL.
\<close>

definition is_utf8_len :: "u32 \<Rightarrow> u8 list \<Rightarrow> nat \<Rightarrow> bool option" where
  "is_utf8_len codepoint s len = (case mem_read s 0 len of
     None \<Rightarrow> None
   | Some bs \<Rightarrow> map_option (\<lambda>sc. fst sc = UTF8_ACCEPT) (utf8_loop bs (0, codepoint)))"

definition is_utf8 :: "u32 \<Rightarrow> u8 list \<Rightarrow> bool option" where
  "is_utf8 codepoint s =
     (if 0 \<in> set s
      then map_option (\<lambda>sc. fst sc = UTF8_ACCEPT) (utf8_loop (takeWhile (\<lambda>b. b \<noteq> 0) s) (0, codepoint))
      else None)"

definition is_utf8_len_state :: "u8 list \<Rightarrow> nat \<Rightarrow> u32 \<Rightarrow> u32 option" where
  "is_utf8_len_state s len state = (case mem_read s 0 len of
     None \<Rightarrow> None
   | Some bs \<Rightarrow> map_option fst (utf8_loop bs (state, 0)))"

section \<open>The tables as ranges\<close>

text \<open>The class of a byte, and the automaton on states and bytes.\<close>

definition byte_class :: "nat \<Rightarrow> nat" where
  "byte_class b =
     (if b < 0x80 then 0 else if b < 0x90 then 1 else if b < 0xA0 then 9 else if b < 0xC0 then 7
      else if b < 0xC2 then 8 else if b < 0xE0 then 2 else if b = 0xE0 then 10
      else if b = 0xED then 4 else if b < 0xF0 then 3 else if b = 0xF0 then 11
      else if b < 0xF4 then 6 else if b = 0xF4 then 5 else 8)"

definition range_step :: "nat \<Rightarrow> nat \<Rightarrow> nat" where
  "range_step s b =
     (if s = 0 then
        (if b < 0x80 then 0 else if b < 0xC2 then 1 else if b < 0xE0 then 2 else if b = 0xE0 then 4
         else if b = 0xED then 5 else if b < 0xF0 then 3 else if b = 0xF0 then 6
         else if b < 0xF4 then 7 else if b = 0xF4 then 8 else 1)
      else if s = 2 \<and> 0x80 \<le> b \<and> b < 0xC0 then 0
      else if s = 3 \<and> 0x80 \<le> b \<and> b < 0xC0 then 2
      else if s = 4 \<and> 0xA0 \<le> b \<and> b < 0xC0 then 2
      else if s = 5 \<and> 0x80 \<le> b \<and> b < 0xA0 then 2
      else if s = 6 \<and> 0x90 \<le> b \<and> b < 0xC0 then 3
      else if s = 7 \<and> 0x80 \<le> b \<and> b < 0xC0 then 3
      else if s = 8 \<and> 0x80 \<le> b \<and> b < 0x90 then 3
      else 1)"

lemma length_utf8d: "length utf8d = 400"
  by (simp add: utf8d_def)

lemma utf8d_classes: "take 256 utf8d = map byte_class [0..<256]"
  unfolding utf8d_def byte_class_def by code_simp

lemma utf8d_rows: "drop 256 utf8d = concat
  [[0, 1, 2, 3, 5, 8, 7, 1, 1, 1, 4, 6, 1, 1, 1, 1],
   [1, 1, 1, 1, 1, 1, 1, 1, 1, 1, 1, 1, 1, 1, 1, 1],
   [1, 0, 1, 1, 1, 1, 1, 0, 1, 0, 1, 1, 1, 1, 1, 1],
   [1, 2, 1, 1, 1, 1, 1, 2, 1, 2, 1, 1, 1, 1, 1, 1],
   [1, 1, 1, 1, 1, 1, 1, 2, 1, 1, 1, 1, 1, 1, 1, 1],
   [1, 2, 1, 1, 1, 1, 1, 1, 1, 2, 1, 1, 1, 1, 1, 1],
   [1, 1, 1, 1, 1, 1, 1, 3, 1, 3, 1, 1, 1, 1, 1, 1],
   [1, 3, 1, 1, 1, 1, 1, 3, 1, 3, 1, 1, 1, 1, 1, 1],
   [1, 3, 1, 1, 1, 1, 1, 1, 1, 1, 1, 1, 1, 1, 1, 1]]"
  by (simp add: utf8d_def)

lemma utf8d_step:
  assumes "s < 9" and "b < 256"
  shows "utf8d ! (256 + (s * 16 + byte_class b)) = range_step s b"
proof -
  have "s * 16 + byte_class b < 144" using assms by (simp add: byte_class_def)
  then have "utf8d ! (256 + (s * 16 + byte_class b)) = drop 256 utf8d ! (s * 16 + byte_class b)"
    by (simp add: length_utf8d)
  moreover consider "s = 0" | "s = 1" | "s = 2" | "s = 3" | "s = 4" | "s = 5" | "s = 6" | "s = 7" | "s = 8"
    using assms(1) by linarith
  then have "drop 256 utf8d ! (s * 16 + byte_class b) = range_step s b"
    unfolding utf8d_rows by cases (simp_all add: byte_class_def range_step_def)
  ultimately show ?thesis by simp
qed

end
