(* ===== verification/Utf8_Correct.thy ===== *)
theory Utf8_Correct
  imports Utf8
begin

text \<open>
  utf8.c against RFC 3629: the automaton accepts exactly the concatenations of the
  encodings of Unicode scalar values, and delivers the code points on the way.
\<close>

section \<open>RFC 3629\<close>

definition scalar_value :: "nat \<Rightarrow> bool" where
  "scalar_value cp \<longleftrightarrow> cp < 0x110000 \<and> \<not> (0xD800 \<le> cp \<and> cp < 0xE000)"

definition utf8_enc :: "nat \<Rightarrow> nat list" where
  "utf8_enc cp =
     (if cp < 0x80 then [cp]
      else if cp < 0x800 then [0xC0 + cp div 64, 0x80 + cp mod 64]
      else if cp < 0x10000 then [0xE0 + cp div 4096, 0x80 + cp div 64 mod 64, 0x80 + cp mod 64]
      else [0xF0 + cp div 262144, 0x80 + cp div 4096 mod 64, 0x80 + cp div 64 mod 64, 0x80 + cp mod 64])"

definition utf8_text :: "nat list \<Rightarrow> bool" where
  "utf8_text bs \<longleftrightarrow> (\<exists>cps. (\<forall>cp \<in> set cps. scalar_value cp) \<and> bs = concat (map utf8_enc cps))"

text \<open>Encodings by the digits to base 64 of the code point.\<close>

lemma digit64: "z < 64 \<Longrightarrow> (x * 64 + z) div 64 = x \<and> (x * 64 + z) mod 64 = z" for x z :: nat
  by simp

lemma utf8_enc_digits:
  "\<lbrakk>2 \<le> x; x < 32; z < 64\<rbrakk> \<Longrightarrow> utf8_enc (x * 64 + z) = [0xC0 + x, 0x80 + z]"
  "\<lbrakk>x < 16; y < 64; z < 64; 32 \<le> x * 64 + y\<rbrakk> \<Longrightarrow>
   utf8_enc ((x * 64 + y) * 64 + z) = [0xE0 + x, 0x80 + y, 0x80 + z]"
  "\<lbrakk>w < 8; x < 64; y < 64; z < 64; 16 \<le> w * 64 + x\<rbrakk> \<Longrightarrow>
   utf8_enc (((w * 64 + x) * 64 + y) * 64 + z) = [0xF0 + w, 0x80 + x, 0x80 + y, 0x80 + z]"
proof -
  have d: "n div 4096 = n div 64 div 64" "n div 262144 = n div 64 div 64 div 64" for n :: nat
    by (simp_all add: div_mult2_eq[symmetric])
  show "\<lbrakk>2 \<le> x; x < 32; z < 64\<rbrakk> \<Longrightarrow> utf8_enc (x * 64 + z) = [0xC0 + x, 0x80 + z]"
    by (simp add: utf8_enc_def)
  show "utf8_enc ((x * 64 + y) * 64 + z) = [0xE0 + x, 0x80 + y, 0x80 + z]"
    if "x < 16" "y < 64" "z < 64" "32 \<le> x * 64 + y"
  proof -
    note n = digit64[OF that(3), of "x * 64 + y", THEN conjunct1] digit64[OF that(3), of "x * 64 + y", THEN conjunct2]
      digit64[OF that(2), of x, THEN conjunct1] digit64[OF that(2), of x, THEN conjunct2]
    show ?thesis unfolding utf8_enc_def d n using that by simp
  qed
  show "utf8_enc (((w * 64 + x) * 64 + y) * 64 + z) = [0xF0 + w, 0x80 + x, 0x80 + y, 0x80 + z]"
    if "w < 8" "x < 64" "y < 64" "z < 64" "16 \<le> w * 64 + x"
  proof -
    note n = digit64[OF that(4), of "(w * 64 + x) * 64 + y", THEN conjunct1]
      digit64[OF that(4), of "(w * 64 + x) * 64 + y", THEN conjunct2]
      digit64[OF that(3), of "w * 64 + x", THEN conjunct1] digit64[OF that(3), of "w * 64 + x", THEN conjunct2]
      digit64[OF that(2), of w, THEN conjunct1] digit64[OF that(2), of w, THEN conjunct2]
    show ?thesis unfolding utf8_enc_def d n using that by simp
  qed
qed

section \<open>The automaton\<close>

definition range_run :: "nat \<Rightarrow> nat list \<Rightarrow> nat" where
  "range_run s bs = fold (\<lambda>b s. range_step s b) bs s"

lemma range_run_simps [simp]:
  "range_run s [] = s" "range_run s (b # bs) = range_run (range_step s b) bs"
  "range_run s (xs @ ys) = range_run (range_run s xs) ys"
  by (simp_all add: range_run_def)

lemma range_step_less: "range_step s b < 9"
  by (simp add: range_step_def)

lemma rejected: "range_run 1 bs = 1"
  by (induction bs) (simp_all add: range_step_def)

text \<open>What has to follow in each state for the text to be accepted.\<close>

lemma accept_next:
  assumes "range_run s bs = 0" and "s \<noteq> 0"
  obtains c cs where "bs = c # cs" and "range_step s c \<noteq> 1" and "range_run (range_step s c) cs = 0"
proof (cases bs)
  case (Cons c cs)
  with assms(1) rejected[of cs] have "range_step s c \<noteq> 1" by auto
  with Cons assms(1) that show ?thesis by simp
qed (use assms in simp)

lemma range_step_tail:
  "s \<noteq> 0 \<Longrightarrow> range_step s c \<noteq> 1 \<Longrightarrow> 0x80 \<le> c \<and> c < 0xC0 \<and>
    (s = 2 \<and> range_step s c = 0 \<or> s = 3 \<and> range_step s c = 2 \<or>
     s = 4 \<and> 0xA0 \<le> c \<and> range_step s c = 2 \<or> s = 5 \<and> c < 0xA0 \<and> range_step s c = 2 \<or>
     s = 6 \<and> 0x90 \<le> c \<and> range_step s c = 3 \<or> s = 7 \<and> range_step s c = 3 \<or>
     s = 8 \<and> c < 0x90 \<and> range_step s c = 3)"
  by (auto simp: range_step_def split: if_splits)

lemma accept_one:
  assumes "range_run 2 bs = 0"
  obtains c cs where "bs = c # cs" and "0x80 \<le> c" "c < 0xC0" and "range_run 0 cs = 0"
proof -
  from accept_next[OF assms] obtain c cs where
    "bs = c # cs" "range_step 2 c \<noteq> 1" "range_run (range_step 2 c) cs = 0" by (metis zero_neq_numeral)
  with range_step_tail[of 2 c] that show ?thesis by auto
qed

lemma accept_two:
  assumes "range_run s bs = 0" and "s = 3 \<or> s = 4 \<or> s = 5"
  obtains c d cs where "bs = c # d # cs" and "0x80 \<le> c" "c < 0xC0" "s = 4 \<longrightarrow> 0xA0 \<le> c" "s = 5 \<longrightarrow> c < 0xA0"
    and "0x80 \<le> d" "d < 0xC0" and "range_run 0 cs = 0"
proof -
  from assms(2) have "s \<noteq> 0" by auto
  from accept_next[OF assms(1) this] obtain c cs where
    c: "bs = c # cs" "range_step s c \<noteq> 1" "range_run (range_step s c) cs = 0" .
  with range_step_tail[of s c] assms(2) have s: "range_run 2 cs = 0" "0x80 \<le> c" "c < 0xC0"
    "s = 4 \<longrightarrow> 0xA0 \<le> c" "s = 5 \<longrightarrow> c < 0xA0" by auto
  from accept_one[OF s(1)] obtain d ds where "cs = d # ds" "0x80 \<le> d" "d < 0xC0" "range_run 0 ds = 0" .
  with c(1) s that show ?thesis by blast
qed

lemma accept_three:
  assumes "range_run s bs = 0" and "s = 6 \<or> s = 7 \<or> s = 8"
  obtains c d e cs where "bs = c # d # e # cs" and "0x80 \<le> c" "c < 0xC0" "s = 6 \<longrightarrow> 0x90 \<le> c" "s = 8 \<longrightarrow> c < 0x90"
    and "0x80 \<le> d" "d < 0xC0" "0x80 \<le> e" "e < 0xC0" and "range_run 0 cs = 0"
proof -
  from assms(2) have "s \<noteq> 0" by auto
  from accept_next[OF assms(1) this] obtain c cs where
    c: "bs = c # cs" "range_step s c \<noteq> 1" "range_run (range_step s c) cs = 0" .
  with range_step_tail[of s c] assms(2) have s: "range_run 3 cs = 0" "0x80 \<le> c" "c < 0xC0"
    "s = 6 \<longrightarrow> 0x90 \<le> c" "s = 8 \<longrightarrow> c < 0x90" by auto
  from accept_two[OF s(1)] obtain d e ds where "cs = d # e # ds" "0x80 \<le> d" "d < 0xC0"
    "0x80 \<le> e" "e < 0xC0" "range_run 0 ds = 0" by auto
  with c(1) s that show ?thesis by blast
qed

text \<open>What follows a leading byte of two, three and four bytes.\<close>

lemma accept_lead2:
  assumes "0xC2 \<le> b" and "b < 0xE0" and "range_run 2 bs = 0"
  shows "\<exists>cp cs. b # bs = utf8_enc cp @ cs \<and> scalar_value cp \<and> range_run 0 cs = 0"
proof -
  from assms(3) obtain c cs where c: "bs = c # cs" "0x80 \<le> c" "c < 0xC0" "range_run 0 cs = 0" by (rule accept_one)
  define x y where "x = b - 0xC0" and "y = c - 0x80"
  with c assms have xy: "b = 0xC0 + x" "c = 0x80 + y" "2 \<le> x" "x < 32" "y < 64" by simp_all
  then have "utf8_enc (x * 64 + y) = [b, c]" by (simp add: utf8_enc_digits)
  then show ?thesis using c xy
    by (intro exI[of _ "x * 64 + y"] exI[of _ cs]) (simp add: scalar_value_def)
qed

lemma accept_lead3:
  assumes b: "0xE0 \<le> b" "b < 0xF0" and r: "r = 3 \<or> r = 4 \<or> r = 5" "b = 0xE0 \<longrightarrow> r = 4" "b = 0xED \<longrightarrow> r = 5"
    and run: "range_run r bs = 0"
  shows "\<exists>cp cs. b # bs = utf8_enc cp @ cs \<and> scalar_value cp \<and> range_run 0 cs = 0"
proof -
  from accept_two[OF run r(1)] obtain c d cs where c: "bs = c # d # cs" "0x80 \<le> c" "c < 0xC0" "r = 4 \<longrightarrow> 0xA0 \<le> c"
    "r = 5 \<longrightarrow> c < 0xA0" "0x80 \<le> d" "d < 0xC0" "range_run 0 cs = 0" .
  define x y z where "x = b - 0xE0" and "y = c - 0x80" and "z = d - 0x80"
  with c b have digits: "b = 0xE0 + x" "c = 0x80 + y" "d = 0x80 + z" "x < 16" "y < 64" "z < 64" by simp_all
  moreover have "x = 0 \<longrightarrow> 32 \<le> y" "x = 13 \<longrightarrow> y < 32" using c r digits by auto
  ultimately have xyz: "b = 0xE0 + x" "c = 0x80 + y" "d = 0x80 + z" "x < 16" "y < 64" "z < 64"
    "x = 0 \<longrightarrow> 32 \<le> y" "x = 13 \<longrightarrow> y < 32" by simp_all
  then have "32 \<le> x * 64 + y" by (cases "x = 0") simp_all
  with xyz have "utf8_enc ((x * 64 + y) * 64 + z) = [b, c, d]"
    using utf8_enc_digits(2)[of x y z] by simp
  moreover have "scalar_value ((x * 64 + y) * 64 + z)"
    using xyz by (cases "x = 13"; cases "x < 13") (simp_all add: scalar_value_def)
  ultimately show ?thesis using c
    by (intro exI[of _ "(x * 64 + y) * 64 + z"] exI[of _ cs]) simp
qed

lemma accept_lead4:
  assumes b: "0xF0 \<le> b" "b < 0xF5" and r: "r = 6 \<or> r = 7 \<or> r = 8" "b = 0xF0 \<longrightarrow> r = 6" "b = 0xF4 \<longrightarrow> r = 8"
    and run: "range_run r bs = 0"
  shows "\<exists>cp cs. b # bs = utf8_enc cp @ cs \<and> scalar_value cp \<and> range_run 0 cs = 0"
proof -
  from accept_three[OF run r(1)] obtain c d e cs where c: "bs = c # d # e # cs" "0x80 \<le> c" "c < 0xC0"
    "r = 6 \<longrightarrow> 0x90 \<le> c" "r = 8 \<longrightarrow> c < 0x90" "0x80 \<le> d" "d < 0xC0" "0x80 \<le> e" "e < 0xC0" "range_run 0 cs = 0" .
  define w x y z where "w = b - 0xF0" and "x = c - 0x80" and "y = d - 0x80" and "z = e - 0x80"
  with c b have digits: "b = 0xF0 + w" "c = 0x80 + x" "d = 0x80 + y" "e = 0x80 + z" "w < 5" "x < 64"
    "y < 64" "z < 64" by simp_all
  moreover have "w = 0 \<longrightarrow> 16 \<le> x" "w = 4 \<longrightarrow> x < 16" using c r digits by auto
  ultimately have wxyz: "b = 0xF0 + w" "c = 0x80 + x" "d = 0x80 + y" "e = 0x80 + z" "w < 5" "x < 64"
    "y < 64" "z < 64" "w = 0 \<longrightarrow> 16 \<le> x" "w = 4 \<longrightarrow> x < 16" by simp_all
  then have "16 \<le> w * 64 + x" by (cases "w = 0") simp_all
  with wxyz have "utf8_enc (((w * 64 + x) * 64 + y) * 64 + z) = [b, c, d, e]"
    using utf8_enc_digits(3)[of w x y z] by simp
  moreover have "scalar_value (((w * 64 + x) * 64 + y) * 64 + z)"
    using wxyz \<open>16 \<le> w * 64 + x\<close> by (cases "w = 4") (simp_all add: scalar_value_def)
  ultimately show ?thesis using c
    by (intro exI[of _ "((w * 64 + x) * 64 + y) * 64 + z"] exI[of _ cs]) simp
qed

lemma accept_first:
  assumes "range_run 0 (b # bs) = 0"
  shows "\<exists>cp cs. b # bs = utf8_enc cp @ cs \<and> scalar_value cp \<and> range_run 0 cs = 0"
proof -
  have run: "range_run (range_step 0 b) bs = 0" using assms by simp
  then have no1: "range_step 0 b \<noteq> 1" using rejected[of bs] by auto
  then consider "b < 0x80" "range_step 0 b = 0" | "0xC2 \<le> b" "b < 0xE0" "range_step 0 b = 2"
    | "0xE0 \<le> b" "b < 0xF0" "range_step 0 b \<in> {3, 4, 5}" "b = 0xE0 \<longrightarrow> range_step 0 b = 4"
      "b = 0xED \<longrightarrow> range_step 0 b = 5"
    | "0xF0 \<le> b" "b < 0xF5" "range_step 0 b \<in> {6, 7, 8}" "b = 0xF0 \<longrightarrow> range_step 0 b = 6"
      "b = 0xF4 \<longrightarrow> range_step 0 b = 8"
    by (auto simp: range_step_def split: if_splits)
  then show ?thesis
  proof cases
    case 1
    then show ?thesis using run
      by (intro exI[of _ b] exI[of _ bs]) (simp add: utf8_enc_def scalar_value_def)
  next
    case 2
    with run accept_lead2[of b bs] show ?thesis by simp
  next
    case 3
    with run show ?thesis by (intro accept_lead3[of b "range_step 0 b"]) simp_all
  next
    case 4
    with run show ?thesis by (intro accept_lead4[of b "range_step 0 b"]) simp_all
  qed
qed

text \<open>The code point by its digits.\<close>

lemma scalar_value_cases:
  assumes "scalar_value cp"
  obtains (ascii) "cp < 0x80" "utf8_enc cp = [cp]"
  | (two) x z where "cp = x * 64 + z" "2 \<le> x" "x < 32" "z < 64" "utf8_enc cp = [0xC0 + x, 0x80 + z]"
  | (three) x y z where "cp = (x * 64 + y) * 64 + z" "x < 16" "y < 64" "z < 64" "x = 0 \<longrightarrow> 32 \<le> y"
      "x = 13 \<longrightarrow> y < 32" "utf8_enc cp = [0xE0 + x, 0x80 + y, 0x80 + z]"
  | (four) w x y z where "cp = ((w * 64 + x) * 64 + y) * 64 + z" "w < 5" "x < 64" "y < 64" "z < 64"
      "w = 0 \<longrightarrow> 16 \<le> x" "w = 4 \<longrightarrow> x < 16" "utf8_enc cp = [0xF0 + w, 0x80 + x, 0x80 + y, 0x80 + z]"
proof -
  define z y x w where "z = cp mod 64" and "y = cp div 64 mod 64" and "x = cp div 64 div 64 mod 64"
    and "w = cp div 64 div 64 div 64"
  have cp: "cp = ((w * 64 + x) * 64 + y) * 64 + z" and b: "x < 64" "y < 64" "z < 64"
    by (simp_all add: w_def x_def y_def z_def)
  have v: "cp < 0x110000" "cp < 0xD800 \<or> 0xE000 \<le> cp" using assms by (auto simp: scalar_value_def)
  consider "cp < 0x80" | "0x80 \<le> cp" "cp < 0x800" | "0x800 \<le> cp" "cp < 0x10000" | "0x10000 \<le> cp" by linarith
  then show thesis
  proof cases
    case 1
    then show ?thesis by (intro ascii) (simp_all add: utf8_enc_def)
  next
    case 2
    then have "w = 0" "x = 0" using cp by simp_all
    with 2 cp b show ?thesis by (intro two[of y z]) (simp_all add: utf8_enc_digits)
  next
    case 3
    then have "w = 0" using cp by simp
    moreover have "x < 16" "32 \<le> x * 64 + y" using 3 cp \<open>w = 0\<close> b by simp_all
    moreover have "x = 13 \<longrightarrow> y < 32" using v cp \<open>w = 0\<close> b by auto
    ultimately show ?thesis using cp b using utf8_enc_digits(2)[of x y z]
      by (intro three[of x y z]) auto
  next
    case 4
    have "w < 5" "16 \<le> w * 64 + x" "w = 4 \<longrightarrow> x < 16" using 4 cp v b by simp_all
    with cp b show ?thesis using utf8_enc_digits(3)[of w x y z]
      by (intro four[of w x y z]) auto
  qed
qed

lemma utf8_enc_accepted: "scalar_value cp \<Longrightarrow> range_run 0 (utf8_enc cp) = 0"
  by (erule scalar_value_cases) (auto simp: range_step_def)

lemma utf8_enc_nonempty: "utf8_enc cp \<noteq> []"
  by (simp add: utf8_enc_def)

lemma accepted_text: "range_run 0 bs = 0 \<longleftrightarrow> utf8_text bs"
proof
  show "range_run 0 bs = 0 \<Longrightarrow> utf8_text bs"
  proof (induction bs rule: length_induct)
    case (1 bs)
    show ?case
    proof (cases bs)
      case Nil
      then show ?thesis unfolding utf8_text_def by (intro exI[of _ "[]"]) simp
    next
      case (Cons b bs')
      with accept_first[of b bs'] 1(2) obtain cp cs where
        c: "bs = utf8_enc cp @ cs" "scalar_value cp" "range_run 0 cs = 0" by auto
      then have "length cs < length bs" using utf8_enc_nonempty[of cp] by simp
      with 1(1) c(3) obtain cps where "\<forall>cp \<in> set cps. scalar_value cp" "cs = concat (map utf8_enc cps)"
        by (auto simp: utf8_text_def)
      with c show ?thesis unfolding utf8_text_def by (intro exI[of _ "cp # cps"]) simp
    qed
  qed
  have "range_run 0 (concat (map utf8_enc cps)) = 0" if "\<forall>cp \<in> set cps. scalar_value cp" for cps
    using that by (induction cps) (simp_all add: utf8_enc_accepted)
  then show "utf8_text bs \<Longrightarrow> range_run 0 bs = 0" by (auto simp: utf8_text_def)
qed

section \<open>The code is the automaton\<close>

lemma of_nat_u32_small: "n < 256 \<Longrightarrow> (of_nat n :: u32) = 0 \<longleftrightarrow> n = 0"
  by (auto simp: word_of_nat_eq_0_iff dest: dvd_imp_le)

lemma utf8d_at_class: "b < 256 \<Longrightarrow> utf8d_at (of_nat b) = Some (of_nat (byte_class b))"
proof -
  assume b: "b < 256"
  have "utf8d ! b = take 256 utf8d ! b" using b by simp
  also have "\<dots> = byte_class b" unfolding utf8d_classes using b by (simp del: upt.simps)
  finally show ?thesis using b by (simp add: utf8d_at_def length_utf8d unat_of_nat)
qed

lemma utf8d_at_step:
  assumes "s < 9" and "b < 256"
  shows "utf8d_at (256 + of_nat s * 16 + of_nat (byte_class b)) = Some (of_nat (range_step s b))"
proof -
  let ?i = "256 + (s * 16 + byte_class b)"
  have c: "byte_class b < 12" by (simp add: byte_class_def)
  then have i: "?i < 400" using assms(1) by simp
  have e: "256 + of_nat s * 16 + of_nat (byte_class b) = (of_nat ?i :: u32)" by simp
  have u: "unat (of_nat ?i :: u32) = ?i" using i by (simp add: unat_of_nat del: of_nat_add)
  show ?thesis
    unfolding utf8d_at_def length_utf8d e u using i utf8d_step[OF assms] by simp
qed

definition next_codep :: "nat \<Rightarrow> u32 \<Rightarrow> nat \<Rightarrow> u32" where
  "next_codep s codep b =
     (if s \<noteq> 0 then (of_nat b AND 0x3F) OR push_bit 6 codep else drop_bit (byte_class b) 0xFF AND of_nat b)"

lemma decode_range:
  assumes "s < 9" and "b < 256"
  shows "utf8_decode (of_nat s, codep) (of_nat b) =
    Some (of_nat (range_step s b), next_codep s codep b)"
proof -
  have "byte_class b < 12" by (simp add: byte_class_def)
  then have "unat (of_nat (byte_class b) :: u32) = byte_class b" by (simp add: unat_of_nat)
  moreover have "(of_nat s :: u32) = UTF8_ACCEPT \<longleftrightarrow> s = 0"
    using assms(1) by (simp add: UTF8_ACCEPT_def of_nat_u32_small)
  ultimately show ?thesis
    using utf8d_at_class[OF assms(2)] utf8d_at_step[OF assms]
    by (simp add: utf8_decode_def next_codep_def Let_def)
qed

lemma loop_range:
  "s < 9 \<Longrightarrow> \<exists>codep'. utf8_loop bs (of_nat s, codep) = Some (of_nat (range_run s (map unat bs)), codep')"
proof (induction bs arbitrary: s codep)
  case (Cons b bs)
  have "unat b < 256" using unsigned_less[of b] by simp
  from decode_range[OF Cons.prems this] Cons.IH[OF range_step_less] show ?case by simp
qed simp

lemma loop_append:
  "utf8_loop (xs @ ys) sc = (case utf8_loop xs sc of None \<Rightarrow> None | Some sc' \<Rightarrow> utf8_loop ys sc')"
  by (induction xs arbitrary: sc) (simp_all split: option.split)

lemma loop_accepts: "\<exists>codep'. utf8_loop bs (0, codep) = Some (of_nat (range_run 0 (map unat bs)), codep')"
  using loop_range[of 0 bs] by simp

text \<open>Code points: leading bytes and continuation bytes.\<close>

lemma low_bits: "(of_nat n :: u32) AND mask k = of_nat (n mod 2 ^ k)" if "k \<le> 32"
  using that by (simp add: take_bit_eq_mask[symmetric] take_bit_of_nat min_absorb2 flip: take_bit_eq_mod)

lemma masks: "(0x3F :: u32) = mask 6" "(0x1F :: u32) = mask 5" "(0x0F :: u32) = mask 4" "(7 :: u32) = mask 3"
    "(3 :: u32) = mask 2" "(0xFF :: u32) = mask 8"
  by (simp_all add: mask_eq_exp_minus_1)

lemma next_codep_tail:
  assumes "s \<noteq> 0" and "z < 64"
  shows "next_codep s (of_nat n) (0x80 + z) = of_nat (n * 64 + z)"
proof -
  have z: "(0x80 + z) mod 2 ^ 6 = z" using assms(2) mod_mult_self2[of z 64 2] by (simp add: add.commute)
  have "take_bit 6 (of_nat z :: u32) = of_nat (take_bit 6 z)" by (rule take_bit_of_nat)
  also have "take_bit 6 z = z" using assms(2) by (simp add: take_bit_eq_mod)
  finally have "(of_nat z :: u32) = take_bit 6 (of_nat z)" by simp
  moreover have "take_bit 6 (v :: u32) AND push_bit 6 u = 0" for u v
    by (rule bit_word_eqI) (auto simp: bit_simps)
  ultimately have "(of_nat z :: u32) AND push_bit 6 (of_nat n) = 0" by metis
  then have "(of_nat z :: u32) OR push_bit 6 (of_nat n) = of_nat z + push_bit 6 (of_nat n)"
    by (rule disjunctive_add_eq_or[symmetric])
  also have "\<dots> = of_nat (n * 64 + z)" by (simp add: push_bit_eq_mult)
  finally have "(of_nat z :: u32) OR push_bit 6 (of_nat n) = of_nat (n * 64 + z)" .
  moreover have "(of_nat (0x80 + z) :: u32) AND 0x3F = of_nat z"
    unfolding masks low_bits[of 6, simplified] using z by (simp add: low_bits del: of_nat_add)
  ultimately show ?thesis using assms(1) by (simp only: next_codep_def not_False_eq_True if_True)
qed

lemma loop_step:
  assumes "s < 9" and "b < 256"
  shows "utf8_loop (of_nat b # bs) (of_nat s, codep) = utf8_loop bs (of_nat (range_step s b), next_codep s codep b)"
proof -
  have "(ucast (of_nat b :: u8) :: u32) = of_nat b"
    using assms(2) by (simp add: unsigned_of_nat take_bit_eq_mod)
  then show ?thesis using decode_range[OF assms] by simp
qed

lemma drops: "drop_bit 0 (0xFF :: u32) = mask 8" "drop_bit 2 (0xFF :: u32) = mask 6" "drop_bit 3 (0xFF :: u32) = mask 5"
    "drop_bit 4 (0xFF :: u32) = mask 4" "drop_bit 5 (0xFF :: u32) = mask 3" "drop_bit 6 (0xFF :: u32) = mask 2"
    "drop_bit 10 (0xFF :: u32) = mask 0" "drop_bit 11 (0xFF :: u32) = mask 0"
  by (simp_all add: mask_eq_exp_minus_1)

lemma next_codep_lead:
  assumes "byte_class b = c" and "drop_bit c 0xFF = (mask k :: u32)" and "k \<le> 8"
  shows "next_codep 0 codep b = of_nat (b mod 2 ^ k)"
  using assms by (simp add: next_codep_def low_bits and.commute[of "mask k"])

lemma lead_ascii: "b < 0x80 \<Longrightarrow> next_codep 0 codep b = of_nat b"
  using next_codep_lead[OF _ drops(1), of b codep] by (simp add: byte_class_def)

lemma lead_two: "2 \<le> x \<Longrightarrow> x < 32 \<Longrightarrow> next_codep 0 codep (0xC0 + x) = of_nat x"
  using next_codep_lead[OF _ drops(2), of "0xC0 + x" codep] mod_mult_self2[of x 64 3]
  by (simp add: byte_class_def add.commute)

lemma lead_three: "x < 16 \<Longrightarrow> next_codep 0 codep (0xE0 + x) = of_nat x"
proof -
  assume x: "x < 16"
  consider "x = 0" | "x = 13" | "x \<noteq> 0" "x \<noteq> 13" by blast
  then show ?thesis
  proof cases
    case 3
    with x mod_mult_self2[of x 32 7] next_codep_lead[OF _ drops(3), of "0xE0 + x" codep] show ?thesis
      by (simp add: byte_class_def add.commute)
  qed (use next_codep_lead[OF _ drops(7), of "0xE0" codep] next_codep_lead[OF _ drops(4), of "0xED" codep] in
      \<open>simp_all add: byte_class_def\<close>)
qed

lemma lead_four: "w < 5 \<Longrightarrow> next_codep 0 codep (0xF0 + w) = of_nat w"
proof -
  assume "w < 5"
  then consider "w = 0" | "w = 4" | "w \<noteq> 0" "w < 4" by linarith
  then show ?thesis
  proof cases
    case 3
    with mod_mult_self2[of w 4 60] next_codep_lead[OF _ drops(6), of "0xF0 + w" codep] show ?thesis
      by (simp add: byte_class_def add.commute)
  qed (use next_codep_lead[OF _ drops(8), of "0xF0" codep] next_codep_lead[OF _ drops(5), of "0xF4" codep] in
      \<open>simp_all add: byte_class_def\<close>)
qed

text \<open>The steps of one encoding, given its states.\<close>

lemma tail_step:
  assumes "s < 9" and "s \<noteq> 0" and "z < 64" and "range_step s (0x80 + z) = s'"
  shows "utf8_loop (of_nat (0x80 + z) # bs) (of_nat s, of_nat n) = utf8_loop bs (of_nat s', of_nat (n * 64 + z))"
  using loop_step[of s "0x80 + z" bs "of_nat n"] next_codep_tail[OF assms(2,3), of n] assms
  by (simp del: of_nat_add utf8_loop.simps)

lemma decode_enc:
  assumes "scalar_value cp"
  shows "utf8_loop (map of_nat (utf8_enc cp) @ bs) (0, codep) = utf8_loop bs (0, of_nat cp)"
  using assms
proof (cases rule: scalar_value_cases)
  case ascii
  then show ?thesis
    using loop_step[of 0 cp bs codep] lead_ascii[of cp codep]
    by (simp add: range_step_def del: utf8_loop.simps)
next
  case (two x z)
  then have "range_step 0 (0xC0 + x) = 2" "range_step 2 (0x80 + z) = 0" by (simp_all add: range_step_def)
  with two show ?thesis
    using loop_step[of 0 "0xC0 + x" "of_nat (0x80 + z) # bs" codep] tail_step[of 2 z 0 bs x]
    by (simp add: lead_two del: of_nat_add utf8_loop.simps)
next
  case (three x y z)
  define s where "s = range_step 0 (0xE0 + x)"
  have "s = 3 \<or> s = 4 \<or> s = 5" "range_step s (0x80 + y) = 2" "range_step 2 (0x80 + z) = 0"
    using three by (auto simp: range_step_def s_def)
  with three show ?thesis
    using loop_step[of 0 "0xE0 + x" "of_nat (0x80 + y) # of_nat (0x80 + z) # bs" codep, folded s_def]
      tail_step[of s y 2 "of_nat (0x80 + z) # bs" x] tail_step[of 2 z 0 bs "x * 64 + y"]
    by (auto simp: lead_three simp del: of_nat_add of_nat_mult utf8_loop.simps)
next
  case (four w x y z)
  define s where "s = range_step 0 (0xF0 + w)"
  have "s = 6 \<or> s = 7 \<or> s = 8" "range_step s (0x80 + x) = 3" "range_step 3 (0x80 + y) = 2"
    "range_step 2 (0x80 + z) = 0"
    using four by (auto simp: range_step_def s_def)
  with four show ?thesis
    using loop_step[of 0 "0xF0 + w" "of_nat (0x80 + x) # of_nat (0x80 + y) # of_nat (0x80 + z) # bs" codep, folded s_def]
      tail_step[of s x 3 "of_nat (0x80 + y) # of_nat (0x80 + z) # bs" w]
      tail_step[of 3 y 2 "of_nat (0x80 + z) # bs" "w * 64 + x"] tail_step[of 2 z 0 bs "(w * 64 + x) * 64 + y"]
    by (auto simp: lead_four simp del: of_nat_add of_nat_mult utf8_loop.simps)
qed

section \<open>Properties\<close>

lemma range_run_less: "s < 9 \<Longrightarrow> range_run s bs < 9"
  by (induction bs arbitrary: s) (simp_all add: range_step_less)

lemma loop_result:
  "map_option (\<lambda>sc. fst sc = UTF8_ACCEPT) (utf8_loop bs (0, codep)) = Some (utf8_text (map unat bs))"
proof -
  obtain c where "utf8_loop bs (0, codep) = Some (of_nat (range_run 0 (map unat bs)), c)"
    using loop_accepts by blast
  moreover have "(of_nat (range_run 0 (map unat bs)) :: u32) = 0 \<longleftrightarrow> range_run 0 (map unat bs) = 0"
    using range_run_less[of 0 "map unat bs"] by (intro of_nat_u32_small) simp
  ultimately show ?thesis by (simp add: UTF8_ACCEPT_def accepted_text)
qed

text \<open>
  C18. \<open>is_utf8_len\<close> accepts exactly the texts of RFC 3629, whatever bytes it is given: sequences of
  encodings of Unicode scalar values, U+0000 included, so no overlong forms, no surrogates, nothing above
  U+10FFFF and no truncated character. \<open>is_utf8\<close>, which takes a C string, does so for the bytes before the first
  NUL. The uninitialised code point does not matter.
\<close>

theorem utf8_validates:
  "is_utf8_len codep (bs @ rest) (length bs) = Some (utf8_text (map unat bs)) \<and>
    (0 \<notin> set bs \<longrightarrow> is_utf8 codep (bs @ 0 # rest) = Some (utf8_text (map unat bs)))"
proof -
  have "takeWhile (\<lambda>b. b \<noteq> 0) (bs @ 0 # rest) = bs" if "0 \<notin> set bs"
    using that by (induction bs) auto
  then show ?thesis by (simp add: is_utf8_len_def is_utf8_def mem loop_result)
qed

theorem utf8_validates_witness:
  "is_utf8_len 9 [0x41, 0, 0xE2, 0x82, 0xAC] (length [0x41, 0, 0xE2, 0x82, 0xAC :: u8]) =
     Some (utf8_text [0x41, 0, 0xE2, 0x82, 0xAC]) \<and>
   is_utf8 9 [0xE2, 0x82, 0xAC, 0] = Some (utf8_text [0xE2, 0x82, 0xAC])"
  using utf8_validates[of 9 "[0x41, 0, 0xE2, 0x82, 0xAC]" "[]"] utf8_validates[of 9 "[0xE2, 0x82, 0xAC]" "[]"] by simp

text \<open>
  The decoder delivers the code points: on the encoding of a scalar value it returns to
  the accepting state with that value in \<open>codepoint\<close>.
\<close>

theorem utf8_decodes:
  assumes "scalar_value cp"
  shows "utf8_loop (map of_nat (utf8_enc cp) @ bs) (0, codep) = utf8_loop bs (0, of_nat cp)"
  by (rule decode_enc[OF assms])

theorem utf8_decodes_witness:
  "utf8_loop (map of_nat (utf8_enc 0x20AC) @ []) (0, 7) = Some (0, 0x20AC)"
proof -
  have "scalar_value 0x20AC" by (simp add: scalar_value_def)
  from utf8_decodes[OF this, of "[]" 7] show ?thesis by simp
qed

text \<open>
  A text can be checked in pieces with \<open>is_utf8_len_state\<close>: the state after the pieces
  is that of the whole, it is accepting exactly for a text, and a rejected piece is final.
\<close>

theorem utf8_streaming:
  assumes "is_utf8_len_state xs (length xs) 0 = Some st"
  shows "is_utf8_len_state ys (length ys) st = is_utf8_len_state (xs @ ys) (length (xs @ ys)) 0 \<and>
    (is_utf8_len_state ys (length ys) st = Some UTF8_ACCEPT \<longleftrightarrow> utf8_text (map unat (xs @ ys))) \<and>
    (st = UTF8_REJECT \<longrightarrow> is_utf8_len_state ys (length ys) st = Some UTF8_REJECT)"
proof -
  let ?s = "range_run 0 (map unat xs)"
  have s: "?s < 9" by (rule range_run_less) simp
  have whole: "is_utf8_len_state bs (length bs) 0 = Some (of_nat (range_run 0 (map unat bs)))" for bs
    using loop_accepts[of bs 0] by (auto simp: is_utf8_len_state_def mem)
  have st: "st = of_nat ?s" using assms whole by simp
  have run: "is_utf8_len_state ys (length ys) st = Some (of_nat (range_run ?s (map unat ys)))"
    using loop_range[OF s, of ys 0] by (auto simp: is_utf8_len_state_def mem st)
  moreover have "st = UTF8_REJECT \<Longrightarrow> ?s = 1"
  proof -
    assume "st = UTF8_REJECT"
    then have "unat st = 1" by (simp add: UTF8_REJECT_def)
    then show "?s = 1" using s by (simp add: st unat_of_nat)
  qed
  moreover have "(of_nat (range_run ?s (map unat ys)) :: u32) = 0 \<longleftrightarrow> utf8_text (map unat (xs @ ys))"
    using range_run_less[OF s, of "map unat ys"]
    by (subst of_nat_u32_small) (simp_all flip: accepted_text)
  ultimately show ?thesis
    using whole[of "xs @ ys"] by (auto simp: UTF8_ACCEPT_def UTF8_REJECT_def rejected[simplified])
qed

theorem utf8_streaming_witness:
  "is_utf8_len_state [0xC3] 1 0 = Some 2 \<and>
   (is_utf8_len_state [0xA9] 1 2 = Some UTF8_ACCEPT \<longleftrightarrow> utf8_text [0xC3, 0xA9])"
proof -
  have "utf8_loop [0xC3] (0, 0) = Some (of_nat (range_step 0 0xC3), next_codep 0 0 0xC3)"
    using loop_step[of 0 "0xC3" "[]" 0] by simp
  then have "is_utf8_len_state [0xC3] (length [0xC3 :: u8]) 0 = Some 2"
    by (simp add: is_utf8_len_state_def mem range_step_def)
  from this utf8_streaming[OF this, of "[0xA9]", THEN conjunct2, THEN conjunct1] show ?thesis by simp
qed

end
