(* ===== verification/Base64.thy ===== *)
theory Base64
  imports Prelude
begin

text \<open>
  ExtNet/common/base64.c. The encoder and the decoder write through an advancing pointer
  into a buffer whose size they compute beforehand with wrap-around; the model checks
  every write against that size. \<open>None\<close> inside a result is the null pointer.
\<close>

unbundle bit_operations_syntax

section \<open>Encoding\<close>

definition base64_table :: "u8 list" where
  "base64_table = map of_char
     ''ABCDEFGHIJKLMNOPQRSTUVWXYZabcdefghijklmnopqrstuvwxyz0123456789+/''"

definition b64_char :: "u8 \<Rightarrow> u8" where
  "b64_char i = base64_table ! unat i"

fun encode_loop ::
  "u8 list \<Rightarrow> u8 list \<times> nat \<Rightarrow> nat \<Rightarrow> (u8 list \<times> (u8 list \<times> nat) \<times> nat) option" where
  "encode_loop (x # y # z # rest) c line_len =
     (case puts [b64_char (drop_bit 2 x),
                 b64_char (push_bit 4 (x AND 0x03) OR drop_bit 4 y),
                 b64_char (push_bit 2 (y AND 0x0F) OR drop_bit 6 z),
                 b64_char (z AND 0x3F)] c of
        None \<Rightarrow> None
      | Some c1 \<Rightarrow>
          if line_len + 4 \<ge> 72
          then (case put 10 c1 of None \<Rightarrow> None | Some c2 \<Rightarrow> encode_loop rest c2 0)
          else encode_loop rest c1 (line_len + 4))"
| "encode_loop rest c line_len = Some (rest, c, line_len)"

fun encode_tail :: "u8 list \<Rightarrow> u8 list \<times> nat \<Rightarrow> nat \<Rightarrow> ((u8 list \<times> nat) \<times> nat) option" where
  "encode_tail [] c line_len = Some (c, line_len)"
| "encode_tail [x] c line_len =
     map_option (\<lambda>c'. (c', line_len + 4))
       (puts [b64_char (drop_bit 2 x), b64_char (push_bit 4 (x AND 0x03)), 61, 61] c)"
| "encode_tail (x # y # _) c line_len =
     map_option (\<lambda>c'. (c', line_len + 4))
       (puts [b64_char (drop_bit 2 x), b64_char (push_bit 4 (x AND 0x03) OR drop_bit 4 y),
              b64_char (push_bit 2 (y AND 0x0F)), 61] c)"

definition encode_olen :: "nat \<Rightarrow> nat" where
  "encode_olen len =
     (let olen = add64 (mul64 len 4 div 3) 4;
          olen' = add64 olen (olen div 72)
      in add64 olen' 1)"

definition base64_encode :: "allocator \<Rightarrow> u8 list \<Rightarrow> fault + (u8 list \<times> nat) option" where
  "base64_encode malloc src =
     (if encode_olen (length src) < length src then Inr None
      else
        (case malloc (encode_olen (length src)) of
           None \<Rightarrow> Inr None
         | Some out \<Rightarrow>
             (case encode_loop src (out, 0) 0 of
                None \<Rightarrow> Inl Undef
              | Some (rest, c1, l1) \<Rightarrow>
                  (case encode_tail rest c1 l1 of
                     None \<Rightarrow> Inl Undef
                   | Some (c2, l2) \<Rightarrow>
                       (case (if l2 \<noteq> 0 then put 10 c2 else Some c2) of
                          None \<Rightarrow> Inl Undef
                        | Some c3 \<Rightarrow>
                            (case put 0 c3 of
                               None \<Rightarrow> Inl Undef
                             | Some c4 \<Rightarrow> Inr (Some (fst c4, snd c3))))))))"

section \<open>Decoding\<close>

definition dtable :: "u8 list" where
  "dtable = (fold (\<lambda>i t. t[unat (base64_table ! i) := of_nat i]) [0..<64]
     (replicate 256 0x80))[61 := 0]"

definition d_of :: "u8 \<Rightarrow> u8" where
  "d_of x = dtable ! unat x"

definition decode_count :: "u8 list \<Rightarrow> nat" where
  "decode_count src = length (filter (\<lambda>x. d_of x \<noteq> 0x80) src)"

text \<open>
  The decoding loop: the rest of the input, \<open>block[0..count)\<close>, \<open>pad\<close> and the output
  pointer; \<open>Inr None\<close> is the exit for invalid padding. \<open>pos\<close> is moved back over the
  bytes that stand for padding.
\<close>

fun decode_loop ::
  "u8 list \<Rightarrow> u8 list \<Rightarrow> nat \<Rightarrow> u8 list \<times> nat \<Rightarrow> fault + (u8 list \<times> nat) option" where
  "decode_loop [] block pad c = Inr (Some c)"
| "decode_loop (x # src) block pad c =
     (let tmp = d_of x in
      if tmp = 0x80 then decode_loop src block pad c
      else
        (let pad' = (if x = 61 then Suc pad else pad);
             block' = block @ [tmp]
         in if length block' = 4
            then
              (case puts [push_bit 2 (block' ! 0) OR drop_bit 4 (block' ! 1),
                          push_bit 4 (block' ! 1) OR drop_bit 2 (block' ! 2),
                          push_bit 6 (block' ! 2) OR block' ! 3] c of
                 None \<Rightarrow> Inl Undef
               | Some (out, pos) \<Rightarrow>
                   if pad' = 0 then decode_loop src [] 0 (out, pos)
                   else if pad' = 1 then Inr (Some (out, pos - 1))
                   else if pad' = 2 then Inr (Some (out, pos - 2))
                   else Inr None)
            else decode_loop src block' pad' c))"

definition base64_decode :: "allocator \<Rightarrow> u8 list \<Rightarrow> fault + (u8 list \<times> nat) option" where
  "base64_decode malloc src =
     (let count = decode_count src in
      if count = 0 \<or> count mod 4 \<noteq> 0 then Inr None
      else
        (case malloc (count div 4 * 3) of
           None \<Rightarrow> Inr None
         | Some out \<Rightarrow> decode_loop src [] 0 (out, 0)))"

section \<open>The text written by the encoder\<close>

text \<open>The characters of one group and of the whole text, line feeds included.\<close>

fun b64_group :: "u8 list \<Rightarrow> u8 list" where
  "b64_group [x] = [b64_char (drop_bit 2 x), b64_char (push_bit 4 (x AND 0x03)), 61, 61]"
| "b64_group [x, y] = [b64_char (drop_bit 2 x), b64_char (push_bit 4 (x AND 0x03) OR drop_bit 4 y),
     b64_char (push_bit 2 (y AND 0x0F)), 61]"
| "b64_group [x, y, z] = [b64_char (drop_bit 2 x), b64_char (push_bit 4 (x AND 0x03) OR drop_bit 4 y),
     b64_char (push_bit 2 (y AND 0x0F) OR drop_bit 6 z), b64_char (z AND 0x3F)]"
| "b64_group _ = []"

fun b64_text :: "u8 list \<Rightarrow> nat \<Rightarrow> u8 list" where
  "b64_text (x # y # z # rest) l =
     b64_group [x, y, z] @
     (if l + 4 \<ge> 72 then 10 # b64_text rest 0 else b64_text rest (l + 4))"
| "b64_text [] l = (if l \<noteq> 0 then [10] else [])"
| "b64_text rest l = b64_group rest @ [10]"

definition encode_finish ::
  "(u8 list \<times> (u8 list \<times> nat) \<times> nat) option \<Rightarrow> (u8 list \<times> nat) option" where
  "encode_finish r = (case r of
     None \<Rightarrow> None
   | Some (rest, c1, l1) \<Rightarrow>
       (case encode_tail rest c1 l1 of
          None \<Rightarrow> None
        | Some (c2, l2) \<Rightarrow> if l2 \<noteq> 0 then put 10 c2 else Some c2))"

lemma encode_finish_loop: "encode_finish (encode_loop src c l) = puts (b64_text src l) c"
  by (induction src c l rule: encode_loop.induct)
     (auto simp: encode_finish_def puts_append split: option.splits)

lemma base64_encode_text:
  assumes "encode_olen (length src) \<ge> length src" and "malloc (encode_olen (length src)) = Some out"
  shows "base64_encode malloc src =
    (case puts (b64_text src 0) (out, 0) of
       None \<Rightarrow> Inl Undef
     | Some c \<Rightarrow> (case put 0 c of None \<Rightarrow> Inl Undef | Some c' \<Rightarrow> Inr (Some (fst c', snd c))))"
  using assms unfolding base64_encode_def encode_finish_loop[symmetric]
  by (auto simp: encode_finish_def split: option.splits)

end
