(* ===== verification/Base64_Correct.thy ===== *)
theory Base64_Correct
  imports Base64
begin

text \<open>
  What base64.c computes: the encoder's text is the RFC 4648 encoding cut into lines, it
  fits the buffer exactly when the size computation did not wrap, and the decoder inverts
  it.
\<close>

section \<open>Room\<close>

lemma groups_Suc: "(length (x # y # z # rest) + 2) div 3 = Suc ((length rest + 2) div 3)"
proof -
  have "length (x # y # z # rest) + 2 = length rest + 2 + 3" by simp
  then show ?thesis by (simp only: div_add_self2 zero_neq_numeral not_False_eq_True simp_thms)
qed

lemma groups_padded: "(n + 2) div 3 * 3 = n + (3 - n mod 3) mod (3::nat)"
proof -
  define q r where "q = n div 3" and "r = n mod 3"
  have "n = 3 * q + r" "r < 3" by (simp_all add: q_def r_def)
  then consider "n = 3 * q \<and> r = 0" | "n = 3 * q + 1 \<and> r = 1" | "n = 3 * q + 2 \<and> r = 2" by linarith
  then show ?thesis unfolding r_def[symmetric] by cases simp_all
qed

lemma length3_mod: "length (x # y # z # rest) mod 3 = length rest mod 3"
proof -
  have "length (x # y # z # rest) = length rest + 3" by simp
  then show ?thesis by (simp only: mod_add_self2)
qed

lemma length_b64_text:
  "l mod 4 = 0 \<Longrightarrow> l < 72 \<Longrightarrow>
   length (b64_text src l) = 4 * ((length src + 2) div 3) + (4 * ((length src + 2) div 3) + l + 71) div 72"
proof (induction src l rule: b64_text.induct)
  case (1 x y z rest l)
  define k where "k = 4 * ((length rest + 2) div 3)"
  have *: "4 * ((length (x # y # z # rest) + 2) div 3) = k + 4" unfolding k_def groups_Suc by simp
  show ?case
  proof (cases "72 \<le> l + 4")
    case True
    then have "l = 68" using 1(3,4) by presburger
    with 1(1)[OF True, folded k_def] show ?thesis unfolding * by simp
  next
    case False
    have "(l + 4) mod 4 = 0" using 1(3) by simp
    with 1(2)[OF False, folded k_def] False show ?thesis unfolding * by (simp add: ac_simps)
  qed
qed auto

lemma encode_olen_exact:
  "n < 2 ^ 62 \<Longrightarrow> encode_olen n = 4 * n div 3 + 4 + (4 * n div 3 + 4) div 72 + 1"
  by (simp add: encode_olen_def size_t Let_def mult.commute)

lemma encode_olen_bound:
  assumes "n < 2 ^ 62"
  shows "4 * ((n + 2) div 3) + (4 * ((n + 2) div 3) + 71) div 72 + 1 \<le> encode_olen n"
proof -
  let ?x = "4 * ((n + 2) div 3)" and ?y = "4 * n div 3 + 4"
  have xy: "?x + 1 \<le> ?y" by presburger
  then have "(?x + 71) div 72 + ?x \<le> ?y + ?y div 72"
  proof -
    have "(?x + 71) div 72 \<le> (?x + 1 + 72) div 72" by (rule div_le_mono) simp
    then have "(?x + 71) div 72 \<le> (?x + 1) div 72 + 1" by (simp only: div_add_self2)
    moreover have "(?x + 1) div 72 \<le> ?y div 72" using xy by (rule div_le_mono)
    ultimately show ?thesis using xy by linarith
  qed
  then show ?thesis using encode_olen_exact[OF assms] by simp
qed

lemma encode_olen_wraps:
  assumes "2 ^ 62 \<le> n" and "n < 2 ^ 64"
  shows "encode_olen n < n"
proof -
  define q r where "q = n div 2 ^ 62" and "r = n mod 2 ^ 62"
  have n: "n = 2 ^ 62 * q + r" "r < 2 ^ 62" by (simp_all add: q_def r_def)
  have q: "0 < q" using assms(1) by (simp add: q_def div_greater_zero_iff)
  have "mul64 n 4 = (4 * r + q * 2 ^ 64) mod 2 ^ 64" by (simp add: mul64_def n(1) algebra_simps)
  also have "\<dots> = 4 * r" using n(2) by (simp add: mod_mult_self1)
  finally have m: "mul64 n 4 = 4 * r" .
  define y where "y = 4 * r div 3 + 4"
  have "encode_olen n \<le> y + y div 72 + 1"
    using n(2) by (simp add: encode_olen_def m y_def size_t Let_def)
  moreover have "72 * (y div 72) \<le> y" "3 * (y - 4) \<le> 4 * r" "4 \<le> y" by (simp_all add: y_def)
  ultimately show ?thesis using n q by simp
qed

section \<open>RFC 4648\<close>

text \<open>The 24 bits of a group and the six-bit digits they are cut into.\<close>

definition bits24 :: "u8 \<Rightarrow> u8 \<Rightarrow> u8 \<Rightarrow> nat" where
  "bits24 x y z = unat x * 65536 + unat y * 256 + unat z"

definition digits :: "nat \<Rightarrow> u8 list" where
  "digits n = map ((!) base64_table) [n div 262144, n div 4096 mod 64, n div 64 mod 64, n mod 64]"

fun rfc4648 :: "u8 list \<Rightarrow> u8 list" where
  "rfc4648 [] = []"
| "rfc4648 [x] = take 2 (digits (bits24 x 0 0)) @ [61, 61]"
| "rfc4648 [x, y] = take 3 (digits (bits24 x y 0)) @ [61]"
| "rfc4648 (x # y # z # rest) = digits (bits24 x y z) @ rfc4648 rest"

lemma and_low: "x AND 0x03 = take_bit 2 x" "x AND 0x0F = take_bit 4 x" "x AND 0x3F = take_bit 6 x"
  for x :: u8
  by (simp_all add: take_bit_eq_mask mask_eq_exp_minus_1)

lemma unat_or_disjoint: "a AND b = 0 \<Longrightarrow> unat (a OR b) = unat a + unat b" for a b :: u8
  by (metis disjunctive_add_eq_or unsigned_0 unsigned_and_eq unsigned_or_eq)

lemma unat_shifts:
  "unat (push_bit k x) = unat x * 2 ^ k mod 256" "unat (drop_bit k x) = unat x div 2 ^ k"
  "unat (take_bit k x) = unat x mod 2 ^ k" for x :: u8
  by (simp_all only: unsigned_push_bit_eq unat_drop_bit_eq unsigned_take_bit_eq)
     (simp_all add: push_bit_eq_mult drop_bit_eq_div take_bit_eq_mod)

lemma mod64:
  "q < 16 \<Longrightarrow> (x * 16 + q) mod 64 = x mod 4 * 16 + q"
  "q < 4 \<Longrightarrow> (x * 1024 + y * 4 + q) mod 64 = y mod 16 * 4 + q" for x y q :: nat
proof -
  show "q < 16 \<Longrightarrow> (x * 16 + q) mod 64 = x mod 4 * 16 + q"
    using mod_mult2_eq[of "x * 16 + q" 16 4] by simp
  assume "q < 4"
  have e: "x * 1024 + y * 4 + q = q + 4 * (256 * x + y)" by simp
  from \<open>q < 4\<close> have "(x * 1024 + y * 4 + q) mod 4 = q" unfolding e mod_mult_self2 by simp
  moreover from \<open>q < 4\<close> have "(x * 1024 + y * 4 + q) div 4 = y + 16 * (16 * x)" by simp
  ultimately have "(x * 1024 + y * 4 + q) mod (4 * 16) = 4 * ((y + 16 * (16 * x)) mod 16) + q"
    using mod_mult2_eq[of "x * 1024 + y * 4 + q" 4 16] by (simp only:)
  then show "(x * 1024 + y * 4 + q) mod 64 = y mod 16 * 4 + q"
    by (simp only: mod_mult_self2) simp
qed

lemma sextets:
  "unat (drop_bit 2 x) = bits24 x y z div 262144"
  "unat (push_bit 4 (x AND 0x03) OR drop_bit 4 y) = bits24 x y z div 4096 mod 64"
  "unat (push_bit 2 (y AND 0x0F) OR drop_bit 6 z) = bits24 x y z div 64 mod 64"
  "unat (z AND 0x3F) = bits24 x y z mod 64"
proof -
  have b: "unat x < 256" "unat y < 256" "unat z < 256"
    using unsigned_less[of x] unsigned_less[of y] unsigned_less[of z] by simp_all
  show "unat (drop_bit 2 x) = bits24 x y z div 262144"
    using b by (simp add: bits24_def unat_shifts)
  show "unat (z AND 0x3F) = bits24 x y z mod 64"
    using mod_mult_self2[of "unat z" 64 "1024 * unat x + 4 * unat y"]
    by (simp add: and_low unat_shifts bits24_def ac_simps)
  have "push_bit 4 (take_bit 2 x) AND drop_bit 4 y = 0"
    by (rule bit_word_eqI) (auto simp: bit_simps dest!: bit_imp_le_length)
  then have "unat (push_bit 4 (x AND 0x03) OR drop_bit 4 y) = unat x mod 4 * 16 + unat y div 16"
    using b by (simp add: and_low unat_or_disjoint unat_shifts)
  moreover have "bits24 x y z div 4096 = unat x * 16 + unat y div 16"
  proof -
    define q r where "q = unat y div 16" and "r = unat y mod 16"
    have "unat y = 16 * q + r" "r < 16" by (simp_all add: q_def r_def)
    then have "bits24 x y z = 4096 * (unat x * 16 + q) + (256 * r + unat z)" "256 * r + unat z < 4096"
      using b by (simp_all add: bits24_def)
    then show ?thesis by (simp flip: q_def)
  qed
  ultimately show "unat (push_bit 4 (x AND 0x03) OR drop_bit 4 y) = bits24 x y z div 4096 mod 64"
    using b by (simp add: mod64(1))
  have "push_bit 2 (take_bit 4 y) AND drop_bit 6 z = 0"
    by (rule bit_word_eqI) (auto simp: bit_simps dest!: bit_imp_le_length)
  then have "unat (push_bit 2 (y AND 0x0F) OR drop_bit 6 z) = unat y mod 16 * 4 + unat z div 64"
    using b by (simp add: and_low unat_or_disjoint unat_shifts)
  moreover have "bits24 x y z div 64 = unat x * 1024 + unat y * 4 + unat z div 64"
  proof -
    define q r where "q = unat z div 64" and "r = unat z mod 64"
    have "unat z = 64 * q + r" "r < 64" by (simp_all add: q_def r_def)
    then have "bits24 x y z = 64 * (unat x * 1024 + unat y * 4 + q) + r" by (simp add: bits24_def)
    with \<open>r < 64\<close> show ?thesis by (simp flip: q_def)
  qed
  ultimately show "unat (push_bit 2 (y AND 0x0F) OR drop_bit 6 z) = bits24 x y z div 64 mod 64"
    using b by (simp add: mod64(2))
qed

lemma b64_group_digits:
  "b64_group [x, y, z] = digits (bits24 x y z)"
  "b64_group [x, y] = take 3 (digits (bits24 x y 0)) @ [61]"
  "b64_group [x] = take 2 (digits (bits24 x 0 0)) @ [61, 61]"
proof -
  have z: "w OR drop_bit k 0 = w" for w :: u8 and k by simp
  note s = sextets[where x = x and y = y and z = z] sextets[where x = x and y = y and z = 0, unfolded z]
    sextets[where x = x and y = 0 and z = 0, unfolded z]
  show "b64_group [x, y, z] = digits (bits24 x y z)"
    by (simp only: digits_def b64_char_def b64_group.simps list.map s)
  show "b64_group [x, y] = take 3 (digits (bits24 x y 0)) @ [61]"
    unfolding digits_def b64_char_def b64_group.simps list.map s[symmetric] by (simp del: push_bit_and)
  show "b64_group [x] = take 2 (digits (bits24 x 0 0)) @ [61, 61]"
    unfolding digits_def b64_char_def b64_group.simps list.map s[symmetric] by (simp del: push_bit_and)
qed

lemma base64_table_eq: "base64_table =
  [65, 66, 67, 68, 69, 70, 71, 72, 73, 74, 75, 76, 77, 78, 79, 80, 81, 82, 83, 84, 85, 86, 87, 88, 89, 90,
   97, 98, 99, 100, 101, 102, 103, 104, 105, 106, 107, 108, 109, 110, 111, 112, 113, 114, 115, 116, 117,
   118, 119, 120, 121, 122, 48, 49, 50, 51, 52, 53, 54, 55, 56, 57, 43, 47]"
  unfolding base64_table_def by simp

lemma length_base64_table: "length base64_table = 64"
  by (simp add: base64_table_eq)

lemma base64_table_chars: "i < 64 \<Longrightarrow> base64_table ! i \<noteq> 10 \<and> base64_table ! i \<noteq> 0 \<and> base64_table ! i \<noteq> 61"
proof -
  assume "i < 64"
  then have "base64_table ! i \<in> set base64_table" by (simp add: length_base64_table)
  moreover have "\<forall>c \<in> set base64_table. c \<noteq> 10 \<and> c \<noteq> 0 \<and> c \<noteq> 61" by (simp add: base64_table_eq)
  ultimately show ?thesis by blast
qed

lemma distinct_base64_table: "distinct base64_table"
  by (simp add: base64_table_eq)

definition table_fold :: "nat \<Rightarrow> u8 list" where
  "table_fold n = fold (\<lambda>i t. t[unat (base64_table ! i) := of_nat i]) [0..<n] (replicate 256 0x80)"

lemma length_table_fold: "length (table_fold n) = 256"
proof -
  have "length (fold (\<lambda>i t. t[unat (base64_table ! i) := of_nat i]) xs t) = length t"
    for xs :: "nat list" and t :: "u8 list" by (induction xs arbitrary: t) simp_all
  then show ?thesis by (simp add: table_fold_def)
qed

lemma table_fold_Suc: "table_fold (Suc n) = (table_fold n)[unat (base64_table ! n) := of_nat n]"
  by (simp add: table_fold_def)

lemma unat_u8_less: "unat (x :: u8) < 256"
  using unsigned_less[of x] by simp

lemma table_fold_hit: "n \<le> 64 \<Longrightarrow> i < n \<Longrightarrow> table_fold n ! unat (base64_table ! i) = of_nat i"
proof (induction n)
  case (Suc n)
  then have "base64_table ! n \<noteq> base64_table ! i" if "i \<noteq> n"
    using that distinct_base64_table by (simp add: distinct_conv_nth length_base64_table)
  with Suc show ?case
    by (cases "i = n") (simp_all add: table_fold_Suc length_table_fold unat_u8_less word_unat_eq_iff)
qed simp

lemma table_fold_miss:
  "n \<le> 64 \<Longrightarrow> c \<notin> set base64_table \<Longrightarrow> table_fold n ! unat c = 0x80"
proof (induction n)
  case (Suc n)
  then have "base64_table ! n \<noteq> c" using nth_mem[of n base64_table] by (auto simp: length_base64_table)
  with Suc show ?case by (simp add: table_fold_Suc word_unat_eq_iff)
qed (simp add: table_fold_def unat_u8_less)

lemma d_of_char: "i < 64 \<Longrightarrow> d_of (base64_table ! i) = of_nat i"
  and d_of_pad: "d_of 61 = 0"
  and d_of_skipped: "c \<notin> set base64_table \<Longrightarrow> c \<noteq> 61 \<Longrightarrow> d_of c = 0x80"
proof -
  have d: "d_of c = (table_fold 64)[61 := 0] ! unat c" for c
    by (simp add: d_of_def dtable_def table_fold_def)
  have n: "unat c \<noteq> 61" if "c \<noteq> 61" for c :: u8
    using that by (simp add: word_unat_eq_iff)
  show "d_of 61 = 0" by (simp add: d length_table_fold)
  show "i < 64 \<Longrightarrow> d_of (base64_table ! i) = of_nat i"
    using n base64_table_chars by (simp add: d table_fold_hit)
  show "c \<notin> set base64_table \<Longrightarrow> c \<noteq> 61 \<Longrightarrow> d_of c = 0x80"
    using n by (simp add: d table_fold_miss)
qed

lemma bits24_less: "bits24 x y z < 16777216"
  using unat_u8_less[of x] unat_u8_less[of y] unat_u8_less[of z] by (simp add: bits24_def)

lemma length_digits: "length (digits n) = 4"
  by (simp add: digits_def)

text \<open>Lines of 72 characters, each ended by a line feed.\<close>

function wrap72 :: "u8 list \<Rightarrow> u8 list" where
  "wrap72 cs = (if cs = [] then [] else take 72 cs @ 10 # wrap72 (drop 72 cs))"
  by pat_completeness auto
termination by (relation "measure length") auto

declare wrap72.simps [simp del]

lemma b64_text_lines:
  "l mod 4 = 0 \<Longrightarrow> l < 72 \<Longrightarrow> b64_text src l =
     (if src = [] \<and> l = 0 then [] else take (72 - l) (rfc4648 src) @ 10 # wrap72 (drop (72 - l) (rfc4648 src)))"
proof (induction src l rule: b64_text.induct[case_names group empty one two])
  case (group x y z rest l)
  let ?d = "digits (bits24 x y z)"
  show ?case
  proof (cases "72 \<le> l + 4")
    case True
    then have l: "l = 68" using group(3,4) by presburger
    have "b64_text rest 0 = wrap72 (rfc4648 rest)"
      using group(1)[OF True] by (cases rest rule: rfc4648.cases) (simp_all add: wrap72.simps digits_def)
    then show ?thesis
      by (simp add: l b64_group_digits length_digits del: b64_group.simps)
  next
    case False
    then have "b64_text rest (l + 4) = take (68 - l) (rfc4648 rest) @ 10 # wrap72 (drop (68 - l) (rfc4648 rest))"
      using group(2,3) by simp
    with False show ?thesis
      by (simp add: b64_group_digits length_digits del: b64_group.simps)
  qed
next
  case (one x l)
  then have "l \<le> 68" by presburger
  then show ?case
    by (simp add: b64_group_digits length_digits wrap72.simps[of "[]"] del: b64_group.simps)
next
  case (two x y l)
  then have "l \<le> 68" by presburger
  then show ?case
    by (simp add: b64_group_digits length_digits wrap72.simps[of "[]"] del: b64_group.simps)
qed (simp add: wrap72.simps)

section \<open>Decoding what was encoded\<close>

lemma and_small: "unat (x AND 0x03) < 64" "unat (push_bit 4 (x AND 0x03)) < 64"
    "unat (push_bit 2 (y AND 0x0F)) < 64" "unat (z AND 0x3F) < 64" "unat (drop_bit 2 x) < 64"
    "unat (push_bit 4 (x AND 0x03) OR drop_bit 4 y) < 64"
    "unat (push_bit 2 (y AND 0x0F) OR drop_bit 6 z) < 64" for x y z :: u8
proof -
  have z: "w OR drop_bit k 0 = w" for w :: u8 and k by simp
  note s = sextets[where x = x and y = y and z = z] sextets[where x = x and y = 0 and z = z, unfolded z]
    sextets[where x = x and y = y and z = 0, unfolded z]
  show "unat (x AND 0x03) < 64" unfolding and_low unat_shifts by simp
  show "unat (drop_bit 2 x) < 64" using bits24_less[of x y z] unfolding s(1) by simp
  show "unat (z AND 0x3F) < 64" unfolding s by simp
  show "unat (push_bit 4 (x AND 0x03) OR drop_bit 4 y) < 64" unfolding s by simp
  show "unat (push_bit 2 (y AND 0x0F) OR drop_bit 6 z) < 64" unfolding s by simp
  show "unat (push_bit 4 (x AND 0x03)) < 64" unfolding s by simp
  show "unat (push_bit 2 (y AND 0x0F)) < 64" unfolding s by simp
qed

lemma u8_eqI:
  "\<lbrakk>bit x 0 = bit y 0; bit x 1 = bit y 1; bit x 2 = bit y 2; bit x 3 = bit y 3;
    bit x 4 = bit y 4; bit x 5 = bit y 5; bit x 6 = bit y 6; bit x 7 = bit y 7\<rbrakk> \<Longrightarrow> x = y" for x y :: u8
proof (rule bit_word_eqI)
  fix n assume bits: "bit x 0 = bit y 0" "bit x 1 = bit y 1" "bit x 2 = bit y 2" "bit x 3 = bit y 3"
    "bit x 4 = bit y 4" "bit x 5 = bit y 5" "bit x 6 = bit y 6" "bit x 7 = bit y 7"
  assume "n < LENGTH(8)"
  then have "n = 0 \<or> n = 1 \<or> n = 2 \<or> n = 3 \<or> n = 4 \<or> n = 5 \<or> n = 6 \<or> n = 7" by simp presburger
  with bits show "bit x n = bit y n" by auto
qed

lemma d_of_b64_char: "unat i < 64 \<Longrightarrow> d_of (b64_char i) = i"
  by (simp add: b64_char_def d_of_char)

lemma b64_char_neq: "unat i < 64 \<Longrightarrow> b64_char i \<noteq> 61 \<and> b64_char i \<noteq> 10 \<and> b64_char i \<noteq> 0"
  using base64_table_chars by (auto simp: b64_char_def)

lemma not_invalid: "unat i < 64 \<Longrightarrow> i \<noteq> 0x80" for i :: u8
  by auto

lemma decode_loop_char:
  "unat i < 64 \<Longrightarrow> decode_loop (b64_char i # src) block pad c =
    (let block' = block @ [i]
         in if length block' = 4
            then
              (case puts [push_bit 2 (block' ! 0) OR drop_bit 4 (block' ! 1),
                          push_bit 4 (block' ! 1) OR drop_bit 2 (block' ! 2),
                          push_bit 6 (block' ! 2) OR block' ! 3] c of
                 None \<Rightarrow> Inl Undef
               | Some (out, pos) \<Rightarrow>
                   if pad = 0 then decode_loop src [] 0 (out, pos)
                   else if pad = 1 then Inr (Some (out, pos - 1))
                   else if pad = 2 then Inr (Some (out, pos - 2))
                   else Inr None)
            else decode_loop src block' pad c)"
  using not_invalid[of i] by (simp add: d_of_b64_char b64_char_neq)

lemma decode_loop_lf: "decode_loop (10 # src) block pad c = decode_loop src block pad c"
  by (simp add: d_of_skipped base64_table_eq)

lemma decode_loop_pad:
  "decode_loop (61 # src) block pad c =
    (let block' = block @ [0]
         in if length block' = 4
            then
              (case puts [push_bit 2 (block' ! 0) OR drop_bit 4 (block' ! 1),
                          push_bit 4 (block' ! 1) OR drop_bit 2 (block' ! 2),
                          push_bit 6 (block' ! 2) OR block' ! 3] c of
                 None \<Rightarrow> Inl Undef
               | Some (out, pos) \<Rightarrow>
                   if pad = 0 then Inr (Some (out, pos - 1))
                   else if pad = 1 then Inr (Some (out, pos - 2))
                   else Inr None)
            else decode_loop src block' (Suc pad) c)"
  by (auto simp: d_of_pad Let_def simp del: puts.simps split: option.split)

lemma decode_four:
  "\<lbrakk>unat i < 64; unat j < 64; unat k < 64; unat l < 64\<rbrakk> \<Longrightarrow>
   decode_loop ([b64_char i, b64_char j, b64_char k, b64_char l] @ src) [] 0 c =
     (case puts [push_bit 2 i OR drop_bit 4 j, push_bit 4 j OR drop_bit 2 k, push_bit 6 k OR l] c of
        None \<Rightarrow> Inl Undef | Some c' \<Rightarrow> decode_loop src [] 0 c')"
  "\<lbrakk>unat i < 64; unat j < 64; unat k < 64\<rbrakk> \<Longrightarrow>
   decode_loop ([b64_char i, b64_char j, b64_char k, 61] @ src) [] 0 c =
     (case puts [push_bit 2 i OR drop_bit 4 j, push_bit 4 j OR drop_bit 2 k, push_bit 6 k] c of
        None \<Rightarrow> Inl Undef | Some (out, pos) \<Rightarrow> Inr (Some (out, pos - 1)))"
  "\<lbrakk>unat i < 64; unat j < 64\<rbrakk> \<Longrightarrow>
   decode_loop ([b64_char i, b64_char j, 61, 61] @ src) [] 0 c =
     (case puts [push_bit 2 i OR drop_bit 4 j, push_bit 4 j, 0] c of
        None \<Rightarrow> Inl Undef | Some (out, pos) \<Rightarrow> Inr (Some (out, pos - 2)))"
  by (simp_all add: decode_loop_char decode_loop_pad Let_def del: decode_loop.simps puts.simps)
     (auto simp del: decode_loop.simps puts.simps split: option.split)

lemma decode_group:
  "decode_loop (b64_group [x, y, z] @ src) [] 0 c =
     (case puts [x, y, z] c of None \<Rightarrow> Inl Undef | Some c' \<Rightarrow> decode_loop src [] 0 c')"
  "decode_loop (b64_group [x, y] @ src) [] 0 c =
     (case puts [x, y, 0] c of None \<Rightarrow> Inl Undef | Some (out, pos) \<Rightarrow> Inr (Some (out, pos - 1)))"
  "decode_loop (b64_group [x] @ src) [] 0 c =
     (case puts [x, 0, 0] c of None \<Rightarrow> Inl Undef | Some (out, pos) \<Rightarrow> Inr (Some (out, pos - 2)))"
proof -
  have x: "push_bit 2 (drop_bit 2 x) OR drop_bit 4 (push_bit 4 (x AND 0x03) OR drop_bit 4 y) = x"
    "push_bit 2 (drop_bit 2 x) OR drop_bit 4 (push_bit 4 (x AND 0x03)) = x" for x y :: u8
    unfolding and_low by (rule u8_eqI; simp add: bit_simps)+
  have y: "push_bit 4 (push_bit 4 (x AND 0x03) OR drop_bit 4 y) OR
      drop_bit 2 (push_bit 2 (y AND 0x0F) OR drop_bit 6 z) = y" 
    "push_bit 4 (push_bit 4 (x AND 0x03) OR drop_bit 4 y) OR drop_bit 2 (push_bit 2 (y AND 0x0F)) = y"
    "push_bit 4 (push_bit 4 (x AND 0x03)) = 0"
    for x y z :: u8
    unfolding and_low by (rule u8_eqI; simp add: bit_simps)+
  have z: "push_bit 6 (push_bit 2 (y AND 0x0F) OR drop_bit 6 z) OR (z AND 0x3F) = z"
    "push_bit 6 (push_bit 2 (y AND 0x0F)) = 0"
    for y z :: u8
    unfolding and_low by (rule u8_eqI; simp add: bit_simps)+
  show "decode_loop (b64_group [x, y, z] @ src) [] 0 c =
     (case puts [x, y, z] c of None \<Rightarrow> Inl Undef | Some c' \<Rightarrow> decode_loop src [] 0 c')"
    by (simp only: b64_group.simps decode_four and_small x y z)
  show "decode_loop (b64_group [x, y] @ src) [] 0 c =
     (case puts [x, y, 0] c of None \<Rightarrow> Inl Undef | Some (out, pos) \<Rightarrow> Inr (Some (out, pos - 1)))"
    by (simp only: b64_group.simps decode_four and_small x y z)
  show "decode_loop (b64_group [x] @ src) [] 0 c =
     (case puts [x, 0, 0] c of None \<Rightarrow> Inl Undef | Some (out, pos) \<Rightarrow> Inr (Some (out, pos - 2)))"
    by (simp only: b64_group.simps decode_four and_small x y z)
qed

text \<open>The decoder writes the bytes and one zero byte for each padding character.\<close>

definition b64_pad :: "nat \<Rightarrow> nat" where
  "b64_pad n = (3 - n mod 3) mod 3"

lemma decode_text:
  "decode_loop (b64_text src l) [] 0 c =
     (case puts (src @ replicate (b64_pad (length src)) 0) c of
        None \<Rightarrow> Inl Undef
      | Some (out, pos) \<Rightarrow> Inr (Some (out, pos - b64_pad (length src))))"
proof (induction src l arbitrary: c rule: b64_text.induct[case_names group empty one two])
  case (group x y z rest l)
  have p: "b64_pad (length (x # y # z # rest)) = b64_pad (length rest)"
    by (simp only: b64_pad_def length3_mod)
  have "puts ((x # y # z # rest) @ replicate k 0) c =
      (case puts [x, y, z] c of None \<Rightarrow> None | Some c' \<Rightarrow> puts (rest @ replicate k 0) c')" for k
    by (simp only: puts_append[symmetric] append.simps)
  with group show ?case
    unfolding p by (simp add: decode_group decode_loop_lf del: puts.simps decode_loop.simps b64_group.simps split: option.split)
next
  case (one x l)
  have "b64_pad (length [x]) = 2" "replicate 2 0 = [0, 0 :: u8]"
    by (simp_all add: b64_pad_def numeral_2_eq_2)
  then show ?case by (simp only: b64_text.simps decode_group append.simps)
next
  case (two x y l)
  have "b64_pad (length [x, y]) = 1" "replicate 1 0 = [0 :: u8]"
    by (simp_all add: b64_pad_def)
  then show ?case by (simp only: b64_text.simps decode_group append.simps)
qed (simp add: b64_pad_def decode_loop_lf del: decode_loop.simps(2))

lemma decode_count_append: "decode_count (xs @ ys) = decode_count xs + decode_count ys"
  by (simp add: decode_count_def)

lemma decode_count_group:
  "decode_count (b64_group [x, y, z]) = 4" "decode_count (b64_group [x, y]) = 4" "decode_count (b64_group [x]) = 4"
  using not_invalid and_small
  by (simp_all add: decode_count_def d_of_b64_char d_of_pad del: push_bit_and)

lemma decode_count_lf: "decode_count [10] = 0" "decode_count (10 # xs) = decode_count xs" "decode_count [] = 0"
  by (simp_all add: decode_count_def d_of_skipped base64_table_eq)

lemma decode_count_text: "decode_count (b64_text src l) = 4 * ((length src + 2) div 3)"
proof (induction src l rule: b64_text.induct)
  case (1 x y z rest l)
  with 1 show ?case
    by (simp only: b64_text.simps groups_Suc) (simp add: decode_count_append decode_count_group decode_count_lf del: b64_group.simps)
qed (simp_all only: b64_text.simps, simp_all add: decode_count_append decode_count_group decode_count_lf del: b64_group.simps)

section \<open>Properties\<close>

lemma base64_encode_ok:
  assumes "alloc_ok malloc" and "length src < 2 ^ 62" and "malloc (encode_olen (length src)) = Some out"
  shows "\<exists>out'. base64_encode malloc src = Inr (Some (out', length (b64_text src 0))) \<and>
    length out' = encode_olen (length src) \<and> take (Suc (length (b64_text src 0))) out' = b64_text src 0 @ [0]"
proof -
  let ?n = "length (b64_text src 0)"
  have len: "length out = encode_olen (length src)" using assms(1,3) by blast
  have n: "Suc ?n \<le> length out"
    using encode_olen_bound[OF assms(2)] length_b64_text[of 0 src] by (simp add: len)
  then have "drop ?n out \<noteq> []" by simp
  then obtain v vs where v: "drop ?n out = v # vs" by (cases "drop ?n out") auto
  have "length (drop ?n out) = Suc (length vs)" unfolding v by simp
  then have "length out = Suc (?n + length vs)" using n by (simp del: list.size)
  moreover note v
  moreover have "length src \<le> encode_olen (length src)" using encode_olen_exact[OF assms(2)] by simp
  note base64_encode_text[where malloc = malloc, OF this assms(3)]
  ultimately show ?thesis using n
    by (simp add: puts_mem_write mem_write_def put_def len list_update_append)
qed

text \<open>The whole function, wrap-around of the size included.\<close>

lemma encode_lines:
  assumes "alloc_ok malloc" and "length src < 2 ^ 64" and "malloc (encode_olen (length src)) = Some m"
  shows "if length src < 2 ^ 62
    then \<exists>out n. base64_encode malloc src = Inr (Some (out, n)) \<and> length out = length m \<and>
      take n out = wrap72 (rfc4648 src) \<and> n < length out \<and> out ! n = 0
    else base64_encode malloc src = Inr None"
proof (cases "length src < 2 ^ 62")
  case True
  let ?n = "length (b64_text src 0)"
  from base64_encode_ok[OF assms(1) True assms(3)] obtain out where
    o: "base64_encode malloc src = Inr (Some (out, ?n))" "length out = encode_olen (length src)"
      "take (Suc ?n) out = b64_text src 0 @ [0]" by blast
  have n: "?n < length out" using arg_cong[OF o(3), of length] by (simp add: min_def split: if_splits)
  have "take ?n out @ [out ! ?n] = b64_text src 0 @ [0]" using o(3) n by (simp add: take_Suc_conv_app_nth)
  moreover have "b64_text src 0 = wrap72 (rfc4648 src)"
    using b64_text_lines[of 0 src] by (cases src rule: rfc4648.cases) (simp_all add: wrap72.simps digits_def)
  ultimately show ?thesis using True o(1,2) n assms(1,3) by auto
next
  case False
  then show ?thesis using encode_olen_wraps[of "length src"] assms(2) by (simp add: base64_encode_def)
qed

text \<open>
  C17. \<open>base64_encode\<close> writes the RFC 4648 encoding of its input in lines of 72 characters,
  terminated by a NUL, inside the buffer it allocated; it refuses exactly the lengths for
  which its computation of the buffer size wraps around.
\<close>

theorem base64_encode_correct:
  assumes "alloc_ok malloc" and "length src < 2 ^ 64" and "malloc (encode_olen (length src)) = Some m"
  shows "if length src < 2 ^ 62
    then \<exists>out n. base64_encode malloc src = Inr (Some (out, n)) \<and> length out = length m \<and>
      take n out = wrap72 (rfc4648 src) \<and> n < length out \<and> out ! n = 0
    else base64_encode malloc src = Inr None"
  using assms by (rule encode_lines)

theorem base64_encode_correct_witness:
  "\<exists>out n. base64_encode zero_alloc [77, 97, 110, 77] = Inr (Some (out, n)) \<and>
     take n out = wrap72 [84, 87, 70, 117, 84, 81, 61, 61] \<and> out ! n = 0"
proof -
  have r: "rfc4648 [77, 97, 110, 77] = [84, 87, 70, 117, 84, 81, 61, 61]" by code_simp
  have "length [77, 97, 110, 77 :: u8] < 2 ^ 64" by simp
  from base64_encode_correct[OF alloc_ok_zero this zero_alloc_def, unfolded r] show ?thesis by auto
qed

text \<open>
  C16. Decoding inverts encoding: the decoder returns exactly the bytes that were encoded, for
  every input but the empty one, for which it returns the null pointer.
\<close>

theorem base64_roundtrip:
  assumes "alloc_ok malloc" and "\<forall>n. malloc n \<noteq> None" and "length src < 2 ^ 62"
  shows "\<exists>out n. base64_encode malloc src = Inr (Some (out, n)) \<and>
    (if src = [] then base64_decode malloc (take n out) = Inr None
     else \<exists>res. base64_decode malloc (take n out) = Inr (Some (res, length src)) \<and> take (length src) res = src)"
proof -
  let ?n = "length (b64_text src 0)" and ?p = "b64_pad (length src)"
  from assms(2) obtain m where "malloc (encode_olen (length src)) = Some m" by blast
  from base64_encode_ok[OF assms(1,3) this] obtain out where
    o: "base64_encode malloc src = Inr (Some (out, ?n))" "take (Suc ?n) out = b64_text src 0 @ [0]" by blast
  have t: "take ?n out = b64_text src 0"
    using arg_cong[OF o(2), of "take ?n"] by simp
  have c: "decode_count (b64_text src 0) div 4 * 3 = length src + ?p"
    "decode_count (b64_text src 0) mod 4 = 0" "decode_count (b64_text src 0) = 0 \<longleftrightarrow> src = []"
    using groups_padded[of "length src"] by (auto simp: decode_count_text b64_pad_def)
  obtain d where d: "malloc (length src + ?p) = Some d" using assms(2) by blast
  have l: "length d = length src + ?p" using assms(1) d by blast
  have "base64_decode malloc (b64_text src 0) =
      (if src = [] then Inr None else Inr (Some (src @ replicate ?p 0, length src)))"
    unfolding base64_decode_def Let_def c
    by (simp add: d decode_text puts_mem_write mem_write_def l del: decode_loop.simps b64_text.simps)
  with o(1) t show ?thesis by (cases "src = []") auto
qed

theorem base64_roundtrip_witness:
  "\<exists>out n res. base64_encode zero_alloc [1, 2, 3, 4, 5] = Inr (Some (out, n)) \<and>
     base64_decode zero_alloc (take n out) = Inr (Some (res, 5)) \<and> take 5 res = [1, 2, 3, 4, 5]"
proof -
  have "\<forall>n. zero_alloc n \<noteq> None" "length [1, 2, 3, 4, 5 :: u8] < 2 ^ 62" by (simp_all add: zero_alloc_def)
  from base64_roundtrip[OF alloc_ok_zero this] show ?thesis by (auto simp: eval_nat_numeral)
qed

end
