(* ===== verification/Sha1.thy ===== *)
theory Sha1
  imports Prelude
begin

text \<open>
  ExtNet/common/sha1.h and sha1.c: the incremental SHA-1. A null context, message or digest is
  \<open>None\<close>, and the digest is memory of the caller, returned as the call leaves it;
  the \<open>int_least16_t\<close> index stays below 65 and is a \<open>nat\<close>; writing a message block
  through it is checked against the block's 64 bytes.
\<close>

unbundle bit_operations_syntax

section \<open>The context\<close>

datatype sha_code = shaSuccess | shaNull | shaInputTooLong | shaStateError

record sha1_context =
  Intermediate_Hash :: "u32 list"
  Length_Low :: u32
  Length_High :: u32
  Message_Block_Index :: nat
  Message_Block :: "u8 list"
  Computed :: bool
  Corrupted :: sha_code \<comment> \<open>the code is an \<open>int\<close>; 0 is \<open>shaSuccess\<close>, 1 is \<open>shaNull\<close>\<close>

definition SHA1CircularShift :: "nat \<Rightarrow> u32 \<Rightarrow> u32" where
  "SHA1CircularShift bits w = push_bit bits w OR drop_bit (32 - bits) w"

definition SHA1Reset :: "sha1_context option \<Rightarrow> sha_code \<times> sha1_context option" where
  "SHA1Reset context = (case context of
     None \<Rightarrow> (shaNull, None)
   | Some c \<Rightarrow> (shaSuccess, Some (c\<lparr>Length_Low := 0, Length_High := 0, Message_Block_Index := 0,
       Intermediate_Hash := [0x67452301, 0xEFCDAB89, 0x98BADCFE, 0x10325476, 0xC3D2E1F0],
       Computed := False, Corrupted := shaSuccess\<rparr>)))"

section \<open>One block\<close>

definition word_at :: "u8 list \<Rightarrow> nat \<Rightarrow> u32" where
  "word_at block t =
     push_bit 24 (ucast (block ! (t * 4))) OR push_bit 16 (ucast (block ! (t * 4 + 1)))
     OR push_bit 8 (ucast (block ! (t * 4 + 2))) OR ucast (block ! (t * 4 + 3))"

definition W_words :: "u8 list \<Rightarrow> u32 list" where
  "W_words block =
     fold (\<lambda>t W. W @ [SHA1CircularShift 1 (W ! (t - 3) XOR W ! (t - 8) XOR W ! (t - 14) XOR W ! (t - 16))])
       [16..<80] (map (word_at block) [0..<16])"

type_synonym sha_vars = "u32 \<times> u32 \<times> u32 \<times> u32 \<times> u32"

definition sha_round ::
  "(u32 \<Rightarrow> u32 \<Rightarrow> u32 \<Rightarrow> u32) \<Rightarrow> u32 \<Rightarrow> u32 list \<Rightarrow> nat \<Rightarrow> sha_vars \<Rightarrow> sha_vars" where
  "sha_round f K W t = (\<lambda>(A, B, C, D, E).
     (let temp = SHA1CircularShift 5 A + f B C D + E + W ! t + K
      in (temp, A, SHA1CircularShift 30 B, C, D)))"

definition sha_rounds :: "u32 list \<Rightarrow> sha_vars \<Rightarrow> sha_vars" where
  "sha_rounds W vars =
     (let vars = fold (sha_round (\<lambda>B C D. (B AND C) OR (NOT B AND D)) 0x5A827999 W) [0..<20] vars;
          vars = fold (sha_round (\<lambda>B C D. B XOR C XOR D) 0x6ED9EBA1 W) [20..<40] vars;
          vars = fold (sha_round (\<lambda>B C D. (B AND C) OR (B AND D) OR (C AND D)) 0x8F1BBCDC W) [40..<60] vars
      in fold (sha_round (\<lambda>B C D. B XOR C XOR D) 0xCA62C1D6 W) [60..<80] vars)"

definition SHA1ProcessMessageBlock :: "sha1_context \<Rightarrow> sha1_context" where
  "SHA1ProcessMessageBlock c =
     (let H = Intermediate_Hash c in
      case sha_rounds (W_words (Message_Block c)) (H ! 0, H ! 1, H ! 2, H ! 3, H ! 4) of
        (A, B, C, D, E) \<Rightarrow>
          c\<lparr>Intermediate_Hash := [H ! 0 + A, H ! 1 + B, H ! 2 + C, H ! 3 + D, H ! 4 + E],
            Message_Block_Index := 0\<rparr>)"

section \<open>Input\<close>

definition store_byte :: "u8 \<Rightarrow> sha1_context \<Rightarrow> sha1_context option" where
  "store_byte b c =
     map_option (\<lambda>(m, i). c\<lparr>Message_Block := m, Message_Block_Index := i\<rparr>)
       (put b (Message_Block c, Message_Block_Index c))"

definition input_byte :: "u8 \<Rightarrow> sha1_context \<Rightarrow> sha1_context option" where
  "input_byte b c = (case store_byte b c of
     None \<Rightarrow> None
   | Some c1 \<Rightarrow>
       (let c2 = c1\<lparr>Length_Low := Length_Low c1 + 8\<rparr>;
            c3 = (if Length_Low c2 = 0
                  then (let c' = c2\<lparr>Length_High := Length_High c2 + 1\<rparr>
                        in if Length_High c' = 0 then c'\<lparr>Corrupted := shaNull\<rparr> else c')
                  else c2)
        in Some (if Message_Block_Index c3 = 64 then SHA1ProcessMessageBlock c3 else c3)))"

fun input_loop :: "u8 list \<Rightarrow> sha1_context \<Rightarrow> sha1_context option" where
  "input_loop [] c = Some c"
| "input_loop (b # bs) c =
     (if Corrupted c \<noteq> shaSuccess then Some c
      else (case input_byte b c of None \<Rightarrow> None | Some c' \<Rightarrow> input_loop bs c'))"

text \<open>
  The length is a natural number: the calls the code can make are those below \<open>2 ^ 32\<close>, what is
  shown of all lengths holds of them.
\<close>

definition SHA1Input ::
  "sha1_context option \<Rightarrow> u8 list option \<Rightarrow> nat \<Rightarrow> fault + (sha_code \<times> sha1_context option)" where
  "SHA1Input context message_array n =
     (if n = 0 then Inr (shaSuccess, context)
      else (case (context, message_array) of
        (Some c, Some a) \<Rightarrow>
          if Computed c then Inr (shaStateError, Some (c\<lparr>Corrupted := shaStateError\<rparr>))
          else if Corrupted c \<noteq> shaSuccess then Inr (Corrupted c, Some c)
          else (case mem_read a 0 n of
            None \<Rightarrow> Inl Undef
          | Some bs \<Rightarrow>
              (case input_loop bs c of
                 None \<Rightarrow> Inl Undef
               | Some c' \<Rightarrow> Inr (shaSuccess, Some c')))
      | _ \<Rightarrow> Inr (shaNull, context)))"

section \<open>Result\<close>

text \<open>\<open>while (Message_Block_Index < n) Message_Block[Message_Block_Index++] = 0\<close>\<close>

fun zero_until :: "nat \<Rightarrow> nat \<Rightarrow> sha1_context \<Rightarrow> sha1_context option" where
  "zero_until 0 n c = Some c"
| "zero_until (Suc fuel) n c =
     (if Message_Block_Index c < n
      then (case store_byte 0 c of None \<Rightarrow> None | Some c' \<Rightarrow> zero_until fuel n c')
      else Some c)"

definition length_bytes :: "sha1_context \<Rightarrow> u8 list" where
  "length_bytes c =
     [ucast (drop_bit 24 (Length_High c)), ucast (drop_bit 16 (Length_High c)),
      ucast (drop_bit 8 (Length_High c)), ucast (Length_High c),
      ucast (drop_bit 24 (Length_Low c)), ucast (drop_bit 16 (Length_Low c)),
      ucast (drop_bit 8 (Length_Low c)), ucast (Length_Low c)]"

definition SHA1PadMessage :: "sha1_context \<Rightarrow> sha1_context option" where
  "SHA1PadMessage c = (case store_byte 0x80 c of
     None \<Rightarrow> None
   | Some c1 \<Rightarrow>
       (case (if Message_Block_Index c > 55
              then (case zero_until 64 64 c1 of
                      None \<Rightarrow> None
                    | Some c2 \<Rightarrow> zero_until 64 56 (SHA1ProcessMessageBlock c2))
              else zero_until 64 56 c1) of
          None \<Rightarrow> None
        | Some c3 \<Rightarrow>
            map_option (\<lambda>m. SHA1ProcessMessageBlock (c3\<lparr>Message_Block := m\<rparr>))
              (mem_write (Message_Block c3) 56 (length_bytes c3))))"

text \<open>Each byte of the digest is written through \<open>Message_Digest\<close>, which has to have 20 of them.\<close>

definition SHA1Result ::
  "sha1_context option \<Rightarrow> u8 list option \<Rightarrow> fault + (sha_code \<times> sha1_context option \<times> u8 list option)" where
  "SHA1Result context digest = (case (context, digest) of
     (Some c, Some d) \<Rightarrow>
       if Corrupted c \<noteq> shaSuccess then Inr (Corrupted c, Some c, Some d)
       else
         (case (if \<not> Computed c
                then map_option (\<lambda>c'. c'\<lparr>Message_Block := replicate 64 0, Length_Low := 0,
                       Length_High := 0, Computed := True\<rparr>) (SHA1PadMessage c)
                else Some c) of
            None \<Rightarrow> Inl Undef
          | Some c' \<Rightarrow>
              (case mem_write d 0
                 (map (\<lambda>i. ucast (drop_bit (8 * (3 - i mod 4)) (Intermediate_Hash c' ! (i div 4)))) [0..<20]) of
                 None \<Rightarrow> Inl Undef
               | Some d' \<Rightarrow> Inr (shaSuccess, Some c', Some d')))
   | _ \<Rightarrow> Inr (shaNull, context, digest))"

end
