(* ===== verification/Digest.thy ===== *)
theory Digest
  imports Prelude
begin

text \<open>
  The interface of an incremental digest, as the handshake uses it: \<open>holds m s\<close> says
  that the state \<open>s\<close> has taken in the message \<open>m\<close>, and \<open>fits\<close> limits its length.
  The digest of a message does not depend on the pieces in which it is fed.
\<close>

fun feeds :: "('b list \<Rightarrow> 's \<Rightarrow> 's option) \<Rightarrow> 'b list list \<Rightarrow> 's \<Rightarrow> 's option" where
  "feeds feed [] s = Some s"
| "feeds feed (p # ps) s = (case feed p s of None \<Rightarrow> None | Some s' \<Rightarrow> feeds feed ps s')"

locale incremental_digest =
  fixes holds :: "'b list \<Rightarrow> 's \<Rightarrow> bool"
    and feed :: "'b list \<Rightarrow> 's \<Rightarrow> 's option"
    and finish :: "'s \<Rightarrow> 'd option"
    and digest :: "'b list \<Rightarrow> 'd"
    and fits :: "'b list \<Rightarrow> bool"
  assumes feed_law: "holds m s \<Longrightarrow> fits (m @ xs) \<Longrightarrow> \<exists>s'. feed xs s = Some s' \<and> holds (m @ xs) s'"
    and finish_law: "holds m s \<Longrightarrow> finish s = Some (digest m)"
    and fits_prefix: "fits (m @ xs) \<Longrightarrow> fits m"
begin

lemma feeds_hold:
  "holds m s \<Longrightarrow> fits (m @ concat ps) \<Longrightarrow>
   \<exists>s'. feeds feed ps s = Some s' \<and> holds (m @ concat ps) s'"
proof (induction ps arbitrary: m s)
  case (Cons p ps)
  then have "fits ((m @ p) @ concat ps)" by simp
  with feed_law[OF Cons.prems(1) fits_prefix[OF this]] Cons.IH[of "m @ p"] show ?case by fastforce
qed simp

lemma digest_pieces:
  "holds [] s \<Longrightarrow> fits (concat ps) \<Longrightarrow>
   \<exists>s'. feeds feed ps s = Some s' \<and> holds (concat ps) s' \<and> finish s' = Some (digest (concat ps))"
  using feeds_hold[of "[]" s ps] finish_law by auto

end

end
