(* ===== verification/Sha1_Correct.thy ===== *)
theory Sha1_Correct
  imports Sha1 Digest
begin

text \<open>
  sha1.c against FIPS 180-4: the specification below is the standard's, with the
  padding as a list and the message schedule as a recursion, and the incremental code
  computes it for every way to cut the message into pieces.
\<close>

section \<open>FIPS 180-4\<close>

fun fips_W :: "(nat \<Rightarrow> u32) \<Rightarrow> nat \<Rightarrow> u32" where
  "fips_W M t =
     (if t < 16 then M t
      else word_rotl 1 (fips_W M (t - 3) XOR fips_W M (t - 8) XOR fips_W M (t - 14) XOR fips_W M (t - 16)))"

declare fips_W.simps [simp del]

definition fips_f :: "nat \<Rightarrow> u32 \<Rightarrow> u32 \<Rightarrow> u32 \<Rightarrow> u32" where
  "fips_f t x y z =
     (if t < 20 then (x AND y) XOR (NOT x AND z)
      else if t < 40 then x XOR y XOR z
      else if t < 60 then (x AND y) XOR (x AND z) XOR (y AND z)
      else x XOR y XOR z)"

definition fips_K :: "nat \<Rightarrow> u32" where
  "fips_K t = (if t < 20 then 0x5A827999 else if t < 40 then 0x6ED9EBA1
     else if t < 60 then 0x8F1BBCDC else 0xCA62C1D6)"

definition fips_step :: "(nat \<Rightarrow> u32) \<Rightarrow> nat \<Rightarrow> sha_vars \<Rightarrow> sha_vars" where
  "fips_step M t = (\<lambda>(a, b, c, d, e).
     (word_rotl 5 a + fips_f t b c d + e + fips_K t + fips_W M t, a, word_rotl 30 b, c, d))"

definition fips_word :: "u8 list \<Rightarrow> nat \<Rightarrow> u32" where
  "fips_word block t =
     of_nat (unat (block ! (4 * t)) * 2 ^ 24 + unat (block ! (4 * t + 1)) * 2 ^ 16 +
       unat (block ! (4 * t + 2)) * 2 ^ 8 + unat (block ! (4 * t + 3)))"

definition fips_compress :: "sha_vars \<Rightarrow> u8 list \<Rightarrow> sha_vars" where
  "fips_compress = (\<lambda>(h0, h1, h2, h3, h4) block.
     (case fold (fips_step (fips_word block)) [0..<80] (h0, h1, h2, h3, h4) of
        (a, b, c, d, e) \<Rightarrow> (h0 + a, h1 + b, h2 + c, h3 + d, h4 + e)))"

function fips_hash :: "sha_vars \<Rightarrow> u8 list \<Rightarrow> sha_vars" where
  "fips_hash H xs = (if length xs < 64 then H else fips_hash (fips_compress H (take 64 xs)) (drop 64 xs))"
  by pat_completeness auto
termination by (relation "measure (length \<circ> snd)") auto

declare fips_hash.simps [simp del]

definition fips_H0 :: sha_vars where
  "fips_H0 = (0x67452301, 0xEFCDAB89, 0x98BADCFE, 0x10325476, 0xC3D2E1F0)"

definition be_bytes :: "nat \<Rightarrow> nat \<Rightarrow> u8 list" where
  "be_bytes k n = map (\<lambda>i. of_nat (n div 256 ^ (k - 1 - i))) [0..<k]"

text \<open>A 1 bit, zeros up to 8 bytes short of a multiple of 64, and the length in bits.\<close>

definition fips_pad :: "u8 list \<Rightarrow> u8 list" where
  "fips_pad m = m @ 0x80 # replicate ((119 - length m mod 64) mod 64) 0 @ be_bytes 8 (8 * length m)"

definition sha1 :: "u8 list \<Rightarrow> u8 list" where
  "sha1 m = (case fips_hash fips_H0 (fips_pad m) of
     (a, b, c, d, e) \<Rightarrow> concat (map (\<lambda>w. be_bytes 4 (unat w)) [a, b, c, d, e]))"

section \<open>One block\<close>

lemma shift_rotl:
  assumes "0 < n" and "n < 32"
  shows "SHA1CircularShift n w = word_rotl n w"
proof (rule bit_word_eqI)
  fix i assume "i < LENGTH(32)"
  then have i: "i < 32" by simp
  have "(i + (32 - n)) mod 32 = (if n \<le> i then i - n else i + (32 - n))"
  proof (cases "n \<le> i")
    case True
    then have "i + (32 - n) = (i - n) + 32" using assms by simp
    with True i show ?thesis by (simp only: mod_add_self2) simp
  qed (use assms i in simp)
  then have r: "bit (word_rotl n w) i = bit w (if n \<le> i then i - n else i + (32 - n))"
    using assms i by (simp only: bit_word_rotl_iff) simp
  have "\<not> bit w (32 - n + i)" if "n \<le> i"
    using that by (auto dest: bit_imp_le_length)
  then show "bit (SHA1CircularShift n w) i = bit (word_rotl n w) i"
    unfolding r using i by (simp add: SHA1CircularShift_def bit_simps add.commute)
qed

lemma word_at_fips: "word_at block t = fips_word block t"
proof -
  have b: "ucast x = (of_nat (unat x) :: u32)" for x :: u8 by simp
  have d: "push_bit 24 (ucast a) AND (push_bit 16 (ucast b) OR push_bit 8 (ucast c) OR ucast d) = (0::u32)"
    "push_bit 16 (ucast b) AND (push_bit 8 (ucast c) OR ucast d) = (0::u32)"
    "push_bit 8 (ucast c) AND ucast d = (0::u32)"
    for a b c d :: u8
    by (rule bit_word_eqI; auto simp: bit_simps dest!: bit_imp_le_length)+
  show ?thesis
    unfolding word_at_def fips_word_def
    unfolding d(1)[THEN disjunctive_add_eq_or, symmetric]
    unfolding d(2)[THEN disjunctive_add_eq_or, symmetric]
    unfolding d(3)[THEN disjunctive_add_eq_or, symmetric]
    by (simp add: push_bit_eq_mult b mult.commute del: of_nat_unat)
qed

lemma upt_split: "i \<le> j \<Longrightarrow> j \<le> k \<Longrightarrow> [i..<k] = [i..<j] @ [j..<k]"
  using upt_add_eq_append[of i j "k - j"] by simp

lemma W_fold:
  "n \<le> 64 \<Longrightarrow>
   fold (\<lambda>t W. W @ [SHA1CircularShift 1 (W ! (t - 3) XOR W ! (t - 8) XOR W ! (t - 14) XOR W ! (t - 16))])
       [16..<16 + n] (map (word_at block) [0..<16]) = map (fips_W (fips_word block)) [0..<16 + n]"
proof (induction n)
  case 0
  show ?case by (simp add: fips_W.simps word_at_fips)
next
  case (Suc n)
  have u: "[16..<16 + Suc n] = [16..<16 + n] @ [16 + n]" "[0..<16 + Suc n] = [0..<16 + n] @ [16 + n]"
    using upt_Suc_append[of 16 "16 + n"] upt_Suc_append[of 0 "16 + n"]
    by (simp_all only: add_Suc_right le_add1 zero_le)
  have n: "map f [0..<16 + n] ! (16 + n - k) = f (16 + n - k)" if "0 < k" for f :: "nat \<Rightarrow> u32" and k
    using that by (simp add: nth_append del: upt_Suc)
  from Suc show ?case
    unfolding u fold_append comp_apply
    by (simp only: Suc_leD fold.simps comp_apply id_apply n zero_less_numeral map_append list.map
        append_same_eq fips_W.simps[of _ "16 + n"] shift_rotl) simp
qed

lemma W_words_fips: "t < 80 \<Longrightarrow> W_words block ! t = fips_W (fips_word block) t"
proof -
  have e: "(16::nat) + 64 = 80" by simp
  assume "t < 80"
  with W_fold[of 64 block, unfolded e] show ?thesis unfolding W_words_def
    by (simp only: order_refl nth_map_upt diff_zero add_0)
qed

lemma choice: "(B AND C) OR (NOT B AND D) = (B AND C) XOR (NOT B AND D)"
  "(B AND C) OR (B AND D) OR (C AND D) = (B AND C) XOR (B AND D) XOR (C AND D)" for B C D :: u32
  by (rule bit_word_eqI; auto simp: bit_simps)+

lemma sha_round_fips:
  assumes "t < 80" and "\<And>B C D. f B C D = fips_f t B C D" and "K = fips_K t"
  shows "sha_round f K (W_words block) t = fips_step (fips_word block) t"
  using assms by (auto simp: sha_round_def fips_step_def W_words_fips shift_rotl Let_def)

lemma sha_rounds_fips: "sha_rounds (W_words block) = fold (fips_step (fips_word block)) [0..<80]"
proof
  fix v
  have r: "[0..<80] = [0..<20] @ [20..<40] @ [40..<60] @ [60..<80]"
    by (simp only: append_assoc[symmetric] upt_split[symmetric])
  show "sha_rounds (W_words block) v = fold (fips_step (fips_word block)) [0..<80] v"
    unfolding r sha_rounds_def Let_def fold_append comp_apply
    by (intro fold_cong refl) (auto intro!: sha_round_fips simp: fips_f_def fips_K_def choice)
qed

definition H_list :: "sha_vars \<Rightarrow> u32 list" where
  "H_list = (\<lambda>(a, b, c, d, e). [a, b, c, d, e])"

lemma process_block:
  "Intermediate_Hash c = H_list H \<Longrightarrow>
   SHA1ProcessMessageBlock c =
     c\<lparr>Intermediate_Hash := H_list (fips_compress H (Message_Block c)), Message_Block_Index := 0\<rparr>"
  by (cases H)
     (simp add: SHA1ProcessMessageBlock_def sha_rounds_fips fips_compress_def H_list_def Let_def eval_nat_numeral
        split: prod.splits)

section \<open>Pieces of a message\<close>

lemma fips_hash_append:
  "length xs mod 64 = 0 \<Longrightarrow> fips_hash H (xs @ ys) = fips_hash (fips_hash H xs) ys"
proof (induction "length xs" arbitrary: xs H rule: less_induct)
  case less
  show ?case
  proof (cases "length xs < 64")
    case True
    with less.prems have "xs = []" by simp
    then show ?thesis by (simp add: fips_hash.simps[of H "[]"])
  next
    case False
    with less.prems have "(length xs - 64) mod 64 = 0" by (simp add: le_mod_geq[symmetric])
    with False less.hyps[of "drop 64 xs" "fips_compress H (take 64 xs)"] show ?thesis
      by (simp add: fips_hash.simps[of H "xs @ ys"] fips_hash.simps[of H xs])
  qed
qed

lemma fips_hash_block: "length xs = 64 \<Longrightarrow> fips_hash H xs = fips_compress H xs"
  by (simp add: fips_hash.simps[of H xs] fips_hash.simps[of _ "[]"])

text \<open>The context holds the message \<open>m\<close>: whole blocks hashed and the rest in the block.\<close>

definition sha_holds :: "u8 list \<Rightarrow> sha1_context \<Rightarrow> bool" where
  "sha_holds m c \<longleftrightarrow> (\<exists>ms part. m = ms @ part \<and> length ms mod 64 = 0 \<and> length part < 64 \<and>
     Intermediate_Hash c = H_list (fips_hash fips_H0 ms) \<and>
     Message_Block_Index c = length part \<and> length (Message_Block c) = 64 \<and>
     take (length part) (Message_Block c) = part \<and>
     Length_Low c = of_nat (8 * length m) \<and> Length_High c = of_nat (8 * length m div 2 ^ 32) \<and>
     \<not> Computed c \<and> Corrupted c = shaSuccess)"

lemma sha_holdsI:
  "\<lbrakk>length ms mod 64 = 0; length part < 64; Intermediate_Hash c = H_list (fips_hash fips_H0 ms);
    Message_Block_Index c = length part; length (Message_Block c) = 64;
    take (length part) (Message_Block c) = part; m = ms @ part;
    Length_Low c = of_nat (8 * length m); Length_High c = of_nat (8 * length m div 2 ^ 32);
    \<not> Computed c; Corrupted c = shaSuccess\<rbrakk> \<Longrightarrow> sha_holds m c"
  unfolding sha_holds_def by (intro exI conjI)

lemma sha_holds_reset:
  "length (Message_Block c) = 64 \<Longrightarrow> \<exists>c'. SHA1Reset (Some c) = (shaSuccess, Some c') \<and> sha_holds [] c'"
  by (simp add: SHA1Reset_def sha_holds_def H_list_def fips_H0_def fips_hash.simps)

lemma of_nat_u32_0: "(of_nat n :: u32) = 0 \<longleftrightarrow> n mod 2 ^ 32 = 0"
  by (simp add: word_of_nat_eq_0_iff dvd_eq_mod_eq_0)

lemma bits_div: "8 * n div 2 ^ 32 = n div (2 ^ 29 :: nat)"
  using div_mult_mult1[of 8 n "2 ^ 29 :: nat"] by simp

lemma bits_mod: "(of_nat (8 * n) :: u32) = 0 \<longleftrightarrow> n mod 2 ^ 29 = 0"
  using mod_mult_mult1[of 8 n "2 ^ 29 :: nat"] unfolding of_nat_u32_0 by simp

lemma length_step:
  assumes "8 * Suc n < 2 ^ 64"
  shows "(of_nat (8 * Suc n) :: u32) = 0 \<Longrightarrow> (of_nat (8 * Suc n div 2 ^ 32) :: u32) = of_nat (8 * n div 2 ^ 32) + 1
      \<and> (of_nat (8 * Suc n div 2 ^ 32) :: u32) \<noteq> 0"
    and "(of_nat (8 * Suc n) :: u32) \<noteq> 0 \<Longrightarrow> (of_nat (8 * Suc n div 2 ^ 32) :: u32) = of_nat (8 * n div 2 ^ 32)"
proof -
  assume "(of_nat (8 * Suc n) :: u32) = 0"
  then have m: "Suc n mod 2 ^ 29 = 0" unfolding bits_mod .
  then have d: "Suc n div 2 ^ 29 = Suc (n div 2 ^ 29)" by (simp add: div_Suc)
  have "Suc n div 2 ^ 29 < 2 ^ 32" using assms by (simp add: less_mult_imp_div_less)
  with d have "Suc n div 2 ^ 29 mod 2 ^ 32 \<noteq> 0" by simp
  then show "(of_nat (8 * Suc n div 2 ^ 32) :: u32) = of_nat (8 * n div 2 ^ 32) + 1
      \<and> (of_nat (8 * Suc n div 2 ^ 32) :: u32) \<noteq> 0"
    unfolding bits_div of_nat_u32_0 d by simp
next
  assume "(of_nat (8 * Suc n) :: u32) \<noteq> 0"
  then have m: "Suc n mod 2 ^ 29 \<noteq> 0" unfolding bits_mod .
  then show "(of_nat (8 * Suc n div 2 ^ 32) :: u32) = of_nat (8 * n div 2 ^ 32)"
    unfolding bits_div div_Suc[of n "2 ^ 29"] by simp
qed

text \<open>Storing a byte and counting its bits.\<close>

lemma input_byte_counts:
  assumes "length (Message_Block c) = 64" and "n = Message_Block_Index c" and "n < 64" and "8 * Suc k < 2 ^ 64"
    and "Length_Low c = of_nat (8 * k)" and "Length_High c = of_nat (8 * k div 2 ^ 32)"
    and "\<not> Computed c" and "Corrupted c = shaSuccess"
    and "c1 = c\<lparr>Message_Block := (Message_Block c)[n := b], Message_Block_Index := Suc n,
       Length_Low := of_nat (8 * Suc k), Length_High := of_nat (8 * Suc k div 2 ^ 32)\<rparr>"
  shows "input_byte b c = Some (if Suc n = 64 then SHA1ProcessMessageBlock c1 else c1)"
proof -
  define low where "low = (of_nat (8 * Suc k) :: u32)"
  define high where "high = (of_nat (8 * Suc k div 2 ^ 32) :: u32)"
  have low: "Length_Low c + 8 = low" unfolding low_def assms(5) by simp
  note step = length_step[OF assms(4), folded low_def high_def assms(6)]
  have "store_byte b c = Some (c\<lparr>Message_Block := (Message_Block c)[n := b], Message_Block_Index := Suc n\<rparr>)"
    using assms(1-3) by (simp add: store_byte_def put_def)
  with step assms(7,8) assms(9)[folded low_def high_def] show ?thesis
    by (cases "low = 0") (auto simp: input_byte_def low Let_def)
qed

lemma input_byte_holds:
  assumes "sha_holds m c" and "8 * length (m @ [b]) < 2 ^ 64"
  shows "\<exists>c'. input_byte b c = Some c' \<and> sha_holds (m @ [b]) c'"
proof -
  from assms(1) obtain ms part where h: "m = ms @ part" "length ms mod 64 = 0" "length part < 64"
    "Intermediate_Hash c = H_list (fips_hash fips_H0 ms)" "Message_Block_Index c = length part"
    "length (Message_Block c) = 64" "take (length part) (Message_Block c) = part"
    "Length_Low c = of_nat (8 * length m)" "Length_High c = of_nat (8 * length m div 2 ^ 32)"
    "\<not> Computed c" "Corrupted c = shaSuccess"
    unfolding sha_holds_def by (elim exE conjE) (rule that)
  define block where "block = (Message_Block c)[length part := b]"
  have block: "length block = 64" by (simp add: block_def h(6))
  have "take (Suc (length part)) block = take (length part) (Message_Block c) @ [b]"
    using h(3,6) by (simp add: block_def take_Suc_conv_app_nth)
  then have filled: "take (Suc (length part)) block = part @ [b]" unfolding h(7) .
  define c1 where "c1 = c\<lparr>Message_Block := block, Message_Block_Index := Suc (length part),
     Length_Low := of_nat (8 * Suc (length m)), Length_High := of_nat (8 * Suc (length m) div 2 ^ 32)\<rparr>"
  have "8 * Suc (length m) < 2 ^ 64" using assms(2) by simp
  from input_byte_counts[OF h(6) h(5)[symmetric] h(3) this h(8,9,10,11) c1_def[unfolded block_def]]
  have ib: "input_byte b c = Some (if Suc (length part) = 64 then SHA1ProcessMessageBlock c1 else c1)" .
  show ?thesis
  proof (cases "Suc (length part) = 64")
    case True
    then have "block = part @ [b]" using block filled by simp
    then have H: "fips_hash fips_H0 (m @ [b]) = fips_compress (fips_hash fips_H0 ms) block"
      using fips_hash_append[OF h(2)] True by (simp add: h(1) fips_hash_block)
    have "length (m @ [b]) = length ms + 64" using h(1) True by simp
    then have "length (m @ [b]) mod 64 = 0" using h(2) by (simp only: mod_add_self2)
    moreover have "SHA1ProcessMessageBlock c1 =
        c1\<lparr>Intermediate_Hash := H_list (fips_hash fips_H0 (m @ [b])), Message_Block_Index := 0\<rparr>"
      unfolding H by (subst process_block) (simp_all add: c1_def h(4))
    ultimately have "sha_holds (m @ [b]) (SHA1ProcessMessageBlock c1)"
      by (intro sha_holdsI[of "m @ [b]" "[]"]) (simp_all add: c1_def h(10,11) block)
    with True show ?thesis by (simp add: ib)
  next
    case False
    with h(3) have "length (part @ [b]) < 64" by simp
    then have "sha_holds (m @ [b]) c1"
      using h(1,2,4,10,11) block filled
      by (intro sha_holdsI[of ms "part @ [b]"]) (simp_all add: c1_def)
    with False show ?thesis by (simp add: ib)
  qed
qed

lemma input_loop_holds:
  "sha_holds m c \<Longrightarrow> 8 * length (m @ bs) < 2 ^ 64 \<Longrightarrow>
   \<exists>c'. input_loop bs c = Some c' \<and> sha_holds (m @ bs) c'"
proof (induction bs arbitrary: m c)
  case (Cons b bs)
  then have "8 * length (m @ [b]) < 2 ^ 64" by simp
  from input_byte_holds[OF Cons.prems(1) this] obtain c' where
    c': "input_byte b c = Some c'" "sha_holds (m @ [b]) c'" by blast
  have "Corrupted c = shaSuccess" using Cons.prems(1) by (auto simp: sha_holds_def)
  with c' Cons.IH[OF c'(2)] Cons.prems(2) show ?case by simp
qed simp

lemma input_holds:
  assumes "sha_holds m c" and "8 * length (m @ bs) < 2 ^ 64"
  shows "\<exists>c'. SHA1Input (Some c) (Some bs) (length bs) = Inr (shaSuccess, Some c') \<and> sha_holds (m @ bs) c'"
proof -
  from input_loop_holds[OF assms] obtain c' where "input_loop bs c = Some c'" "sha_holds (m @ bs) c'" by blast
  moreover have "Corrupted c = shaSuccess" "\<not> Computed c" using assms(1) by (auto simp: sha_holds_def)
  ultimately show ?thesis using assms(1) by (cases bs) (simp_all add: SHA1Input_def mem)
qed

section \<open>The result\<close>

lemma zero_until_fill:
  "\<lbrakk>Message_Block_Index c \<le> n; n \<le> length (Message_Block c); n - Message_Block_Index c < fuel\<rbrakk> \<Longrightarrow>
   zero_until fuel n c = Some (c\<lparr>Message_Block := take (Message_Block_Index c) (Message_Block c) @
     replicate (n - Message_Block_Index c) 0 @ drop n (Message_Block c), Message_Block_Index := n\<rparr>)"
proof (induction fuel n c rule: zero_until.induct)
  case (2 fuel n c)
  let ?i = "Message_Block_Index c"
  show ?case
  proof (cases "?i < n")
    case True
    then have s: "store_byte 0 c = Some (c\<lparr>Message_Block := (Message_Block c)[?i := 0], Message_Block_Index := Suc ?i\<rparr>)"
      using 2(3) by (simp add: store_byte_def put_def)
    have "n - ?i = Suc (n - Suc ?i)" using True by simp
    with 2(1)[OF True s] 2(2-) True s show ?thesis
      by (simp add: take_Suc_conv_app_nth)
  qed (use 2(2) in simp)
qed simp

lemma of_nat_byte:
  "k + 8 \<le> 32 \<Longrightarrow> ucast (drop_bit k (of_nat n :: u32)) = (of_nat (n div 2 ^ k) :: u8)"
  by (rule bit_word_eqI) (simp add: bit_simps bit_of_nat_iff_bit flip: drop_bit_eq_div)

lemma length_bytes_be:
  assumes "Length_Low c = of_nat (8 * n)" and "Length_High c = of_nat (8 * n div 2 ^ 32)"
  shows "length_bytes c = be_bytes 8 (8 * n)"
proof -
  have u: "[0..<8] = [0, 1, 2, 3, 4, 5, 6, 7]" by (simp add: upt_rec)
  have z: "ucast w = ucast (drop_bit 0 w)" for w :: u32 by simp
  show ?thesis
    unfolding length_bytes_def be_bytes_def u assms z[of "of_nat _"]
    by (simp only: of_nat_byte) (simp add: div_mult2_eq[symmetric] del: of_nat_mult)
qed

text \<open>The block \<open>part\<close>, the 1 bit, zeros and the length, in one block or two.\<close>

lemma pad_finish:
  assumes "Intermediate_Hash c = H_list H" and "length (Message_Block c) = 64"
    and "Message_Block_Index c \<le> 56" and "take (Message_Block_Index c) (Message_Block c) = xs"
    and "length_bytes c = ls"
  shows "\<exists>c'. (case zero_until 64 56 c of None \<Rightarrow> None | Some c3 \<Rightarrow>
      map_option (\<lambda>m. SHA1ProcessMessageBlock (c3\<lparr>Message_Block := m\<rparr>))
        (mem_write (Message_Block c3) 56 (length_bytes c3))) = Some c' \<and>
    Intermediate_Hash c' = H_list (fips_compress H (xs @ replicate (56 - Message_Block_Index c) 0 @ ls)) \<and>
    Corrupted c' = Corrupted c"
proof -
  let ?i = "Message_Block_Index c"
  let ?c3 = "c\<lparr>Message_Block := xs @ replicate (56 - ?i) 0 @ drop 56 (Message_Block c), Message_Block_Index := 56\<rparr>"
  let ?m = "xs @ replicate (56 - ?i) 0 @ ls"
  have z: "zero_until 64 56 c = Some ?c3"
    using zero_until_fill[of c 56 64] assms(2-4) by simp
  have lens: "length xs = ?i" "length ls = 8"
    using assms(2-5) by (auto simp: length_bytes_def)
  have ls: "length_bytes ?c3 = ls" using assms(5) by (simp add: length_bytes_def)
  have w: "mem_write (Message_Block ?c3) 56 ls = Some ?m"
    using lens assms(2,3) by (simp add: mem_write_def)
  show ?thesis
    unfolding z option.case ls w option.map
    using process_block[of "?c3\<lparr>Message_Block := ?m\<rparr>" H] assms(1) by simp
qed

text \<open>
  The context once the byte 0x80 has been stored: \<open>part\<close> is what lies in the block and \<open>ms\<close> what has been hashed.
\<close>

definition padding :: "u8 list \<Rightarrow> u8 list \<Rightarrow> sha1_context \<Rightarrow> sha1_context \<Rightarrow> bool" where
  "padding ms part c c1 \<longleftrightarrow> store_byte 0x80 c = Some c1 \<and> length ms mod 64 = 0 \<and> length part < 64 \<and>
     Message_Block_Index c = length part \<and> Intermediate_Hash c1 = H_list (fips_hash fips_H0 ms) \<and>
     length (Message_Block c1) = 64 \<and> Message_Block_Index c1 = Suc (length part) \<and>
     take (Suc (length part)) (Message_Block c1) = part @ [0x80] \<and>
     length_bytes c1 = be_bytes 8 (8 * length (ms @ part)) \<and> Corrupted c1 = shaSuccess \<and>
     fips_pad (ms @ part) = ms @ part @ 0x80 # replicate ((119 - length part) mod 64) 0 @ be_bytes 8 (8 * length (ms @ part))"

lemma pad_start:
  assumes "sha_holds m c"
  shows "\<exists>ms part c1. m = ms @ part \<and> padding ms part c c1"
proof -
  from assms obtain ms part where h: "m = ms @ part" "length ms mod 64 = 0" "length part < 64"
    "Intermediate_Hash c = H_list (fips_hash fips_H0 ms)" "Message_Block_Index c = length part"
    "length (Message_Block c) = 64" "take (length part) (Message_Block c) = part"
    "Length_Low c = of_nat (8 * length m)" "Length_High c = of_nat (8 * length m div 2 ^ 32)"
    "\<not> Computed c" "Corrupted c = shaSuccess"
    unfolding sha_holds_def by (elim exE conjE) (rule that)
  let ?p = "length part"
  let ?c1 = "c\<lparr>Message_Block := (Message_Block c)[?p := 0x80], Message_Block_Index := Suc ?p\<rparr>"
  have c1: "store_byte 0x80 c = Some ?c1" using h(3,5,6) by (simp add: store_byte_def put_def)
  have "take (Suc ?p) ((Message_Block c)[?p := 0x80]) = take ?p (Message_Block c) @ [0x80]"
    using h(3,6) by (simp add: take_Suc_conv_app_nth)
  then have t: "take (Suc ?p) (Message_Block ?c1) = part @ [0x80]" by (simp add: h(7))
  have l: "length_bytes c = be_bytes 8 (8 * length m)" using length_bytes_be h(8,9) by blast
  have mod: "length m mod 64 = ?p" using h(1-3) by (simp add: mod_add_eq[symmetric])
  have pad: "fips_pad m = ms @ part @ 0x80 # replicate ((119 - ?p) mod 64) 0 @ be_bytes 8 (8 * length m)"
    unfolding fips_pad_def mod by (simp add: h(1))
  have "padding ms part c ?c1"
    unfolding padding_def using c1 t l pad h(2-6,11) by (simp add: length_bytes_def h(1)[symmetric])
  with h(1) show ?thesis by blast
qed

lemma pad_one_block:
  assumes "padding ms part c c1" and "length part \<le> 55"
  shows "\<exists>c'. SHA1PadMessage c = Some c' \<and>
    Intermediate_Hash c' = H_list (fips_hash fips_H0 (fips_pad (ms @ part))) \<and> Corrupted c' = shaSuccess"
proof -
  let ?p = "length part" and ?ls = "be_bytes 8 (8 * length (ms @ part))" and ?H = "fips_hash fips_H0 ms"
  from assms(1) have c1: "store_byte 0x80 c = Some c1" "length ms mod 64 = 0" "Message_Block_Index c = ?p"
    "Intermediate_Hash c1 = H_list ?H" "length (Message_Block c1) = 64" "Message_Block_Index c1 = Suc ?p"
    "take (Suc ?p) (Message_Block c1) = part @ [0x80]" "length_bytes c1 = ?ls" "Corrupted c1 = shaSuccess"
    and pad: "fips_pad (ms @ part) = ms @ part @ 0x80 # replicate ((119 - ?p) mod 64) 0 @ ?ls"
    by (simp_all add: padding_def)
  let ?b = "(part @ [0x80]) @ replicate (56 - Suc ?p) 0 @ ?ls"
  have ls: "length ?ls = 8" by (simp add: be_bytes_def)
  from pad_finish[OF c1(4,5), unfolded c1(6,9), OF _ c1(7,8)] assms(2) obtain c' where
    c': "SHA1PadMessage c = Some c'" "Corrupted c' = shaSuccess" "Intermediate_Hash c' = H_list (fips_compress ?H ?b)"
    by (auto simp: SHA1PadMessage_def c1(1,3))
  have "119 - ?p = (55 - ?p) + 64" using assms(2) by simp
  then have "(119 - ?p) mod 64 = 56 - Suc ?p" by (simp only: mod_add_self2) simp
  moreover have "length ?b = 64" using assms(2) ls by simp
  ultimately have "fips_hash fips_H0 (fips_pad (ms @ part)) = fips_compress ?H ?b"
    unfolding pad fips_hash_append[OF c1(2)] by (simp add: fips_hash_block)
  with c' show ?thesis by simp
qed

lemma pad_two_blocks:
  assumes "padding ms part c c1" and "55 < length part"
  shows "\<exists>c'. SHA1PadMessage c = Some c' \<and>
    Intermediate_Hash c' = H_list (fips_hash fips_H0 (fips_pad (ms @ part))) \<and> Corrupted c' = shaSuccess"
proof -
  let ?p = "length part" and ?ls = "be_bytes 8 (8 * length (ms @ part))" and ?H = "fips_hash fips_H0 ms"
  from assms(1) have c1: "store_byte 0x80 c = Some c1" "length ms mod 64 = 0" "Message_Block_Index c = ?p"
    "Intermediate_Hash c1 = H_list ?H" "length (Message_Block c1) = 64" "Message_Block_Index c1 = Suc ?p"
    "take (Suc ?p) (Message_Block c1) = part @ [0x80]" "length_bytes c1 = ?ls" "Corrupted c1 = shaSuccess"
    and pad: "fips_pad (ms @ part) = ms @ part @ 0x80 # replicate ((119 - ?p) mod 64) 0 @ ?ls" and p: "?p < 64"
    by (simp_all add: padding_def)
  define b1 where "b1 = (part @ [0x80]) @ replicate (64 - Suc ?p) 0"
  have b1: "length b1 = 64" using p by (simp add: b1_def)
  let ?c = "c1\<lparr>Message_Block := b1, Message_Block_Index := 64\<rparr>"
  let ?c2 = "c1\<lparr>Message_Block := b1, Intermediate_Hash := H_list (fips_compress ?H b1), Message_Block_Index := 0\<rparr>"
  let ?b2 = "[] @ replicate (56 - 0) 0 @ ?ls"
  have z: "zero_until 64 64 c1 = Some ?c"
    using zero_until_fill[of c1 64 64] c1(5-7) p by (simp add: b1_def)
  have c2: "SHA1ProcessMessageBlock ?c = ?c2" using process_block[of ?c ?H] c1(4) by simp
  have c2_facts: "Intermediate_Hash ?c2 = H_list (fips_compress ?H b1)" "length (Message_Block ?c2) = 64"
    "Message_Block_Index ?c2 = 0" "take 0 (Message_Block ?c2) = []" "length_bytes ?c2 = ?ls" "Corrupted ?c2 = shaSuccess"
    using c1(8,9) b1 by (simp_all add: length_bytes_def)
  from pad_finish[OF c2_facts(1,2), unfolded c2_facts(3,6), OF _ c2_facts(4,5)] assms(2) z obtain c' where
    c': "SHA1PadMessage c = Some c'" "Corrupted c' = shaSuccess"
    "Intermediate_Hash c' = H_list (fips_compress (fips_compress ?H b1) ?b2)"
    by (auto simp: SHA1PadMessage_def c1(1,3) c2)
  have "(119 - ?p) mod 64 = (64 - Suc ?p) + (56 - 0)" using assms(2) p by simp
  then have "replicate ((119 - ?p) mod 64) 0 = replicate (64 - Suc ?p) (0::u8) @ replicate (56 - 0) 0"
    by (simp only: replicate_add)
  then have "fips_pad (ms @ part) = ms @ b1 @ ?b2" unfolding pad b1_def by simp
  moreover have "length b1 mod 64 = 0" using b1 by simp
  ultimately have "fips_hash fips_H0 (fips_pad (ms @ part)) = fips_compress (fips_compress ?H b1) ?b2"
    using fips_hash_append[OF c1(2)] b1 by (simp add: fips_hash_append fips_hash_block be_bytes_def)
  with c' show ?thesis by simp
qed

lemma pad_holds:
  assumes "sha_holds m c"
  shows "\<exists>c'. SHA1PadMessage c = Some c' \<and>
    Intermediate_Hash c' = H_list (fips_hash fips_H0 (fips_pad m)) \<and> Corrupted c' = shaSuccess"
proof -
  from pad_start[OF assms] obtain ms part c1 where "m = ms @ part" "padding ms part c c1" by blast
  with pad_one_block pad_two_blocks show ?thesis by (metis not_le_imp_less)
qed

lemma length_sha1: "length (sha1 m) = 20"
  by (simp add: sha1_def be_bytes_def split: prod.split)

lemma result_holds:
  assumes "sha_holds m c" and "length h = 20"
  shows "\<exists>c'. SHA1Result (Some c) (Some h) = Inr (shaSuccess, Some c', Some (sha1 m))"
proof -
  from pad_holds[OF assms(1)] obtain c' where
    c': "SHA1PadMessage c = Some c'" "Intermediate_Hash c' = H_list (fips_hash fips_H0 (fips_pad m))" by blast
  obtain a b d e f where H: "fips_hash fips_H0 (fips_pad m) = (a, b, d, e, f)" by (metis prod_cases5)
  have u: "[0..<20] = [0, 1, 2, 3, 4, 5, 6, 7, 8, 9, 10, 11, 12, 13, 14, 15, 16, 17, 18, 19]" "[0..<4] = [0, 1, 2, 3]"
    by (simp_all add: upt_rec)
  have byte: "ucast (drop_bit k w) = (of_nat (unat w div 2 ^ k) :: u8)" if "k + 8 \<le> 32" for w :: u32 and k
    using of_nat_byte[OF that, of "unat w"] by simp
  have "map (\<lambda>i. ucast (drop_bit (8 * (3 - i mod 4)) (H_list (a, b, d, e, f) ! (i div 4)))) [0..<20] = sha1 m"
    unfolding sha1_def H u H_list_def be_bytes_def prod.case
    by (simp add: byte)
  moreover have "\<not> Computed c" "Corrupted c = shaSuccess" using assms by (auto simp: sha_holds_def)
  moreover have "length (sha1 m) = 20" by (rule length_sha1)
  then have "mem_write h 0 (sha1 m) = Some (sha1 m)" using assms(2) by (simp add: mem_write_def)
  ultimately show ?thesis using c' H by (simp add: SHA1Result_def)
qed

section \<open>The interface\<close>

definition sha_feed :: "u8 list \<Rightarrow> sha1_context \<Rightarrow> sha1_context option" where
  "sha_feed bs c = (case SHA1Input (Some c) (Some bs) (length bs) of
     Inr (shaSuccess, c') \<Rightarrow> c' | _ \<Rightarrow> None)"

definition sha_finish :: "sha1_context \<Rightarrow> u8 list option" where
  "sha_finish c = 
     (case SHA1Result (Some c) (Some (replicate 20 0)) of Inr (shaSuccess, _, d) \<Rightarrow> d | _ \<Rightarrow> None)"

definition sha_fits :: "u8 list \<Rightarrow> bool" where
  "sha_fits m \<longleftrightarrow> 8 * length m < 2 ^ 64"

interpretation sha: incremental_digest sha_holds sha_feed sha_finish sha1 sha_fits
proof
  show "\<exists>s'. sha_feed xs s = Some s' \<and> sha_holds (m @ xs) s'" if "sha_holds m s" "sha_fits (m @ xs)" for m s xs
    using input_holds[OF that(1) that(2)[unfolded sha_fits_def]] by (auto simp: sha_feed_def)
  show "sha_finish s = Some (sha1 m)" if "sha_holds m s" for m s
    using result_holds[OF that, of "replicate 20 0"] by (auto simp: sha_finish_def)
qed (simp add: sha_fits_def)

section \<open>Properties\<close>

text \<open>
  C15. The code computes the SHA-1 of FIPS 180-4: after \<open>SHA1Reset\<close>, however the message
  is cut into pieces for \<open>SHA1Input\<close>, \<open>SHA1Result\<close> delivers the digest of the whole
  message, as long as its length in bits is below \<open>2 ^ 64\<close>.
\<close>

theorem sha1_incremental:
  assumes "length (Message_Block c) = 64" and "8 * length (concat ps) < 2 ^ 64"
  shows "\<exists>c0 c1. SHA1Reset (Some c) = (shaSuccess, Some c0) \<and> feeds sha_feed ps c0 = Some c1 \<and>
    sha_finish c1 = Some (sha1 (concat ps))"
proof -
  from sha_holds_reset[OF assms(1)] obtain c0 where
    "SHA1Reset (Some c) = (shaSuccess, Some c0)" "sha_holds [] c0" by blast
  with sha.digest_pieces[of c0 ps] assms(2) show ?thesis by (auto simp: sha_fits_def)
qed

text \<open>A context as it may be before \<open>SHA1Reset\<close>.\<close>

definition raw_context :: sha1_context where
  "raw_context = \<lparr>Intermediate_Hash = replicate 5 0, Length_Low = 0, Length_High = 0,
     Message_Block_Index = 0, Message_Block = replicate 64 0, Computed = False, Corrupted = shaSuccess\<rparr>"

theorem sha1_incremental_witness:
  "\<exists>c0 c1. SHA1Reset (Some raw_context) = (shaSuccess, Some c0) \<and>
    feeds sha_feed [[97], [98, 99]] c0 = Some c1 \<and> sha_finish c1 = Some (sha1 [97, 98, 99])"
  using sha1_incremental[of raw_context "[[97], [98, 99]]"] by (simp add: raw_context_def)

text \<open>
  \<open>SHA1Result\<close> can be repeated and delivers the same digest; input after it is refused
  with \<open>shaStateError\<close>, and from then on so is the result.
\<close>

theorem sha1_result_final:
  assumes "sha_holds m c" and "length d = 20" and "SHA1Result (Some c) (Some d) = Inr (r, Some c', d')"
    and "n \<noteq> 0"
  shows "r = shaSuccess \<and> d' = Some (sha1 m) \<and>
    SHA1Result (Some c') (Some d) = Inr (shaSuccess, Some c', Some (sha1 m)) \<and>
    (\<exists>c''. SHA1Input (Some c') (Some bs) n = Inr (shaStateError, Some c'') \<and>
       SHA1Input (Some c'') (Some bs) n = Inr (shaStateError, Some c'') \<and>
       SHA1Result (Some c'') (Some d) = Inr (shaStateError, Some c'', Some d))"
proof -
  from result_holds[OF assms(1,2)] assms(3) have r: "r = shaSuccess" "d' = Some (sha1 m)" by simp_all
  from assms(1) have c: "\<not> Computed c" "Corrupted c = shaSuccess" by (auto simp: sha_holds_def)
  from pad_holds[OF assms(1)] obtain p where "SHA1PadMessage c = Some p" "Corrupted p = shaSuccess" by blast
  with assms(3) c r(2) have c': "Computed c'" "Corrupted c' = shaSuccess"
    "SHA1Result (Some c') (Some d) = Inr (shaSuccess, Some c', Some (sha1 m))"
    by (auto simp: SHA1Result_def split: option.splits)
  let ?c = "c'\<lparr>Corrupted := shaStateError\<rparr>"
  have "SHA1Input (Some c') (Some bs) n = Inr (shaStateError, Some ?c)"
    "SHA1Input (Some ?c) (Some bs) n = Inr (shaStateError, Some ?c)"
    "SHA1Result (Some ?c) (Some d) = Inr (shaStateError, Some ?c, Some d)"
    using c' assms(4) by (simp_all add: SHA1Input_def SHA1Result_def)
  with r c'(3) show ?thesis by blast
qed

theorem sha1_result_final_witness:
  "\<exists>c'. SHA1Result (snd (SHA1Reset (Some raw_context))) (Some (replicate 20 0)) =
      Inr (shaSuccess, Some c', Some (sha1 [])) \<and>
    SHA1Result (Some c') (Some (replicate 20 0)) = Inr (shaSuccess, Some c', Some (sha1 [])) \<and>
    (\<exists>c''. SHA1Input (Some c') (Some [1]) 1 = Inr (shaStateError, Some c''))"
proof -
  have "length (Message_Block raw_context) = 64" by (simp add: raw_context_def)
  from sha_holds_reset[OF this] obtain c where
    c: "SHA1Reset (Some raw_context) = (shaSuccess, Some c)" "sha_holds [] c" by blast
  have d: "length (replicate 20 (0 :: u8)) = 20" by simp
  from result_holds[OF c(2) d] obtain c' where
    r: "SHA1Result (Some c) (Some (replicate 20 0)) = Inr (shaSuccess, Some c', Some (sha1 []))" by blast
  from sha1_result_final[OF c(2) d r one_neq_zero, of "[1]"] r c(1) show ?thesis by auto
qed

text \<open>
  A message of \<open>2 ^ 64\<close> bits is noticed only after the fact: the call that completes
  it returns \<open>shaSuccess\<close>, and the result is then refused with the code of a null pointer,
  not with \<open>shaInputTooLong\<close>.
\<close>

theorem sha1_too_long:
  assumes "Length_Low c = - 8" and "Length_High c = - 1" and "Message_Block_Index c < 64"
    and "length (Message_Block c) = 64" and "\<not> Computed c" and "Corrupted c = shaSuccess"
  shows "\<exists>c'. SHA1Input (Some c) (Some [b]) 1 = Inr (shaSuccess, Some c') \<and>
    SHA1Result (Some c') (Some d) = Inr (shaNull, Some c', Some d)"
  using assms
  by (auto simp: SHA1Input_def SHA1Result_def input_byte_def store_byte_def put_def mem_read_def Let_def
      SHA1ProcessMessageBlock_def split: prod.split)

theorem sha1_too_long_witness:
  "\<exists>c'. SHA1Input (Some (raw_context\<lparr>Length_Low := - 8, Length_High := - 1\<rparr>)) (Some [7]) 1 =
     Inr (shaSuccess, Some c') \<and> SHA1Result (Some c') (Some []) = Inr (shaNull, Some c', Some [])"
  by (rule sha1_too_long) (simp_all add: raw_context_def)

end
