(* ===== verification/Handshake.thy ===== *)
theory Handshake
  imports Base64_Correct Sha1_Correct
begin

text \<open>
  ExtNet/common/handshake.c: the response to a WebSocket handshake. C strings are their
  bytes without the terminating NUL; the buffers that the code fills with \<open>strcpy\<close>,
  \<open>strncpy\<close> and \<open>strcat\<close> are memory of the size that was allocated.
\<close>

section \<open>Strings of the C library\<close>

definition bytes :: "string \<Rightarrow> u8 list" where
  "bytes s = map of_char s"

definition c_string :: "u8 list \<Rightarrow> u8 list option" where
  "c_string m = (if 0 \<in> set m then Some (takeWhile (\<lambda>b. b \<noteq> 0) m) else None)"

definition strcpy :: "u8 list \<Rightarrow> u8 list \<Rightarrow> u8 list option" where
  "strcpy m s = mem_write m 0 (s @ [0])"

definition strncpy :: "u8 list \<Rightarrow> u8 list \<Rightarrow> nat \<Rightarrow> u8 list option" where
  "strncpy m s n = mem_write m 0 (take n (s @ replicate n 0))"

definition strcat :: "u8 list \<Rightarrow> u8 list \<Rightarrow> u8 list option" where
  "strcat m s = (case c_string m of None \<Rightarrow> None | Some t \<Rightarrow> mem_write m (length t) (s @ [0]))"

text \<open>\<open>strtok_r\<close>: the next token and what \<open>saveptr\<close> then points to.\<close>

definition strtok_r :: "u8 list \<Rightarrow> u8 list \<Rightarrow> (u8 list \<times> u8 list) option" where
  "strtok_r delims s =
     (let s' = dropWhile (\<lambda>b. b \<in> set delims) s in
      if s' = [] then None
      else Some (takeWhile (\<lambda>b. b \<notin> set delims) s', drop 1 (dropWhile (\<lambda>b. b \<notin> set delims) s')))"

fun strstr :: "u8 list \<Rightarrow> u8 list \<Rightarrow> bool" where
  "strstr [] needle = (needle = [])"
| "strstr (b # bs) needle = (take (length needle) (b # bs) = needle \<or> strstr bs needle)"

lemma strtok_r_shorter:
  assumes "strtok_r delims s = Some (tok, rest)"
  shows "length rest < length s"
proof -
  let ?s = "dropWhile (\<lambda>b. b \<in> set delims) s"
  from assms have "?s \<noteq> []" "rest = drop 1 (dropWhile (\<lambda>b. b \<notin> set delims) ?s)"
    by (auto simp: strtok_r_def Let_def split: if_splits)
  moreover have "length (dropWhile (\<lambda>b. b \<notin> set delims) ?s) \<le> length ?s" "length ?s \<le> length s"
    by (simp_all add: length_dropWhile_le)
  moreover have "0 < length ?s" using \<open>?s \<noteq> []\<close> by (rule length_greater_0_conv[THEN iffD2])
  ultimately show ?thesis by (simp only: length_drop)
qed

section \<open>The accept key\<close>

definition MAGIC_STRING :: "u8 list" where
  "MAGIC_STRING = bytes ''258EAFA5-E914-47DA-95CA-C5AB0DC85B11''"

definition WS_HS_REQ :: "u8 list" where
  "WS_HS_REQ = bytes ''Sec-WebSocket-Key''"

definition CRLF :: "u8 list" where
  "CRLF = [13, 10]"

definition WS_HS_ACCEPT :: "u8 list" where
  "WS_HS_ACCEPT = bytes ''HTTP/1.1 101 Switching Protocols'' @ CRLF @ bytes ''Upgrade: websocket'' @ CRLF @
     bytes ''Connection: Upgrade'' @ CRLF @ bytes ''Sec-WebSocket-Accept: ''"

definition WS_HS_ACCLEN :: nat where "WS_HS_ACCLEN = 130"
definition WS_KEY_LEN :: nat where "WS_KEY_LEN = 24"
definition WS_MS_LEN :: nat where "WS_MS_LEN = 36"
definition WS_KEYMS_LEN :: nat where "WS_KEYMS_LEN = WS_KEY_LEN + WS_MS_LEN"

text \<open>\<open>calloc\<close> hands out zeros when \<open>malloc\<close> would have memory.\<close>

definition calloc :: "allocator \<Rightarrow> nat \<Rightarrow> u8 list option" where
  "calloc malloc n = map_option (\<lambda>_. replicate n 0) (malloc n)"

text \<open>The three SHA-1 calls, with the context as it happens to be on the stack; the result goes to
  the 20 bytes of \<open>hash\<close>.\<close>

definition hash_key :: "sha1_context \<Rightarrow> u8 list \<Rightarrow> fault + u8 list" where
  "hash_key ctx str = (case SHA1Reset (Some ctx) of
     (_, ctx1) \<Rightarrow>
       (case SHA1Input ctx1 (Some str) WS_KEYMS_LEN of
          Inl f \<Rightarrow> Inl f
        | Inr (_, ctx2) \<Rightarrow>
            (case SHA1Result ctx2 (Some (replicate 20 0)) of
               Inl f \<Rightarrow> Inl f | Inr (_, _, hash) \<Rightarrow> Inr (case hash of Some d \<Rightarrow> d | None \<Rightarrow> []))))"

text \<open>The return value and \<open>*dest\<close>; a null \<open>*dest\<close> is dereferenced by \<open>strlen\<close>.\<close>

definition get_handshake_accept ::
  "allocator \<Rightarrow> sha1_context \<Rightarrow> u8 list option \<Rightarrow> fault + (int \<times> u8 list option)" where
  "get_handshake_accept malloc ctx wsKey = (case wsKey of
     None \<Rightarrow> Inr (-1, None)
   | Some key \<Rightarrow>
       (case calloc malloc (WS_KEY_LEN + WS_MS_LEN + 1) of
          None \<Rightarrow> Inr (-1, None)
        | Some str0 \<Rightarrow>
            (case strncpy str0 key WS_KEY_LEN of
               None \<Rightarrow> Inl Undef
             | Some str1 \<Rightarrow>
                 (case strcat str1 MAGIC_STRING of
                    None \<Rightarrow> Inl Undef
                  | Some str \<Rightarrow>
                      (case hash_key ctx str of
                         Inl f \<Rightarrow> Inl f
                       | Inr hash \<Rightarrow>
                           (case base64_encode malloc hash of
                              Inl f \<Rightarrow> Inl f
                            | Inr None \<Rightarrow> Inl Undef
                            | Inr (Some (dest, _)) \<Rightarrow>
                                (case c_string dest of
                                   None \<Rightarrow> Inl Undef
                                 | Some d \<Rightarrow>
                                     if d = [] then Inl Undef
                                     else Inr (0, Some (dest[length d - 1 := 0])))))))))"

section \<open>The response\<close>

text \<open>The first line of the request that contains the header's name.\<close>

function find_key_line :: "u8 list \<Rightarrow> u8 list option" where
  "find_key_line s = (case strtok_r CRLF s of
     None \<Rightarrow> None
   | Some (line, rest) \<Rightarrow> if strstr line WS_HS_REQ then Some line else find_key_line rest)"
  by pat_completeness auto
termination
  by (relation "measure length") (auto dest: strtok_r_shorter)

declare find_key_line.simps [simp del]

definition second_token :: "u8 list \<Rightarrow> u8 list option" where
  "second_token s = (case strtok_r (bytes '' '') s of
     None \<Rightarrow> None
   | Some (_, rest) \<Rightarrow> map_option fst (strtok_r (bytes '' '') rest))"

definition build_response :: "allocator \<Rightarrow> u8 list \<Rightarrow> fault + (int \<times> u8 list option)" where
  "build_response malloc accept = (case malloc WS_HS_ACCLEN of
     None \<Rightarrow> Inr (-1, None)
   | Some m0 \<Rightarrow>
       (case strcpy m0 WS_HS_ACCEPT of
          None \<Rightarrow> Inl Undef
        | Some m1 \<Rightarrow>
            (case c_string accept of
               None \<Rightarrow> Inl Undef
             | Some a \<Rightarrow>
                 (case strcat m1 a of
                    None \<Rightarrow> Inl Undef
                  | Some m2 \<Rightarrow>
                      (case strcat m2 (CRLF @ CRLF) of
                         None \<Rightarrow> Inl Undef
                       | Some m3 \<Rightarrow> Inr (0, Some m3))))))"

definition get_handshake_response ::
  "allocator \<Rightarrow> sha1_context \<Rightarrow> u8 list \<Rightarrow> fault + (int \<times> u8 list option)" where
  "get_handshake_response malloc ctx hsrequest = (case find_key_line hsrequest of
     None \<Rightarrow> Inr (-1, None)
   | Some line \<Rightarrow>
       (case get_handshake_accept malloc ctx (second_token line) of
          Inl f \<Rightarrow> Inl f
        | Inr (ret, accept) \<Rightarrow>
            if ret < 0 then Inr (ret, None)
            else (case accept of None \<Rightarrow> Inl Undef | Some a \<Rightarrow> build_response malloc a)))"

end
