(* ===== verification/Handshake_Correct.thy ===== *)
theory Handshake_Correct
  imports Handshake
begin

text \<open>
  The handshake against RFC 6455: the response to a well-formed request, and for any
  request at all that no buffer overflows, the response filling its 130 bytes exactly.
\<close>

section \<open>Strings\<close>

lemma c_string_prefix: "0 \<notin> set t \<Longrightarrow> c_string (t @ 0 # r) = Some t"
  by (induction t) (auto simp: c_string_def)

lemma strcat_fits:
  "0 \<notin> set t \<Longrightarrow> length s \<le> length r \<Longrightarrow> strcat (t @ 0 # r) s = Some (t @ s @ 0 # drop (length s) r)"
  by (simp add: strcat_def c_string_prefix mem_write_def)

lemma strcpy_fits: "length s < length m \<Longrightarrow> strcpy m s = Some (s @ 0 # drop (Suc (length s)) m)"
  by (simp add: strcpy_def mem_write_def)

lemma bytes_MAGIC: "length MAGIC_STRING = 36" "0 \<notin> set MAGIC_STRING"
  by (simp_all add: MAGIC_STRING_def bytes_def)

lemma bytes_ACCEPT: "length WS_HS_ACCEPT = 97" "0 \<notin> set WS_HS_ACCEPT"
  by (simp_all add: WS_HS_ACCEPT_def bytes_def CRLF_def)

section \<open>The accept key\<close>

lemma SHA1Input_take: "n \<le> length a \<Longrightarrow> SHA1Input c (Some a) n = SHA1Input c (Some (take n a)) n"
  by (simp add: SHA1Input_def mem split: option.split)

lemma hash_key_sha1:
  assumes "length (Message_Block ctx) = 64" and "60 \<le> length str"
  shows "hash_key ctx str = Inr (sha1 (take 60 str))"
proof -
  from sha_holds_reset[OF assms(1)] obtain c1 where
    c1: "SHA1Reset (Some ctx) = (shaSuccess, Some c1)" "sha_holds [] c1" by blast
  have n: "length (take 60 str) = 60" using assms(2) by simp
  have "8 * length ([] @ take 60 str) < 2 ^ 64" using n by simp
  from input_holds[OF c1(2) this] n obtain c2 where
    "SHA1Input (Some c1) (Some (take 60 str)) 60 = Inr (shaSuccess, Some c2)" "sha_holds (take 60 str) c2" by auto
  moreover from result_holds[OF this(2), of "replicate 20 0"] obtain c3 where
    "SHA1Result (Some c2) (Some (replicate 20 0)) = Inr (shaSuccess, Some c3, Some (sha1 (take 60 str)))" by auto
  ultimately show ?thesis using c1(1) SHA1Input_take[OF assms(2)]
    by (simp add: hash_key_def WS_KEYMS_LEN_def WS_KEY_LEN_def WS_MS_LEN_def)
qed

lemma length_rfc4648: "length (rfc4648 src) = 4 * ((length src + 2) div 3)"
  by (induction src rule: rfc4648.induct) (simp_all add: length_digits groups_Suc[simplified])

lemma digits_chars: "c \<in> set (digits (bits24 x y z)) \<Longrightarrow> c \<in> set base64_table"
  using bits24_less[of x y z] by (auto simp: digits_def length_base64_table)

lemma rfc4648_text: "c \<in> set (rfc4648 src) \<Longrightarrow> c \<in> set base64_table \<or> c = 61"
proof (induction src rule: rfc4648.induct)
  case (4 x y z rest)
  then show ?case by (auto dest: digits_chars)
qed (auto dest!: in_set_takeD digits_chars)

lemma rfc4648_no_nul: "0 \<notin> set (rfc4648 src)"
  using rfc4648_text[of 0 src] by (auto simp: base64_table_eq)

text \<open>What is hashed: the first 24 bytes of the key, the GUID, and NULs up to 60 bytes.\<close>

definition hs_message :: "u8 list \<Rightarrow> u8 list" where
  "hs_message key = take 24 key @ MAGIC_STRING @ replicate (24 - length key) 0"

lemma accept_correct:
  assumes "alloc_ok malloc" and "\<forall>n. malloc n \<noteq> None" and "length (Message_Block ctx) = 64" and "0 \<notin> set key"
  shows "\<exists>d. get_handshake_accept malloc ctx (Some key) = Inr (0, Some d) \<and>
    c_string d = Some (rfc4648 (sha1 (hs_message key)))"
proof -
  let ?k = "take 24 key" and ?z = "24 - length key"
  let ?m = "hs_message key" and ?R = "rfc4648 (sha1 (hs_message key))"
  obtain m0 where "malloc 61 = Some m0" using assms(2) by blast
  then have c: "calloc malloc (WS_KEY_LEN + WS_MS_LEN + 1) = Some (replicate 61 0)"
    by (simp add: calloc_def WS_KEY_LEN_def WS_MS_LEN_def)
  have k: "0 \<notin> set ?k" using assms(4) by (meson in_set_takeD)
  have len: "min (length key) 24 + ?z = 24" by (simp add: min_def)
  have "take 24 (key @ replicate 24 0) @ replicate 37 0 = ?k @ replicate ?z 0 @ replicate 37 (0::u8)"
    by (simp add: min_def)
  also have "\<dots> = ?k @ 0 # replicate (?z + 36) 0"
    by (simp flip: replicate_add replicate_Suc)
  finally have s1: "strncpy (replicate 61 0) key WS_KEY_LEN = Some (?k @ 0 # replicate (?z + 36) 0)"
    using len by (simp add: strncpy_def mem_write_def WS_KEY_LEN_def)
  have s2: "strcat (?k @ 0 # replicate (?z + 36) 0) MAGIC_STRING = Some (?k @ MAGIC_STRING @ 0 # replicate ?z 0)"
    using strcat_fits[OF k, of MAGIC_STRING "replicate (?z + 36) 0"] by (simp add: bytes_MAGIC)
  have "take 60 (?k @ MAGIC_STRING @ 0 # replicate ?z 0) = ?m"
  proof -
    have "?k @ MAGIC_STRING @ 0 # replicate ?z 0 = ?m @ [0]"
      by (simp add: hs_message_def replicate_append_same)
    moreover have "length ?m = 60" using len by (simp add: hs_message_def bytes_MAGIC)
    ultimately show ?thesis by simp
  qed
  moreover have "60 \<le> length (?k @ MAGIC_STRING @ 0 # replicate ?z 0)" by (simp add: bytes_MAGIC min_def)
  ultimately have h: "hash_key ctx (?k @ MAGIC_STRING @ 0 # replicate ?z 0) = Inr (sha1 ?m)"
    using hash_key_sha1[OF assms(3)] by simp
  obtain m where m: "malloc (encode_olen (length (sha1 ?m))) = Some m" using assms(2) by blast
  have R: "length ?R = 28" by (simp add: length_rfc4648 length_sha1)
  then have "?R \<noteq> []" by (metis list.size(3) zero_neq_numeral)
  with R have "wrap72 ?R = ?R @ [10]" by (simp add: wrap72.simps wrap72.simps[of "[]"])
  with encode_lines[OF assms(1) _ m] obtain out n where
    out: "base64_encode malloc (sha1 ?m) = Inr (Some (out, n))" "take n out = ?R @ [10]" "n < length out" "out ! n = 0"
    by (auto simp: length_sha1)
  then have "out = take n out @ 0 # drop (Suc n) out" by (metis id_take_nth_drop)
  then have out_eq: "out = (?R @ [10]) @ 0 # drop (Suc n) out" unfolding out(2) .
  have cs: "c_string out = Some (?R @ [10])"
    using c_string_prefix[of "?R @ [10]" "drop (Suc n) out"] rfc4648_no_nul[of "sha1 ?m"] out_eq by simp
  have "c_string (out[28 := 0]) = Some ?R"
  proof -
    have "out[28 := 0] = ?R @ 0 # 0 # drop (Suc n) out"
      using R by (subst out_eq) (simp add: list_update_append)
    then show ?thesis using c_string_prefix rfc4648_no_nul by simp
  qed
  with R show ?thesis
    by (simp only: get_handshake_accept_def option.case sum.case prod.case c s1 s2 h out(1) cs) simp
qed

section \<open>The response\<close>

lemma build_correct:
  assumes "alloc_ok malloc" and "malloc 130 = Some m" and "c_string d = Some a" and "length a = 28"
  shows "build_response malloc d = Inr (0, Some (WS_HS_ACCEPT @ a @ CRLF @ CRLF @ [0]))"
proof -
  have a: "0 \<notin> set a" using assms(3) by (auto simp: c_string_def split: if_splits dest: set_takeWhileD)
  have m: "length m = 130" using assms(1,2) by blast
  define r where "r = drop 98 m"
  have r: "length r = 32" using m by (simp add: r_def)
  have s1: "strcpy m WS_HS_ACCEPT = Some (WS_HS_ACCEPT @ 0 # r)"
    using strcpy_fits[of WS_HS_ACCEPT m] m by (simp add: bytes_ACCEPT r_def)
  have s2: "strcat (WS_HS_ACCEPT @ 0 # r) a = Some ((WS_HS_ACCEPT @ a) @ 0 # drop 28 r)"
    using strcat_fits[OF bytes_ACCEPT(2), of a r] r assms(4) by simp
  have s3: "strcat ((WS_HS_ACCEPT @ a) @ 0 # drop 28 r) (CRLF @ CRLF) =
      Some ((WS_HS_ACCEPT @ a) @ (CRLF @ CRLF) @ 0 # drop 4 (drop 28 r))"
    using strcat_fits[of "WS_HS_ACCEPT @ a" "CRLF @ CRLF" "drop 28 r"] a bytes_ACCEPT(2) r
    by (simp add: CRLF_def)
  have "drop 4 (drop 28 r) = []" using r by simp
  with s1 s2 s3 assms(2,3) show ?thesis
    by (simp add: build_response_def WS_HS_ACCLEN_def)
qed

text \<open>The request: lines before the key's line, the key, the rest.\<close>

lemma strtok_skip: "d \<in> set delims \<Longrightarrow> strtok_r delims (d # s) = strtok_r delims s"
  by (simp add: strtok_r_def)

lemma strtok_token:
  assumes "tok \<noteq> []" and "set tok \<inter> set delims = {}" and "d \<in> set delims"
  shows "strtok_r delims (tok @ d # s) = Some (tok, s)"
proof -
  have "dropWhile (\<lambda>b. b \<in> set delims) (tok @ d # s) = tok @ d # s"
    using assms(1,2) by (cases tok) auto
  moreover have "\<And>b. b \<in> set tok \<Longrightarrow> b \<notin> set delims" using assms(2) by blast
  then have "takeWhile (\<lambda>b. b \<notin> set delims) (tok @ d # s) = tok"
    "dropWhile (\<lambda>b. b \<notin> set delims) (tok @ d # s) = d # s"
    using assms(3) by (simp_all add: takeWhile_append2 dropWhile_append2)
  ultimately show ?thesis by (simp add: strtok_r_def)
qed

lemma strtok_last:
  assumes "tok \<noteq> []" and "set tok \<inter> set delims = {}"
  shows "strtok_r delims tok = Some (tok, [])"
proof -
  have d: "\<forall>b \<in> set tok. b \<notin> set delims" using assms(2) by blast
  then have "dropWhile (\<lambda>b. b \<in> set delims) tok = tok" using assms(1) by (cases tok) simp_all
  moreover have "takeWhile (\<lambda>b. b \<notin> set delims) tok = tok" using d by (simp add: takeWhile_eq_all_conv)
  moreover have "dropWhile (\<lambda>b. b \<notin> set delims) tok = []" using d by (simp add: dropWhile_eq_Nil_conv)
  ultimately show ?thesis using assms(1) by (simp only: strtok_r_def Let_def) simp
qed

lemma strtok_subset:
  assumes "strtok_r delims s = Some (tok, rest)"
  shows "set tok \<subseteq> set s" and "set rest \<subseteq> set s"
proof -
  let ?s = "dropWhile (\<lambda>b. b \<in> set delims) s"
  from assms have "tok = takeWhile (\<lambda>b. b \<notin> set delims) ?s" "rest = drop 1 (dropWhile (\<lambda>b. b \<notin> set delims) ?s)"
    by (auto simp: strtok_r_def Let_def split: if_splits)
  then show "set tok \<subseteq> set s" "set rest \<subseteq> set s"
    by (auto dest!: set_takeWhileD set_dropWhileD in_set_dropD)
qed

lemma find_key_line_subset: "find_key_line s = Some line \<Longrightarrow> set line \<subseteq> set s"
proof (induction s rule: find_key_line.induct)
  case (1 s)
  from 1(2) obtain tok rest where tok: "strtok_r CRLF s = Some (tok, rest)"
    by (auto simp: find_key_line.simps[of s] split: option.splits)
  show ?case
  proof (cases "strstr tok WS_HS_REQ")
    case True
    with 1(2) tok strtok_subset(1)[OF tok] show ?thesis by (simp add: find_key_line.simps[of s])
  next
    case False
    with 1(2) tok have "find_key_line rest = Some line" by (simp add: find_key_line.simps[of s])
    with 1(1)[OF tok refl False] strtok_subset(2)[OF tok] show ?thesis by blast
  qed
qed

lemma second_token_subset: "second_token s = Some key \<Longrightarrow> set key \<subseteq> set s"
proof -
  assume "second_token s = Some key"
  then obtain t1 r1 r2 where "strtok_r (bytes '' '') s = Some (t1, r1)" "strtok_r (bytes '' '') r1 = Some (key, r2)"
    by (auto simp: second_token_def split: option.splits)
  from strtok_subset(2)[OF this(1)] strtok_subset(1)[OF this(2)] show ?thesis by (rule subset_trans[rotated])
qed

definition plain_line :: "u8 list \<Rightarrow> bool" where
  "plain_line l \<longleftrightarrow> l \<noteq> [] \<and> 13 \<notin> set l \<and> 10 \<notin> set l"

lemma find_key_line_lf: "find_key_line (10 # s) = find_key_line s"
  by (simp add: find_key_line.simps[of "10 # s"] find_key_line.simps[of s] strtok_skip CRLF_def)

lemma find_key_line_line:
  "plain_line l \<Longrightarrow> find_key_line (l @ CRLF @ s) = (if strstr l WS_HS_REQ then Some l else find_key_line s)"
  using strtok_token[of l CRLF 13 "10 # s"]
  by (simp add: find_key_line.simps[of "l @ 13 # 10 # s"] plain_line_def CRLF_def find_key_line_lf)

lemma find_key_line_found:
  "\<forall>l \<in> set ls. plain_line l \<and> \<not> strstr l WS_HS_REQ \<Longrightarrow> plain_line k \<Longrightarrow> strstr k WS_HS_REQ \<Longrightarrow>
   find_key_line (concat (map (\<lambda>l. l @ CRLF) ls) @ k @ CRLF @ s) = Some k"
  by (induction ls) (simp_all add: find_key_line_line)

lemma second_token_key:
  assumes "key \<noteq> []" and "32 \<notin> set key"
  shows "second_token (WS_HS_REQ @ [58, 32] @ key) = Some key"
proof -
  have sp: "bytes '' '' = [32]" by (simp add: bytes_def)
  have "strtok_r [32] ((WS_HS_REQ @ [58]) @ 32 # key) = Some (WS_HS_REQ @ [58], key)"
    by (rule strtok_token) (simp_all add: WS_HS_REQ_def bytes_def)
  with strtok_last[of key "[32]"] assms show ?thesis by (simp add: second_token_def sp)
qed

lemma handshake_answer:
  assumes "alloc_ok malloc" and "\<forall>n. malloc n \<noteq> None" and "length (Message_Block ctx) = 64"
    and "\<forall>l \<in> set ls. plain_line l \<and> \<not> strstr l WS_HS_REQ"
    and "length key = 24" and "set key \<inter> {0, 10, 13, 32} = {}"
  shows "get_handshake_response malloc ctx
      (concat (map (\<lambda>l. l @ CRLF) ls) @ (WS_HS_REQ @ [58, 32] @ key) @ CRLF @ rest) =
    Inr (0, Some (WS_HS_ACCEPT @ rfc4648 (sha1 (key @ MAGIC_STRING)) @ CRLF @ CRLF @ [0])) \<and>
    length (WS_HS_ACCEPT @ rfc4648 (sha1 (key @ MAGIC_STRING)) @ CRLF @ CRLF @ [0]) = WS_HS_ACCLEN"
proof -
  have key: "key \<noteq> []" "32 \<notin> set key" "0 \<notin> set key" using assms(5,6) by auto
  have l: "plain_line (WS_HS_REQ @ [58, 32] @ key)" "strstr (WS_HS_REQ @ [58, 32] @ key) WS_HS_REQ"
    using assms(6) by (auto simp: plain_line_def WS_HS_REQ_def bytes_def)
  have msg: "hs_message key = key @ MAGIC_STRING" using assms(5) by (simp add: hs_message_def)
  from accept_correct[OF assms(1-3) key(3)] obtain d where
    d: "get_handshake_accept malloc ctx (Some key) = Inr (0, Some d)"
      "c_string d = Some (rfc4648 (sha1 (key @ MAGIC_STRING)))"
    unfolding msg by blast
  have R: "length (rfc4648 (sha1 (key @ MAGIC_STRING))) = 28" by (simp add: length_rfc4648 length_sha1)
  obtain m where "malloc 130 = Some m" using assms(2) by blast
  from build_correct[OF assms(1) this d(2) R] find_key_line_found[OF assms(4) l] second_token_key[OF key(1,2)] d(1) R
  show ?thesis
    by (simp add: get_handshake_response_def bytes_ACCEPT CRLF_def WS_HS_ACCLEN_def)
qed

text \<open>
  C26. To a request with a \<open>Sec-WebSocket-Key\<close> header of 24 characters, in whatever
  position, the code answers with the response of RFC 6455: the accept value is the Base64 of the
  SHA-1 of the key followed by the GUID. The response and its NUL fill the 130 bytes exactly.
\<close>

theorem handshake_rfc6455:
  assumes "alloc_ok malloc" and "\<forall>n. malloc n \<noteq> None" and "length (Message_Block ctx) = 64"
    and "\<forall>l \<in> set ls. plain_line l \<and> \<not> strstr l WS_HS_REQ"
    and "length key = 24" and "set key \<inter> {0, 10, 13, 32} = {}"
  shows "get_handshake_response malloc ctx
      (concat (map (\<lambda>l. l @ CRLF) ls) @ (WS_HS_REQ @ [58, 32] @ key) @ CRLF @ rest) =
    Inr (0, Some (WS_HS_ACCEPT @ rfc4648 (sha1 (key @ MAGIC_STRING)) @ CRLF @ CRLF @ [0])) \<and>
    length (WS_HS_ACCEPT @ rfc4648 (sha1 (key @ MAGIC_STRING)) @ CRLF @ CRLF @ [0]) = WS_HS_ACCLEN"
  using assms by (rule handshake_answer)

theorem handshake_rfc6455_witness:
  "get_handshake_response zero_alloc raw_context
      (bytes ''GET / HTTP/1.1'' @ CRLF @ bytes ''Sec-WebSocket-Key: dGhlIHNhbXBsZSBub25jZQ=='' @ CRLF @ CRLF) =
    Inr (0, Some (WS_HS_ACCEPT @
      rfc4648 (sha1 (bytes ''dGhlIHNhbXBsZSBub25jZQ=='' @ MAGIC_STRING)) @ CRLF @ CRLF @ [0]))"
proof -
  let ?l = "bytes ''GET / HTTP/1.1''" and ?k = "bytes ''dGhlIHNhbXBsZSBub25jZQ==''"
  have "\<forall>n. zero_alloc n \<noteq> None" "length (Message_Block raw_context) = 64" "length ?k = 24"
    "set ?k \<inter> {0, 10, 13, 32} = {}" "plain_line ?l" "\<not> strstr ?l WS_HS_REQ"
    by (simp_all add: zero_alloc_def raw_context_def bytes_def plain_line_def WS_HS_REQ_def)
  moreover have "bytes ''Sec-WebSocket-Key: dGhlIHNhbXBsZSBub25jZQ=='' = WS_HS_REQ @ [58, 32] @ ?k"
    by (simp add: bytes_def WS_HS_REQ_def)
  ultimately show ?thesis
    using handshake_rfc6455[of zero_alloc raw_context "[?l]" ?k CRLF] by simp
qed

text \<open>Any request: the key is the second word of the first line in which the name of the header occurs.\<close>

lemma handshake_any:
  assumes "alloc_ok malloc" and "\<forall>n. malloc n \<noteq> None" and "length (Message_Block ctx) = 64" and "0 \<notin> set req"
  shows "get_handshake_response malloc ctx req = (case Option.bind (find_key_line req) second_token of
     None \<Rightarrow> Inr (-1, None)
   | Some key \<Rightarrow> Inr (0, Some (WS_HS_ACCEPT @ rfc4648 (sha1 (hs_message key)) @ CRLF @ CRLF @ [0])))"
proof (cases "find_key_line req")
  case None
  then show ?thesis by (simp add: get_handshake_response_def)
next
  case (Some line)
  show ?thesis
  proof (cases "second_token line")
    case None
    with Some show ?thesis by (simp add: get_handshake_response_def get_handshake_accept_def)
  next
    case key: (Some key)
    have "set key \<subseteq> set req"
      using second_token_subset[OF key] find_key_line_subset[OF Some] by blast
    then have "0 \<notin> set key" using assms(4) by blast
    from accept_correct[OF assms(1-3) this] obtain d where
      d: "get_handshake_accept malloc ctx (Some key) = Inr (0, Some d)"
        "c_string d = Some (rfc4648 (sha1 (hs_message key)))" by blast
    have R: "length (rfc4648 (sha1 (hs_message key))) = 28" by (simp add: length_rfc4648 length_sha1)
    obtain m where "malloc 130 = Some m" using assms(2) by blast
    from build_correct[OF assms(1) this d(2) R] Some key d(1) show ?thesis
      by (auto simp: get_handshake_response_def)
  qed
qed

lemma request_key_found:
  assumes "\<forall>l \<in> set ls. plain_line l \<and> \<not> strstr l WS_HS_REQ" and "length key = 24" and "set key \<inter> {0, 10, 13, 32} = {}"
  shows "Option.bind (find_key_line (concat (map (\<lambda>l. l @ CRLF) ls) @ (WS_HS_REQ @ [58, 32] @ key) @ CRLF @ rest)) second_token = Some key"
    and "hs_message key = key @ MAGIC_STRING"
proof -
  have key: "key \<noteq> []" "32 \<notin> set key" using assms(2,3) by auto
  have l: "plain_line (WS_HS_REQ @ [58, 32] @ key)" "strstr (WS_HS_REQ @ [58, 32] @ key) WS_HS_REQ"
    using assms(3) by (auto simp: plain_line_def WS_HS_REQ_def bytes_def)
  from find_key_line_found[OF assms(1) l] second_token_key[OF key]
  show "Option.bind (find_key_line (concat (map (\<lambda>l. l @ CRLF) ls) @ (WS_HS_REQ @ [58, 32] @ key) @ CRLF @ rest)) second_token = Some key"
    by simp
  show "hs_message key = key @ MAGIC_STRING" using assms(2) by (simp add: hs_message_def)
qed

text \<open>
  C27. Whatever the request, as long as there is memory, the code neither overflows a buffer
  nor crashes: it returns -1 without a response or 0 with a terminated one, for keys of every length.
\<close>

theorem handshake_safe:
  assumes "alloc_ok malloc" and "\<forall>n. malloc n \<noteq> None" and "length (Message_Block ctx) = 64" and "0 \<notin> set req"
  shows "get_handshake_response malloc ctx req = Inr (-1, None) \<or>
    (\<exists>key. get_handshake_response malloc ctx req =
       Inr (0, Some (WS_HS_ACCEPT @ rfc4648 (sha1 (hs_message key)) @ CRLF @ CRLF @ [0])))"
proof (cases "Option.bind (find_key_line req) second_token")
  case None
  with handshake_any[OF assms] show ?thesis by simp
next
  case (Some key)
  with handshake_any[OF assms] show ?thesis by (intro disjI2 exI[of _ key]) simp
qed

theorem handshake_safe_witness:
  "get_handshake_response zero_alloc raw_context (bytes ''GET /'' @ CRLF) = Inr (-1, None) \<or>
    (\<exists>key. get_handshake_response zero_alloc raw_context (bytes ''GET /'' @ CRLF) =
       Inr (0, Some (WS_HS_ACCEPT @ rfc4648 (sha1 (hs_message key)) @ CRLF @ CRLF @ [0])))"
  by (rule handshake_safe) (simp_all add: zero_alloc_def alloc_ok_def raw_context_def bytes_def CRLF_def)

end
