(* ===== verification/Limited_Queue.thy ===== *)
theory Limited_Queue
  imports Prelude
begin

text \<open>
  The interface of a receive buffer between the code that fills it from a socket and the
  code that parses it: \<open>receive\<close> stores a prefix of what it is given, \<open>take_out\<close> removes
  a prefix of what is stored, and the buffer is a queue as long as no more than \<open>limit\<close> elements
  have been stored in all. \<open>holds all r s\<close>: the buffer \<open>s\<close> has stored \<open>all\<close> and given out \<open>r\<close> of it.
\<close>

datatype 'b queue_op = Op_receive "'b list" | Op_take nat

text \<open>A run: the state, everything stored and everything taken.\<close>

fun queue_run ::
  "('b list \<Rightarrow> 's \<Rightarrow> 'e + ('s \<times> 'b list)) \<Rightarrow> (nat \<Rightarrow> 's \<Rightarrow> 'e + ('s \<times> 'b list)) \<Rightarrow>
   'b queue_op list \<Rightarrow> 's \<Rightarrow> 'e + ('s \<times> 'b list \<times> 'b list)" where
  "queue_run recv take_out [] s = Inr (s, [], [])"
| "queue_run recv take_out (Op_receive xs # ops) s = (case recv xs s of
     Inl f \<Rightarrow> Inl f
   | Inr (s', ys) \<Rightarrow> (case queue_run recv take_out ops s' of
       Inl f \<Rightarrow> Inl f | Inr (s'', i, out) \<Rightarrow> Inr (s'', ys @ i, out)))"
| "queue_run recv take_out (Op_take k # ops) s = (case take_out k s of
     Inl f \<Rightarrow> Inl f
   | Inr (s', ys) \<Rightarrow> (case queue_run recv take_out ops s' of
       Inl f \<Rightarrow> Inl f | Inr (s'', i, out) \<Rightarrow> Inr (s'', i, ys @ out)))"

fun op_size :: "'b queue_op \<Rightarrow> nat" where
  "op_size (Op_receive xs) = length xs"
| "op_size (Op_take k) = 0"

locale limited_queue =
  fixes holds :: "'b list \<Rightarrow> nat \<Rightarrow> 's \<Rightarrow> bool"
    and recv :: "'b list \<Rightarrow> 's \<Rightarrow> 'e + ('s \<times> 'b list)"
    and take_out :: "nat \<Rightarrow> 's \<Rightarrow> 'e + ('s \<times> 'b list)"
    and limit :: nat
  assumes holds_le: "holds all r s \<Longrightarrow> r \<le> length all"
    and recv_law: "holds all r s \<Longrightarrow> length all + length xs < limit \<Longrightarrow>
      \<exists>s' ys zs. recv xs s = Inr (s', ys) \<and> xs = ys @ zs \<and> (xs \<noteq> [] \<longrightarrow> ys \<noteq> []) \<and> holds (all @ ys) r s'"
    and take_law: "holds all r s \<Longrightarrow>
      \<exists>s' ys zs. take_out k s = Inr (s', ys) \<and> drop r all = ys @ zs \<and> length ys \<le> k \<and>
        (0 < k \<and> r < length all \<longrightarrow> ys \<noteq> []) \<and> holds all (r + length ys) s'"
begin

lemma queue_run_holds:
  "holds all r s \<Longrightarrow> length all + sum_list (map op_size ops) < limit \<Longrightarrow>
   \<exists>s' i out. queue_run recv take_out ops s = Inr (s', i, out) \<and>
     (\<exists>rest. drop r all @ i = out @ rest) \<and> holds (all @ i) (r + length out) s'"
proof (induction ops arbitrary: all r s)
  case Nil
  then show ?case by (auto simp: holds_le)
next
  case (Cons x ops)
  show ?case
  proof (cases x)
    case (Op_receive xs)
    with recv_law[OF Cons.prems(1), of xs] Cons.prems(2) obtain s1 ys zs where
      s1: "recv xs s = Inr (s1, ys)" "xs = ys @ zs" "holds (all @ ys) r s1" by auto
    moreover have "length (all @ ys) + sum_list (map op_size ops) < limit"
      using Cons.prems(2) Op_receive s1(2) by simp
    ultimately obtain s' i out where "queue_run recv take_out ops s1 = Inr (s', i, out)"
      "\<exists>rest. drop r (all @ ys) @ i = out @ rest" "holds ((all @ ys) @ i) (r + length out) s'"
      using Cons.IH by blast
    with s1(1) Op_receive holds_le[OF Cons.prems(1)] show ?thesis by auto
  next
    case (Op_take k)
    from take_law[OF Cons.prems(1), of k] obtain s1 ys zs where
      s1: "take_out k s = Inr (s1, ys)" "drop r all = ys @ zs" "holds all (r + length ys) s1" by blast
    moreover have "length all + sum_list (map op_size ops) < limit" using Cons.prems(2) Op_take by simp
    ultimately obtain s' i out where r: "queue_run recv take_out ops s1 = Inr (s', i, out)"
      "\<exists>rest. drop (r + length ys) all @ i = out @ rest" "holds (all @ i) (r + length ys + length out) s'"
      using Cons.IH by blast
    have "drop (r + length ys) all = zs" using s1(2) by (metis append_eq_conv_conj drop_drop add.commute)
    with r s1(1,2) Op_take show ?thesis by (auto simp: add.assoc)
  qed
qed

text \<open>The client's view: a queue that never refuses and always delivers.\<close>

lemma fifo:
  assumes "holds [] 0 s" and "sum_list (map op_size ops) < limit"
  shows "\<exists>s' i out rest. queue_run recv take_out ops s = Inr (s', i, out) \<and> i = out @ rest \<and>
    (\<forall>k > 0. rest \<noteq> [] \<longrightarrow> (\<exists>s'' ys zs. take_out k s' = Inr (s'', ys) \<and> ys \<noteq> [] \<and> rest = ys @ zs))"
proof -
  from queue_run_holds[OF assms(1), of ops] assms(2) obtain s' i out rest where
    r: "queue_run recv take_out ops s = Inr (s', i, out)" "i = out @ rest" "holds i (length out) s'" by auto
  moreover have "\<exists>s'' ys zs. take_out k s' = Inr (s'', ys) \<and> ys \<noteq> [] \<and> rest = ys @ zs"
    if "0 < k" "rest \<noteq> []" for k
    using take_law[OF r(3), of k] r(2) that by auto
  ultimately show ?thesis by blast
qed

end

end
