(* ===== verification/MemoryBuff.thy ===== *)
theory MemoryBuff
  imports Limited_Queue
begin

text \<open>
  ExtNet/memoryBuff/ListEx.h, memoryBuff.h and memoryBuff.cpp: the receive buffer of a
  connection, a linked list of nodes of 4096 bytes. Nodes live in a store from addresses to
  nodes; a null or dangling pointer that is followed is \<open>Undef\<close>, a failed \<open>assert\<close> is
  \<open>Abort\<close>. \<open>unsigned short\<close> values are naturals with the wrap-around of \<open>_freeCount\<close>
  written out; memory is taken to be available.
\<close>

section \<open>State\<close>

record node =
  nd_data :: "u8 list"
  nd_cap :: nat
  nd_write :: nat
  nd_read :: nat
  nd_next :: "nat option"

record memory_buff =
  mb_heap :: "nat \<Rightarrow> node option"
  mb_fresh :: nat
  mb_tail :: "nat option"
  mb_read :: "nat option"
  mb_write :: "nat option"
  mb_free :: nat

definition add16 :: "nat \<Rightarrow> nat \<Rightarrow> nat" where
  "add16 a b = (a + b) mod 65536"

definition dec16 :: "nat \<Rightarrow> nat" where
  "dec16 a = (if a = 0 then 65535 else a - 1)"

text \<open>\<open>ResetNode\<close> takes new memory for the data; the old one is never freed.\<close>

definition ResetNode :: "node \<Rightarrow> node" where
  "ResetNode n = n\<lparr>nd_data := replicate 4096 0, nd_cap := 4096, nd_write := 0, nd_read := 0, nd_next := None\<rparr>"

definition ListNode_new :: node where
  "ListNode_new = \<lparr>nd_data = replicate 4096 0, nd_cap = 4096, nd_write = 0, nd_read = 0, nd_next = None\<rparr>"

definition node_at :: "memory_buff \<Rightarrow> nat option \<Rightarrow> node option" where
  "node_at s p = (case p of None \<Rightarrow> None | Some a \<Rightarrow> mb_heap s a)"

definition set_node :: "nat \<Rightarrow> node \<Rightarrow> memory_buff \<Rightarrow> memory_buff" where
  "set_node a n s = s\<lparr>mb_heap := (mb_heap s)(a := Some n)\<rparr>"

section \<open>Construction and destruction\<close>

text \<open>The loop of the constructor: \<open>_pTail\<close> stays at the first node.\<close>

fun mb_init_loop :: "nat \<Rightarrow> memory_buff \<Rightarrow> memory_buff" where
  "mb_init_loop 0 s = s"
| "mb_init_loop (Suc k) s =
     (let a = mb_fresh s; s1 = (set_node a ListNode_new s)\<lparr>mb_fresh := Suc a\<rparr> in
      mb_init_loop k
        (case mb_tail s of
           None \<Rightarrow> s1\<lparr>mb_tail := Some a, mb_read := Some a, mb_write := Some a\<rparr>
         | Some t \<Rightarrow> set_node t ((the (mb_heap s1 t))\<lparr>nd_next := Some a\<rparr>) s1))"

definition memoryBuff_new :: "nat \<Rightarrow> memory_buff" where
  "memoryBuff_new len = mb_init_loop len
     \<lparr>mb_heap = (\<lambda>_. None), mb_fresh = 0, mb_tail = None, mb_read = None, mb_write = None, mb_free = dec16 len\<rparr>"

text \<open>The destructor; every round frees a node, so \<open>mb_fresh\<close> rounds are enough.\<close>

fun mb_destroy_loop :: "nat \<Rightarrow> memory_buff \<Rightarrow> fault + memory_buff" where
  "mb_destroy_loop 0 s = Inr s"
| "mb_destroy_loop (Suc k) s =
     (case mb_read s of
        None \<Rightarrow> Inr (s\<lparr>mb_write := None, mb_tail := None\<rparr>)
      | Some a \<Rightarrow>
          (case mb_heap s a of
             None \<Rightarrow> Inl Undef
           | Some n \<Rightarrow> mb_destroy_loop k (s\<lparr>mb_heap := (mb_heap s)(a := None), mb_read := nd_next n\<rparr>)))"

definition memoryBuff_delete :: "memory_buff \<Rightarrow> fault + memory_buff" where
  "memoryBuff_delete s = mb_destroy_loop (Suc (mb_fresh s)) s"

section \<open>Writing\<close>

text \<open>The buffer is a node and an offset into its data, with the length that may be written.\<close>

definition GetWriteBuff :: "memory_buff \<Rightarrow> fault + (memory_buff \<times> (nat \<times> nat) \<times> nat)" where
  "GetWriteBuff s = (case mb_write s of
     None \<Rightarrow> Inl Undef
   | Some w \<Rightarrow>
       (case mb_heap s w of
          None \<Rightarrow> Inl Undef
        | Some n \<Rightarrow>
            if nd_write n < nd_cap n then Inr (s, (w, nd_write n), nd_cap n - nd_write n)
            else
              (case mb_tail s of
                 None \<Rightarrow> Inl Undef
               | Some t \<Rightarrow>
                   (case mb_heap s t of
                      None \<Rightarrow> Inl Undef
                    | Some tn \<Rightarrow>
                        (let a = mb_fresh s;
                             s1 = set_node a ListNode_new (set_node t (tn\<lparr>nd_next := Some a\<rparr>) s)
                         in Inr (s1\<lparr>mb_fresh := Suc a, mb_free := add16 (mb_free s) 1,
                                    mb_tail := Some a, mb_write := Some a\<rparr>,
                                 (a, 0), nd_cap ListNode_new))))))"

text \<open>What \<open>recv\<close> does with that buffer: it stores bytes in the node's data.\<close>

definition mb_store :: "nat \<times> nat \<Rightarrow> u8 list \<Rightarrow> memory_buff \<Rightarrow> fault + memory_buff" where
  "mb_store p xs s = (case mb_heap s (fst p) of
     None \<Rightarrow> Inl Undef
   | Some n \<Rightarrow>
       (case mem_write (nd_data n) (snd p) xs of
          None \<Rightarrow> Inl Undef
        | Some d \<Rightarrow> Inr (set_node (fst p) (n\<lparr>nd_data := d\<rparr>) s)))"

definition AdjustWriteSize :: "nat \<Rightarrow> memory_buff \<Rightarrow> fault + memory_buff" where
  "AdjustWriteSize len s = (case mb_write s of
     None \<Rightarrow> Inl Undef
   | Some w \<Rightarrow>
       (case mb_heap s w of
          None \<Rightarrow> Inl Undef
        | Some n \<Rightarrow>
            if nd_cap n < nd_write n + len then Inl Abort
            else
              (let n' = n\<lparr>nd_write := nd_write n + len\<rparr>; s' = set_node w n' s in
               if nd_cap n' \<le> nd_write n'
               then Inr (s'\<lparr>mb_free := dec16 (mb_free s), mb_write := nd_next n'\<rparr>)
               else Inr s')))"

section \<open>Reading\<close>

text \<open>\<open>None\<close> is the null pointer; the caller's length stays as it was.\<close>

definition GetReadBuff :: "memory_buff \<Rightarrow> fault + ((nat \<times> nat) \<times> nat) option" where
  "GetReadBuff s = (case node_at s (mb_read s) of
     None \<Rightarrow> Inl Undef
   | Some n \<Rightarrow>
       if nd_read n < nd_write n
       then Inr (Some ((the (mb_read s), nd_read n), nd_write n - nd_read n))
       else Inr None)"

definition mb_load :: "nat \<times> nat \<Rightarrow> nat \<Rightarrow> memory_buff \<Rightarrow> fault + u8 list" where
  "mb_load p k s = (case mb_heap s (fst p) of
     None \<Rightarrow> Inl Undef
   | Some n \<Rightarrow> (case mem_read (nd_data n) (snd p) k of None \<Rightarrow> Inl Undef | Some xs \<Rightarrow> Inr xs))"

definition recycle :: "nat \<Rightarrow> node \<Rightarrow> memory_buff \<Rightarrow> fault + memory_buff" where
  "recycle r n s =
     (let s1 = (set_node r (ResetNode n) s)\<lparr>mb_read := nd_next n\<rparr> in
      if mb_free s > 5 then Inr (s1\<lparr>mb_heap := (mb_heap s1)(r := None)\<rparr>)
      else
        (case mb_tail s of
           None \<Rightarrow> Inl Undef
         | Some t \<Rightarrow>
             (case mb_heap s1 t of
                None \<Rightarrow> Inl Undef
              | Some tn \<Rightarrow>
                  Inr ((set_node t (tn\<lparr>nd_next := Some r\<rparr>) s1)
                         \<lparr>mb_free := add16 (mb_free s) 1, mb_tail := Some r\<rparr>))))"

definition AdjustReadSize :: "nat \<Rightarrow> memory_buff \<Rightarrow> fault + memory_buff" where
  "AdjustReadSize len s = (case mb_read s of
     None \<Rightarrow> Inl Undef
   | Some r \<Rightarrow>
       (case mb_heap s r of
          None \<Rightarrow> Inl Undef
        | Some n \<Rightarrow>
            if (if mb_read s = mb_write s then nd_write n else nd_cap n) < nd_read n + len then Inl Abort
            else
              (let n' = n\<lparr>nd_read := nd_read n + len\<rparr>; s' = set_node r n' s in
               if nd_cap n' \<le> nd_read n' then recycle r n' s' else Inr s')))"

definition GetChar :: "memory_buff \<Rightarrow> fault + (memory_buff \<times> (nat \<times> nat) option)" where
  "GetChar s = (case mb_read s of
     None \<Rightarrow> Inl Undef
   | Some r \<Rightarrow>
       (case mb_heap s r of
          None \<Rightarrow> Inl Undef
        | Some n \<Rightarrow>
            if nd_read n < nd_write n
            then Inr (set_node r (n\<lparr>nd_read := Suc (nd_read n)\<rparr>) s, Some (r, nd_read n))
            else Inr (s, None)))"

section \<open>A client\<close>

text \<open>
  The two ways in which the connections use the buffer: storing received bytes in the
  buffer offered, and taking bytes from the front of what is offered. A request beyond the
  offer is cut to it.
\<close>

definition mb_receive :: "u8 list \<Rightarrow> memory_buff \<Rightarrow> fault + (memory_buff \<times> u8 list)" where
  "mb_receive xs s = (case GetWriteBuff s of
     Inl f \<Rightarrow> Inl f
   | Inr (s1, p, len) \<Rightarrow>
       (let ys = take len xs in
        case mb_store p ys s1 of
          Inl f \<Rightarrow> Inl f
        | Inr s2 \<Rightarrow>
            (case AdjustWriteSize (length ys) s2 of Inl f \<Rightarrow> Inl f | Inr s3 \<Rightarrow> Inr (s3, ys))))"

definition mb_take :: "nat \<Rightarrow> memory_buff \<Rightarrow> fault + (memory_buff \<times> u8 list)" where
  "mb_take k s = (case GetReadBuff s of
     Inl f \<Rightarrow> Inl f
   | Inr None \<Rightarrow> Inr (s, [])
   | Inr (Some (p, len)) \<Rightarrow>
       (case mb_load p (min k len) s of
          Inl f \<Rightarrow> Inl f
        | Inr xs \<Rightarrow>
            (case AdjustReadSize (min k len) s of Inl f \<Rightarrow> Inl f | Inr s' \<Rightarrow> Inr (s', xs))))"

definition mb_run :: "u8 queue_op list \<Rightarrow> memory_buff \<Rightarrow> fault + (memory_buff \<times> u8 list \<times> u8 list)" where
  "mb_run = queue_run mb_receive mb_take"

end
