(* ===== verification/MemoryBuff_Correct.thy ===== *)
theory MemoryBuff_Correct
  imports MemoryBuff
begin

text \<open>
  The receive buffer is a queue for its first 8191 bytes and unusable from the 8192nd on:
  the constructor links two nodes but leaves \<open>_pTail\<close> at the first, so that a recycled
  first node is linked to itself and the second node never has a successor.
\<close>

section \<open>The states of the first 8191 bytes\<close>

text \<open>\<open>first_node\<close> and \<open>second_node\<close> say what the nodes 0 and 1 hold after \<open>all\<close> was stored and \<open>r\<close> read.\<close>

definition first_node :: "u8 list \<Rightarrow> nat \<Rightarrow> node \<Rightarrow> bool" where
  "first_node all r n \<longleftrightarrow> nd_cap n = 4096 \<and> length (nd_data n) = 4096 \<and> nd_next n = Some 1 \<and>
     nd_write n = min (length all) 4096 \<and> nd_read n = r \<and> take (nd_write n) (nd_data n) = take 4096 all"

definition second_node :: "u8 list \<Rightarrow> nat \<Rightarrow> node \<Rightarrow> bool" where
  "second_node all r n \<longleftrightarrow> nd_cap n = 4096 \<and> length (nd_data n) = 4096 \<and> nd_next n = None \<and>
     nd_write n = length all - 4096 \<and> nd_read n = r - 4096 \<and> take (nd_write n) (nd_data n) = drop 4096 all"

definition mb_holds :: "u8 list \<Rightarrow> nat \<Rightarrow> memory_buff \<Rightarrow> bool" where
  "mb_holds all r s \<longleftrightarrow> r \<le> length all \<and> length all < 8192 \<and> mb_tail s = Some 0 \<and>
     (\<exists>A B. mb_heap s 0 = Some A \<and> mb_heap s 1 = Some B \<and> second_node all r B \<and>
        (r < 4096 \<longrightarrow> first_node all r A)) \<and>
     mb_read s = Some (if r < 4096 then 0 else 1) \<and>
     mb_write s = Some (if length all < 4096 then 0 else 1) \<and>
     mb_free s = (if length all < 4096 \<or> 4096 \<le> r then 1 else 0)"

lemma mb_holds_new: "mb_holds [] 0 (memoryBuff_new 2)"
  by (simp add: mb_holds_def memoryBuff_new_def numeral_2_eq_2 set_node_def ListNode_new_def
      first_node_def second_node_def dec16_def Let_def)

lemmas mb_ops = GetWriteBuff_def mb_store_def AdjustWriteSize_def GetReadBuff_def mb_load_def AdjustReadSize_def
  node_at_def set_node_def Let_def

text \<open>Storing in the first node, in the second, and filling the second.\<close>

lemma store_prefix:
  "length d = 4096 \<Longrightarrow> w + length ys \<le> 4096 \<Longrightarrow>
   mem_write d w ys = Some (take w d @ ys @ drop (w + length ys) d)"
  by (simp add: mem_write_def)

lemma receive_first:
  assumes "mb_holds all r s" and "length all < 4096"
  shows "\<exists>s'. mb_receive xs s = Inr (s', take (4096 - length all) xs) \<and>
    mb_holds (all @ take (4096 - length all) xs) r s'"
proof -
  define ys where "ys = take (4096 - length all) xs"
  let ?w = "length all"
  have r: "r < 4096" "r \<le> ?w" using assms by (simp_all add: mb_holds_def)
  from assms r obtain A B where h: "mb_heap s 0 = Some A" "mb_heap s 1 = Some B" "second_node all r B"
    "first_node all r A" "mb_tail s = Some 0" "mb_read s = Some 0" "mb_write s = Some 0" "mb_free s = 1"
    by (auto simp: mb_holds_def)
  have A: "nd_cap A = 4096" "length (nd_data A) = 4096" "nd_next A = Some 1" "nd_write A = ?w"
    "nd_read A = r" "take ?w (nd_data A) = all"
    using h(4) assms(2) by (auto simp: first_node_def)
  have ys: "?w + length ys \<le> 4096" using assms(2) by (simp add: ys_def)
  define d where "d = all @ ys @ drop (?w + length ys) (nd_data A)"
  have d: "length d = 4096" "take (?w + length ys) d = all @ ys"
    using A(2) ys by (simp_all add: d_def)
  have w: "mem_write (nd_data A) ?w ys = Some d"
    using store_prefix[OF A(2) ys] A(6) by (simp add: d_def)
  define A' where "A' = A\<lparr>nd_data := d, nd_write := ?w + length ys\<rparr>"
  have fn: "first_node (all @ ys) r A'"
    using A d ys by (auto simp: first_node_def A'_def min_def)
  have sn: "second_node (all @ ys) r B" using h(3) ys r by (auto simp: second_node_def)
  have recv: "mb_receive xs s = Inr
      ((if ?w + length ys = 4096 then (set_node 0 A' s)\<lparr>mb_free := 0, mb_write := Some 1\<rparr> else set_node 0 A' s), ys)"
    using h A w ys assms(2)
    by (auto simp: mb_receive_def mb_ops A'_def dec16_def simp flip: ys_def)
  have "mb_holds (all @ ys) r
      (if ?w + length ys = 4096 then (set_node 0 A' s)\<lparr>mb_free := 0, mb_write := Some 1\<rparr> else set_node 0 A' s)"
    using fn sn h r ys assms(2) by (auto simp: mb_holds_def set_node_def)
  then show ?thesis unfolding recv ys_def[symmetric] by blast
qed

lemma receive_second:
  assumes "mb_holds all r s" and "4096 \<le> length all"
  shows "\<exists>s'. mb_receive xs s = Inr (s', take (8192 - length all) xs) \<and>
    (if length all + length xs < 8192 then mb_holds (all @ xs) r s' else mb_write s' = None)"
proof -
  define ys where "ys = take (8192 - length all) xs"
  define w where "w = length all - 4096"
  have len: "length all = 4096 + w" "w < 4096" using assms by (auto simp: w_def mb_holds_def)
  from assms obtain A B where h: "mb_heap s 0 = Some A" "mb_heap s 1 = Some B" "second_node all r B"
    "r < 4096 \<longrightarrow> first_node all r A" "mb_write s = Some 1"
    by (auto simp: mb_holds_def)
  have B: "nd_cap B = 4096" "length (nd_data B) = 4096" "nd_next B = None" "nd_write B = w"
    "nd_read B = r - 4096" "take w (nd_data B) = drop 4096 all"
    using h(3) by (auto simp: second_node_def w_def)
  have ys: "w + length ys \<le> 4096" using len by (simp add: ys_def)
  define d where "d = drop 4096 all @ ys @ drop (w + length ys) (nd_data B)"
  have d: "length d = 4096" "take (w + length ys) d = drop 4096 all @ ys"
    using B(2) ys len by (simp_all add: d_def)
  have wr: "mem_write (nd_data B) w ys = Some d"
    using store_prefix[OF B(2) ys] B(6) by (simp add: d_def)
  define B' where "B' = B\<lparr>nd_data := d, nd_write := w + length ys\<rparr>"
  have cut: "4096 - w = 8192 - length all" using len by simp
  have recv: "mb_receive xs s = Inr
      ((if w + length ys = 4096 then (set_node 1 B' s)\<lparr>mb_free := dec16 (mb_free s), mb_write := None\<rparr>
        else set_node 1 B' s), ys)"
    using h B wr ys len(2)
    by (auto simp: mb_receive_def mb_ops B'_def cut simp flip: ys_def)
  show ?thesis
  proof (cases "length all + length xs < 8192")
    case True
    then have y: "ys = xs" "w + length ys < 4096" using len by (simp_all add: ys_def)
    have sn: "second_node (all @ ys) r B'"
      using B d ys len by (auto simp: second_node_def B'_def)
    have fn: "r < 4096 \<longrightarrow> first_node (all @ ys) r A" using h(4) len by (auto simp: first_node_def)
    have "mb_holds (all @ ys) r (set_node 1 B' s)"
      using sn fn h assms len y by (auto simp: mb_holds_def set_node_def)
    with recv y True show ?thesis by (simp flip: ys_def)
  next
    case False
    then have "w + length ys = 4096" using len by (simp add: ys_def)
    with recv False show ?thesis by (simp flip: ys_def)
  qed
qed

lemma take_length_take: "take (length (take k xs)) xs = take k xs"
  by (simp add: min_def)

text \<open>Reading from the first node, as far as there is data in it.\<close>

lemma first_node_read:
  assumes "first_node all r A" and "r < 4096" and "r \<le> length all" and "ys = take k (drop r (take 4096 all))"
  shows "mem_read (nd_data A) r (length ys) = Some ys" and "min k (min (length all) 4096 - r) = length ys"
    and "r + length ys \<le> min (length all) 4096"
proof -
  let ?w = "min (length all) 4096"
  have A: "length (nd_data A) = 4096" "take ?w (nd_data A) = take 4096 all" using assms(1) by (auto simp: first_node_def)
  show n: "min k (?w - r) = length ys" by (simp add: assms(4) min.commute)
  show fits: "r + length ys \<le> ?w" using assms(2,3) unfolding n[symmetric] by (auto simp: min_def)
  have "min (length ys) (?w - r) = length ys" using fits by (auto simp: min_def)
  then have "take (length ys) (drop r (nd_data A)) = take (length ys) (drop r (take ?w (nd_data A)))"
    by (simp only: drop_take take_take)
  also have "\<dots> = ys" unfolding A(2) assms(4) by (rule take_length_take)
  finally show "mem_read (nd_data A) r (length ys) = Some ys" using fits A(1) by (simp add: mem_read_def)
qed

lemma take_first:
  assumes "mb_holds all r s" and "r < 4096"
  shows "\<exists>s'. mb_take k s = Inr (s', take k (drop r (take 4096 all))) \<and>
    mb_holds all (r + length (take k (drop r (take 4096 all)))) s'"
proof -
  let ?w = "min (length all) 4096"
  define ys where "ys = take k (drop r (take 4096 all))"
  from assms obtain A B where h: "mb_heap s 0 = Some A" "mb_heap s 1 = Some B" "second_node all r B"
    "first_node all r A" "mb_tail s = Some 0" "mb_read s = Some 0" "length all < 8192" "r \<le> length all"
    "mb_write s = Some (if length all < 4096 then 0 else 1)" "mb_free s = (if length all < 4096 then 1 else 0)"
    by (auto simp: mb_holds_def)
  have A: "nd_cap A = 4096" "length (nd_data A) = 4096" "nd_next A = Some 1" "nd_write A = ?w" "nd_read A = r"
    using h(4) by (auto simp: first_node_def)
  note rd = first_node_read[OF h(4) assms(2) h(8) ys_def]
  show ?thesis
  proof (cases "r = ?w")
    case True
    then have "ys = []" using rd(2) by simp
    with True h A assms show ?thesis by (simp add: mb_take_def mb_ops flip: ys_def)
  next
    case False
    have lt: "r < ?w" by (rule le_neq_implies_less[OF add_leD1[OF rd(3)] False])
    let ?A = "A\<lparr>nd_read := r + length ys\<rparr>"
    show ?thesis
    proof (cases "r + length ys = 4096")
      case True
      then have full: "length all \<ge> 4096" "r + length ys = ?w" using rd(3) by simp_all
      let ?s = "(set_node 0 ((ResetNode ?A)\<lparr>nd_next := Some 0\<rparr>) s)
        \<lparr>mb_read := Some 1, mb_free := 1, mb_tail := Some 0\<rparr>"
      have "mb_take k s = Inr (?s, ys)"
        using h A lt rd full True by (auto simp: mb_take_def mb_ops recycle_def add16_def)
      moreover have "second_node all 4096 B" using h(3) assms(2) by (auto simp: second_node_def)
      then have "mb_holds all 4096 ?s" using h full by (simp add: mb_holds_def set_node_def)
      ultimately show ?thesis using True by (simp flip: ys_def)
    next
      case False
      then have lt': "r + length ys < 4096" using rd(3) by simp
      have "mb_take k s = Inr (set_node 0 ?A s, ys)" using h A lt rd lt' by (auto simp: mb_take_def mb_ops)
      moreover have "first_node all (r + length ys) ?A" "second_node all (r + length ys) B"
        using h(3,4) lt' by (auto simp: first_node_def second_node_def)
      then have "mb_holds all (r + length ys) (set_node 0 ?A s)"
        using h lt' rd(3) by (simp add: mb_holds_def set_node_def)
      ultimately show ?thesis by (simp flip: ys_def)
    qed
  qed
qed

lemma take_second:
  assumes "mb_holds all r s" and "4096 \<le> r"
  shows "\<exists>s'. mb_take k s = Inr (s', take k (drop r all)) \<and> mb_holds all (r + length (take k (drop r all))) s'"
proof -
  define ys where "ys = take k (drop r all)"
  from assms obtain A B where h: "mb_heap s 0 = Some A" "mb_heap s 1 = Some B" "second_node all r B"
    "mb_tail s = Some 0" "mb_read s = Some 1" "length all < 8192" "r \<le> length all"
    "mb_write s = Some 1" "mb_free s = 1"
    by (auto simp: mb_holds_def)
  have B: "nd_cap B = 4096" "length (nd_data B) = 4096" "nd_write B = length all - 4096"
    "nd_read B = r - 4096" "take (length all - 4096) (nd_data B) = drop 4096 all"
    using h(3) by (auto simp: second_node_def)
  have n: "min k (length all - r) = length ys" by (simp add: ys_def min.commute)
  have fits: "r + length ys \<le> length all" using h(7) unfolding n[symmetric] by simp
  have "take (length ys) (drop (r - 4096) (nd_data B)) =
      take (length ys) (drop (r - 4096) (take (length all - 4096) (nd_data B)))"
    using fits assms(2) by (simp add: drop_take min_absorb1)
  also have "\<dots> = take (length ys) (drop r all)" unfolding B(5) using assms(2) by simp
  also have "\<dots> = ys" unfolding ys_def by (rule take_length_take)
  finally have ld: "mem_read (nd_data B) (r - 4096) (length ys) = Some ys"
    using fits B(2) h(6) assms(2) by (simp add: mem_read_def)
  show ?thesis
  proof (cases "r = length all")
    case True
    then have "ys = []" using n by simp
    with True h B assms show ?thesis by (simp add: mb_take_def mb_ops flip: ys_def)
  next
    case False
    then have lt: "r < length all" using h(7) by simp
    let ?B = "B\<lparr>nd_read := r + length ys - 4096\<rparr>"
    have m: "length all - 4096 - (r - 4096) = length all - r" "r - 4096 < length all - 4096"
      "r - 4096 + length ys = r + length ys - 4096" "r + length ys - 4096 < 4096"
      using assms(2) lt h(6) fits by simp_all
    have "mb_take k s = Inr (set_node 1 ?B s, ys)"
      using h B m n ld fits assms(2) by (auto simp: mb_take_def mb_ops)
    moreover have "second_node all (r + length ys) ?B" using h(3) by (auto simp: second_node_def)
    then have "mb_holds all (r + length ys) (set_node 1 ?B s)"
      using h fits assms(2) by (simp add: mb_holds_def set_node_def)
    ultimately show ?thesis by (simp flip: ys_def)
  qed
qed

interpretation mb: limited_queue mb_holds mb_receive mb_take 8192
proof
  show "r \<le> length all" if "mb_holds all r s" for all r s
    using that by (simp add: mb_holds_def)
  show "\<exists>s' ys zs. mb_receive xs s = Inr (s', ys) \<and> xs = ys @ zs \<and> (xs \<noteq> [] \<longrightarrow> ys \<noteq> []) \<and> mb_holds (all @ ys) r s'"
    if h: "mb_holds all r s" "length all + length xs < 8192" for all r s xs
  proof (cases "length all < 4096")
    case True
    from receive_first[OF h(1) True, of xs] obtain s' where
      s: "mb_receive xs s = Inr (s', take (4096 - length all) xs)"
        "mb_holds (all @ take (4096 - length all) xs) r s'" by blast
    moreover have "xs = take (4096 - length all) xs @ drop (4096 - length all) xs" by simp
    moreover have "xs \<noteq> [] \<longrightarrow> take (4096 - length all) xs \<noteq> []" using True by simp
    ultimately show ?thesis by blast
  next
    case False
    with receive_second[OF h(1), of xs] h(2) show ?thesis by auto
  qed
  show "\<exists>s' ys zs. mb_take k s = Inr (s', ys) \<and> drop r all = ys @ zs \<and> length ys \<le> k \<and>
        (0 < k \<and> r < length all \<longrightarrow> ys \<noteq> []) \<and> mb_holds all (r + length ys) s'"
    if h: "mb_holds all r s" for all r s k
  proof (cases "r < 4096")
    case True
    let ?ys = "take k (drop r (take 4096 all))"
    from take_first[OF h True, of k] obtain s' where
      "mb_take k s = Inr (s', ?ys)" "mb_holds all (r + length ?ys) s'" by blast
    moreover have "drop r all = ?ys @ drop (length ?ys) (drop r all)"
      by (metis append_take_drop_id drop_take take_take append_eq_conv_conj)
    moreover have "0 < k \<and> r < length all \<longrightarrow> ?ys \<noteq> []" using True by (auto simp: min_def)
    ultimately show ?thesis by (metis length_take min.cobounded2)
  next
    case False
    then have "4096 \<le> r" by simp
    from take_second[OF h this, of k] obtain s' where
      "mb_take k s = Inr (s', take k (drop r all))" "mb_holds all (r + length (take k (drop r all))) s'" by blast
    moreover have "drop r all = take k (drop r all) @ drop k (drop r all)"
      by (rule append_take_drop_id[symmetric])
    moreover have "0 < k \<and> r < length all \<longrightarrow> take k (drop r all) \<noteq> []" by simp
    ultimately show ?thesis by (metis length_take min.cobounded2)
  qed
qed

section \<open>Properties\<close>

text \<open>
  C24. Below 8192 bytes in all, the buffer is a queue: however storing (\<open>GetWriteBuff\<close> and \<open>AdjustWriteSize\<close>) and
  taking (\<open>GetReadBuff\<close> and \<open>AdjustReadSize\<close>) are interleaved, no operation faults, what is taken is a prefix of what was stored, and as long as
  something is left, asking for it delivers some of it.
\<close>

theorem memory_buff_fifo:
  assumes "sum_list (map op_size ops) < 8192"
  shows "\<exists>s i out rest. mb_run ops (memoryBuff_new 2) = Inr (s, i, out) \<and> i = out @ rest \<and>
    (\<forall>k > 0. rest \<noteq> [] \<longrightarrow> (\<exists>s' ys zs. mb_take k s = Inr (s', ys) \<and> ys \<noteq> [] \<and> rest = ys @ zs))"
  unfolding mb_run_def by (rule mb.fifo[OF mb_holds_new assms])

theorem memory_buff_fifo_witness:
  "\<exists>s i out rest. mb_run [Op_receive [1, 2, 3], Op_take 2, Op_receive [4]] (memoryBuff_new 2) = Inr (s, i, out) \<and>
    i = out @ rest"
  using memory_buff_fifo[of "[Op_receive [1, 2, 3], Op_take 2, Op_receive [4]]"] by auto

text \<open>After 8192 bytes there is no node to write to, and no reading gives one back.\<close>

definition mb_exhausted :: "memory_buff \<Rightarrow> bool" where
  "mb_exhausted s \<longleftrightarrow> mb_write s = None"

lemma exhausted_receive: "mb_exhausted s \<Longrightarrow> mb_receive xs s = Inl Undef"
  by (simp add: mb_exhausted_def mb_receive_def GetWriteBuff_def)

lemma exhausted_take: "mb_exhausted s \<Longrightarrow> mb_take k s = Inr (s', ys) \<Longrightarrow> mb_exhausted s'"
  by (auto simp: mb_exhausted_def mb_take_def mb_ops recycle_def split: sum.splits option.splits if_splits)

lemma exhausted_run:
  "mb_exhausted s \<Longrightarrow> mb_run ops s = Inr (s', i, out) \<Longrightarrow> mb_exhausted s' \<and> i = []"
proof (induction ops arbitrary: s i out)
  case (Cons x ops)
  show ?case
  proof (cases x)
    case (Op_receive xs)
    with Cons.prems show ?thesis by (simp add: mb_run_def exhausted_receive)
  next
    case (Op_take k)
    with Cons.prems obtain s1 ys out1 where
      "mb_take k s = Inr (s1, ys)" "mb_run ops s1 = Inr (s', i, out1)"
      by (auto simp: mb_run_def split: sum.splits)
    with Cons.IH exhausted_take[OF Cons.prems(1)] show ?thesis by blast
  qed
qed (simp add: mb_run_def)

lemma holds_run:
  "mb_holds all r s \<Longrightarrow> mb_run ops s = Inr (s', i, out) \<Longrightarrow>
   (\<exists>r'. mb_holds (all @ i) r' s') \<or> length (all @ i) = 8192 \<and> mb_exhausted s'"
proof (induction ops arbitrary: all r s i out)
  case Nil
  then show ?case by (auto simp: mb_run_def)
next
  case (Cons x ops)
  show ?case
  proof (cases x)
    case (Op_take k)
    from mb.take_law[OF Cons.prems(1), of k] obtain s1 ys r1 where
      s1: "mb_take k s = Inr (s1, ys)" "mb_holds all r1 s1" by blast
    with Cons.prems(2) Op_take obtain out1 where "mb_run ops s1 = Inr (s', i, out1)"
      by (auto simp: mb_run_def split: sum.splits)
    with Cons.IH[OF s1(2)] show ?thesis by blast
  next
    case (Op_receive xs)
    from Cons.prems(2) Op_receive obtain s1 ys j out1 where
      s1: "mb_receive xs s = Inr (s1, ys)" "mb_run ops s1 = Inr (s', j, out1)" "i = ys @ j"
      by (auto simp: mb_run_def split: sum.splits)
    have "mb_holds (all @ ys) r s1 \<or> length (all @ ys) = 8192 \<and> mb_exhausted s1"
    proof (cases "length all < 4096")
      case True
      from receive_first[OF Cons.prems(1) True, of xs] s1(1) show ?thesis by auto
    next
      case False
      with receive_second[OF Cons.prems(1), of xs] s1(1) Cons.prems(1) show ?thesis
        by (auto simp: mb_exhausted_def mb_holds_def split: if_splits)
    qed
    with Cons.IH[of "all @ ys" r s1 j out1] exhausted_run[of s1 ops s' j out1] s1(2,3) show ?thesis by auto
  qed
qed

text \<open>
  C34. The buffer dies at 8192 bytes: no run stores more, and once that many have been
  stored, \<open>GetWriteBuff\<close> dereferences a null pointer, even if everything has been read.
\<close>

theorem memory_buff_dies:
  assumes "mb_run ops (memoryBuff_new 2) = Inr (s, i, out)"
  shows "length i \<le> 8192 \<and> (length i = 8192 \<longrightarrow> GetWriteBuff s = Inl Undef)"
  using holds_run[OF mb_holds_new assms]
  by (auto simp: mb_holds_def mb_exhausted_def GetWriteBuff_def)

theorem memory_buff_dies_witness:
  "\<exists>s i out. mb_run [Op_receive (replicate 4096 7), Op_take 4096, Op_receive (replicate 4096 8)]
      (memoryBuff_new 2) = Inr (s, i, out) \<and> length i = 8192 \<and> GetWriteBuff s = Inl Undef"
proof -
  let ?xs = "replicate 4096 (7 :: u8)" and ?ys = "replicate 4096 (8 :: u8)"
  from receive_first[OF mb_holds_new, of ?xs] obtain s1 where
    s1: "mb_receive ?xs (memoryBuff_new 2) = Inr (s1, ?xs)" "mb_holds ?xs 0 s1" by auto
  from take_first[OF s1(2), of 4096] obtain s2 where
    s2: "mb_take 4096 s1 = Inr (s2, ?xs)" "mb_holds ?xs 4096 s2" by auto
  from receive_second[OF s2(2), of ?ys] obtain s3 where "mb_receive ?ys s2 = Inr (s3, ?ys)" by auto
  with s1 s2 have r: "mb_run [Op_receive ?xs, Op_take 4096, Op_receive ?ys] (memoryBuff_new 2) =
      Inr (s3, ?xs @ ?ys, ?xs)" by (simp add: mb_run_def)
  moreover have "length (?xs @ ?ys) = 8192" by simp
  ultimately show ?thesis using memory_buff_dies[OF r] by blast
qed

end
