(* ===== verification/FdBridge.thy ===== *)
theory FdBridge
  imports MemoryBuff_Correct Socket
begin

text \<open>
  ExtNet/common/FdBridge.h and FdBridge.cpp: \<open>read\<close> fills the receive buffer from the socket and
  then calls \<open>notifyred\<close>, the parser of the connection; that call is composed with this loop
  where the parsers are modelled.
\<close>

section \<open>read\<close>

text \<open>How the loop ends: with the call of \<open>notifyred\<close>, or with -1 before it.\<close>

datatype fd_end = Fd_notify | Fd_fail

function fd_read_loop :: "memory_buff \<Rightarrow> rx list \<Rightarrow> fault + (memory_buff \<times> rx list \<times> u8 list \<times> fd_end)" where
  "fd_read_loop s evs = (case GetWriteBuff s of
     Inl f \<Rightarrow> Inl f
   | Inr (s1, p, len) \<Rightarrow>
       if len = 0 then Inr (s1, evs, [], Fd_notify)
       else
         (case recv len evs of
            (Recv_err e, evs') \<Rightarrow>
              if e = EAGAIN \<or> e = EWOULDBLOCK \<or> e = EINTR then Inr (s1, evs', [], Fd_notify)
              else Inr (s1, evs', [], Fd_fail)
          | (Recv xs, evs') \<Rightarrow>
              if xs = [] then Inr (s1, evs', [], Fd_fail)
              else
                (case mb_store p xs s1 of
                   Inl f \<Rightarrow> Inl f
                 | Inr s2 \<Rightarrow>
                     (case AdjustWriteSize (length xs) s2 of
                        Inl f \<Rightarrow> Inl f
                      | Inr s3 \<Rightarrow>
                          if length xs < len then Inr (s3, evs', xs, Fd_notify)
                          else
                            (case fd_read_loop s3 evs' of
                               Inl f \<Rightarrow> Inl f
                             | Inr (s4, evs'', ys, e) \<Rightarrow> Inr (s4, evs'', xs @ ys, e))))))"
  by pat_completeness auto
termination
  by (relation "measure (\<lambda>(_, evs). rx_bytes evs + length evs)")
     (auto dest: recv_progress[OF sym])

declare fd_read_loop.simps [simp del]

text \<open>A call of \<open>read\<close> with the parser as argument: \<open>None\<close> when the parser does not return.\<close>

definition fd_read ::
  "(memory_buff \<Rightarrow> (fault + ('r \<times> int)) option) \<Rightarrow> memory_buff \<Rightarrow> rx list \<Rightarrow>
   (fault + (memory_buff + 'r) \<times> int) option" where
  "fd_read notifyred s evs = (case fd_read_loop s evs of
     Inl f \<Rightarrow> Some (Inl f)
   | Inr (s', _, _, Fd_fail) \<Rightarrow> Some (Inr (Inl s', -1))
   | Inr (s', _, _, Fd_notify) \<Rightarrow>
       (case notifyred s' of
          None \<Rightarrow> None
        | Some (Inl f) \<Rightarrow> Some (Inl f)
        | Some (Inr (r, n)) \<Rightarrow> Some (Inr (Inr r, n))))"

section \<open>What is received is stored\<close>

text \<open>One round of the loop is \<open>mb_receive\<close> on what \<open>recv\<close> delivers.\<close>

lemma write_buff_offered:
  "mb_holds all r s \<Longrightarrow> \<exists>p len. GetWriteBuff s = Inr (s, p, len) \<and> 0 < len"
  by (auto simp: mb_holds_def GetWriteBuff_def first_node_def second_node_def)

lemma store_received:
  assumes "mb_holds all r s" and "length all + length xs < 8192"
    and "GetWriteBuff s = Inr (s, p, len)" and "length xs \<le> len"
  shows "\<exists>s2 s3. mb_store p xs s = Inr s2 \<and> AdjustWriteSize (length xs) s2 = Inr s3 \<and> mb_holds (all @ xs) r s3"
proof -
  from mb.recv_law[OF assms(1,2)] obtain s' ys where
    "mb_receive xs s = Inr (s', ys)" "mb_holds (all @ ys) r s'" by blast
  with assms(3,4) show ?thesis
    by (auto simp: mb_receive_def Let_def min_absorb1 split: sum.splits)
qed

lemma fd_read_stores:
  "mb_holds all r s \<Longrightarrow> length all + rx_bytes evs < 8192 \<Longrightarrow>
   \<exists>s' evs' got e. fd_read_loop s evs = Inr (s', evs', got, e) \<and> mb_holds (all @ got) r s' \<and>
     rx_bytes evs' + length got = rx_bytes evs"
proof (induction "rx_bytes evs + length evs" arbitrary: s evs all rule: less_induct)
  case less
  from write_buff_offered[OF less.prems(1)] obtain p len where
    g: "GetWriteBuff s = Inr (s, p, len)" "0 < len" by blast
  obtain o1 evs1 where rc: "recv len evs = (o1, evs1)" by fastforce
  show ?case
  proof (cases o1)
    case (Recv_err e)
    with less.prems(1) g rc recv_error[of len evs e evs1] show ?thesis
      by (subst fd_read_loop.simps) auto
  next
    case (Recv xs)
    note rp = recv_progress[OF rc[unfolded Recv]]
    show ?thesis
    proof (cases "xs = []")
      case True
      with less.prems(1) g rc Recv rp show ?thesis by (subst fd_read_loop.simps) auto
    next
      case False
      have "length all + length xs < 8192" "length xs \<le> len" using less.prems(2) rp by simp_all
      from store_received[OF less.prems(1) this(1) g(1) this(2)] obtain s2 s3 where
        st: "mb_store p xs s = Inr s2" "AdjustWriteSize (length xs) s2 = Inr s3" "mb_holds (all @ xs) r s3"
        by blast
      show ?thesis
      proof (cases "length xs < len")
        case True
        with less.prems(1) g rc Recv rp False st show ?thesis by (subst fd_read_loop.simps) auto
      next
        case full: False
        have "rx_bytes evs1 + length evs1 < rx_bytes evs + length evs" using rp False by simp
        moreover have "length (all @ xs) + rx_bytes evs1 < 8192" using less.prems(2) rp by simp
        ultimately obtain s4 evs4 ys e where
          "fd_read_loop s3 evs1 = Inr (s4, evs4, ys, e)" "mb_holds ((all @ xs) @ ys) r s4"
          "rx_bytes evs4 + length ys = rx_bytes evs1"
          using less.hyps st(3) by blast
        with g rc Recv rp False st full show ?thesis by (subst fd_read_loop.simps) auto
      qed
    qed
  qed
qed

end
