(* ===== verification/BaseType.thy ===== *)
theory BaseType
  imports Prelude
begin

text \<open>
  ExtNet/common/BaseType.h: the packet handed to the server (\<open>ServerPack\<close>), the packet under
  assembly (\<open>PackDealWith\<close>) and the frame under assembly (\<open>WsDealWith\<close>). The host is little-endian;
  16-bit sizes are naturals with their wrap-around written out; memory is available.
\<close>

section \<open>Little-endian numbers\<close>

definition le_bytes :: "nat \<Rightarrow> nat \<Rightarrow> u8 list" where
  "le_bytes k n = map (\<lambda>i. of_nat (n div 256 ^ i)) [0..<k]"

fun le_value :: "u8 list \<Rightarrow> nat" where
  "le_value [] = 0"
| "le_value (b # bs) = unat b + 256 * le_value bs"

lemma length_le_bytes [simp]: "length (le_bytes k n) = k"
  by (simp add: le_bytes_def)

lemma le_bytes_Suc: "le_bytes (Suc k) n = of_nat n # le_bytes k (n div 256)"
  by (simp add: le_bytes_def upt_conv_Cons map_Suc_upt[symmetric] div_mult2_eq del: upt_Suc)

lemma le_value_bytes: "n < 256 ^ k \<Longrightarrow> le_value (le_bytes k n) = n"
proof (induction k arbitrary: n)
  case (Suc k)
  then have "n div 256 < 256 ^ k" by (simp add: less_mult_imp_div_less)
  with Suc.IH show ?case by (simp add: le_bytes_Suc unat_of_nat)
qed (simp add: le_bytes_def)

section \<open>ServerPack\<close>

definition server_size :: "nat \<Rightarrow> nat" where
  "server_size len = (len + 4 + 4) mod 65536"

text \<open>\<open>memcpy(p + off, src, k)\<close> within memory of a known size, from a source of a known size.\<close>

definition memcpy :: "u8 list \<Rightarrow> nat \<Rightarrow> u8 list \<Rightarrow> nat \<Rightarrow> u8 list option" where
  "memcpy m off src k = (case mem_read src 0 k of None \<Rightarrow> None | Some xs \<Rightarrow> mem_write m off xs)"

definition ServerPack :: "nat \<Rightarrow> u8 list \<Rightarrow> nat \<Rightarrow> nat \<Rightarrow> u8 list option" where
  "ServerPack connId buff msgId len =
     (let size = server_size len in
      case memcpy (replicate size 0) 0 (le_bytes 2 size) 2 of
        None \<Rightarrow> None
      | Some m1 \<Rightarrow>
          (case memcpy m1 2 (le_bytes 2 msgId) 2 of
             None \<Rightarrow> None
           | Some m2 \<Rightarrow>
               (case memcpy m2 4 (le_bytes 4 connId) 4 of
                  None \<Rightarrow> None
                | Some m3 \<Rightarrow> memcpy m3 (4 + 4) buff len)))"

text \<open>\<open>memcpy\<close> between two blocks, the size computed in \<open>int\<close>: a negative one is huge as a \<open>size_t\<close>.\<close>

definition copy_bytes :: "u8 list \<Rightarrow> int \<Rightarrow> u8 list \<Rightarrow> int \<Rightarrow> int \<Rightarrow> fault + u8 list" where
  "copy_bytes dst doff src soff k =
     (if doff < 0 \<or> soff < 0 \<or> k < 0 then Inl Undef
      else
        (case mem_read src (nat soff) (nat k) of
           None \<Rightarrow> Inl Undef
         | Some xs \<Rightarrow> (case mem_write dst (nat doff) xs of None \<Rightarrow> Inl Undef | Some m \<Rightarrow> Inr m)))"

section \<open>PackDealWith\<close>

text \<open>
  \<open>pk_head\<close> is the pointer to the head as an offset into the data, \<open>None\<close> while it has not
  been given a value; the constructor gives it none.
\<close>

record pack_deal =
  pk_head :: "nat option"
  pk_data :: "u8 list"
  pk_size :: nat
  pk_cap :: nat

definition pk_headSize :: nat where
  "pk_headSize = 4"

definition PackDealWith_new :: "u8 list \<Rightarrow> pack_deal" where
  "PackDealWith_new mem = \<lparr>pk_head = None, pk_data = mem, pk_size = 0, pk_cap = 4096\<rparr>"

definition head_field :: "nat \<Rightarrow> pack_deal \<Rightarrow> nat option" where
  "head_field off p = (case pk_head p of
     None \<Rightarrow> None
   | Some h \<Rightarrow> map_option le_value (mem_read (pk_data p) (h + off) 2))"

definition head_len :: "pack_deal \<Rightarrow> nat option" where
  "head_len = head_field 0"

definition head_msgId :: "pack_deal \<Rightarrow> nat option" where
  "head_msgId = head_field 2"

section \<open>WsDealWith\<close>

text \<open>The states of the frame parser; \<open>READ_MASK\<close> is never entered.\<close>

datatype op_state = INIT_HEAD | READ_PAYLOAD | READ_MASK | READ_MASK_KEY | READ_DATA

fun op_code :: "op_state \<Rightarrow> nat" where
  "op_code INIT_HEAD = 1"
| "op_code READ_PAYLOAD = 2"
| "op_code READ_MASK = 3"
| "op_code READ_MASK_KEY = 4"
| "op_code READ_DATA = 5"

lemma op_code_inject: "op_code a = op_code b \<Longrightarrow> a = b"
  by (cases a; cases b) simp_all

text \<open>The order of the states is that of their values.\<close>

instantiation op_state :: linorder
begin

definition less_eq_op_state :: "op_state \<Rightarrow> op_state \<Rightarrow> bool" where
  "a \<le> b \<longleftrightarrow> op_code a \<le> op_code b"

definition less_op_state :: "op_state \<Rightarrow> op_state \<Rightarrow> bool" where
  "a < b \<longleftrightarrow> op_code a < op_code b"

instance
  by standard (auto simp: less_eq_op_state_def less_op_state_def dest: op_code_inject)

end

text \<open>
  \<open>wh_wbs\<close> points to the two bytes of the frame's head as an offset into the data of the
  connection; the bit fields are read from there.
\<close>

record ws_head =
  wh_wbs :: "nat option"
  wh_len :: u64
  wh_masks :: "u8 list"

record ws_deal =
  wd_head :: ws_head
  wd_data :: "u8 list"
  wd_Data_size :: nat
  wd_Data_cap :: nat
  wd_Read_size :: nat
  wd_parse_Index :: nat
  wd_Op :: op_state

definition ws_headSize :: nat where
  "ws_headSize = 2"

text \<open>The constructor leaves the head and the memory uninitialised.\<close>

definition WsDealWith_new :: "u64 \<Rightarrow> u8 list \<Rightarrow> u8 list \<Rightarrow> ws_deal" where
  "WsDealWith_new len0 masks0 mem = \<lparr>wd_head = \<lparr>wh_wbs = None, wh_len = len0, wh_masks = masks0\<rparr>,
     wd_data = mem, wd_Data_size = 0, wd_Data_cap = 8192, wd_Read_size = 0, wd_parse_Index = 0,
     wd_Op = INIT_HEAD\<rparr>"

definition ws_base_at :: "ws_deal \<Rightarrow> (u8 \<times> u8) option" where
  "ws_base_at d = (case wh_wbs (wd_head d) of
     None \<Rightarrow> None
   | Some p \<Rightarrow> map_option (\<lambda>xs. (xs ! 0, xs ! 1)) (mem_read (wd_data d) p 2))"

definition ws_opcod :: "u8 \<times> u8 \<Rightarrow> nat" where
  "ws_opcod b = unat (take_bit 4 (fst b))"

definition ws_fin :: "u8 \<times> u8 \<Rightarrow> bool" where
  "ws_fin b = bit (fst b) 7"

definition ws_payLoad :: "u8 \<times> u8 \<Rightarrow> nat" where
  "ws_payLoad b = unat (take_bit 7 (snd b))"

section \<open>Properties\<close>

lemma memcpy_fits:
  "k = length src \<Longrightarrow> length pre = off \<Longrightarrow> off + k \<le> length (pre @ rest) \<Longrightarrow>
   memcpy (pre @ rest) off src k = Some (pre @ src @ drop k rest)"
  by (simp add: memcpy_def mem_read_def mem_write_def)

lemma memcpy_length: "memcpy m off src k = Some m' \<Longrightarrow> length m' = length m"
  by (auto simp: memcpy_def dest: length_mem_write split: option.splits)

lemma memcpy_overflow: "length m < off + k \<Longrightarrow> memcpy m off src k = None"
  by (auto simp: memcpy_def mem_read_def mem_write_def split: option.split if_splits)

text \<open>
  C40. A packet for the server is the size with its head of 8 bytes, the message id, the
  connection id, each little-endian, and the body, for bodies of at most 65527 bytes; for longer
  ones the 16-bit size wraps around and the constructor writes behind the memory it allocated.
\<close>

theorem server_pack_layout:
  assumes "len \<le> length buff" and "len < 65536"
  shows "ServerPack connId buff msgId len =
    (if len \<le> 65527 then Some (le_bytes 2 (len + 8) @ le_bytes 2 msgId @ le_bytes 4 connId @ take len buff)
     else None)"
proof (cases "len \<le> 65527")
  case True
  then have s: "server_size len = len + 8" by (simp add: server_size_def)
  have m1: "memcpy (replicate (len + 8) 0) 0 (le_bytes 2 (len + 8)) 2 =
      Some (le_bytes 2 (len + 8) @ replicate (len + 6) 0)"
    by (simp add: memcpy_def mem_read_def mem_write_def)
  have m2: "memcpy (le_bytes 2 (len + 8) @ replicate (len + 6) 0) 2 (le_bytes 2 msgId) 2 =
      Some ((le_bytes 2 (len + 8) @ le_bytes 2 msgId) @ replicate (len + 4) 0)"
    by (subst memcpy_fits) simp_all
  have m3: "memcpy ((le_bytes 2 (len + 8) @ le_bytes 2 msgId) @ replicate (len + 4) 0) 4 (le_bytes 4 connId) 4 =
      Some ((le_bytes 2 (len + 8) @ le_bytes 2 msgId @ le_bytes 4 connId) @ replicate len 0)"
    by (subst memcpy_fits) simp_all
  have "mem_read buff 0 len = Some (take len buff)" using assms(1) by (simp add: mem_read_def)
  then have m4: "memcpy ((le_bytes 2 (len + 8) @ le_bytes 2 msgId @ le_bytes 4 connId) @ replicate len 0) (4 + 4) buff len =
      Some (le_bytes 2 (len + 8) @ le_bytes 2 msgId @ le_bytes 4 connId @ take len buff)"
    using assms(1) by (simp add: memcpy_def mem_write_def)
  from True show ?thesis
    by (simp only: ServerPack_def Let_def s m1 m2 m3 m4 option.case if_True)
next
  case False
  then have s: "server_size len = len - 65528" using assms(2) by (simp add: server_size_def mod_if)
  let ?m0 = "replicate (server_size len) (0 :: u8)"
  have body: "memcpy m (4 + 4) buff len = None" if "length m = length ?m0" for m
    using that s by (intro memcpy_overflow) simp
  show ?thesis
  proof (cases "ServerPack connId buff msgId len")
    case (Some p)
    then obtain m1 m2 m3 where "memcpy ?m0 0 (le_bytes 2 (server_size len)) 2 = Some m1"
      "memcpy m1 2 (le_bytes 2 msgId) 2 = Some m2" "memcpy m2 4 (le_bytes 4 connId) 4 = Some m3"
      "memcpy m3 (4 + 4) buff len = Some p"
      unfolding ServerPack_def Let_def by (auto simp only: split: option.splits)
    with body[of m3] show ?thesis by (auto dest!: memcpy_length)
  qed (use False in simp)
qed

theorem server_pack_layout_witness:
  "ServerPack 258 [7, 8, 9] 100 3 = Some [11, 0, 100, 0, 2, 1, 0, 0, 7, 8, 9]"
proof -
  have "le_bytes 2 11 = [11, 0]" "le_bytes 2 100 = [100, 0]" "le_bytes 4 258 = [2, 1, 0, 0]" by code_simp+
  with server_pack_layout[of 3 "[7, 8, 9]" 258 100] show ?thesis by (simp add: numeral_3_eq_3)
qed

end
