(* ===== verification/WsSticky.thy ===== *)
theory WsSticky
  imports BaseType Socket
begin

text \<open>
  ExtNet/ws/WsStickyWrap.cpp: the frame parser of a WebSocket connection. Pointers into the
  connection's data are offsets; \<open>char\<close> is signed. \<open>MakeServerMsg\<close> is a pure virtual function
  of the class and an argument here; its \<open>None\<close> is undefined behaviour.
\<close>

section \<open>State\<close>

text \<open>
  The frame and the packet under assembly, the packets made, what was given to \<open>send\<close>, and the
  results of the calls of \<open>send\<close> to come.
\<close>

record ws_wrap =
  ws_d :: ws_deal
  ws_pack :: pack_deal
  ws_msgs :: "u8 list list"
  ws_sent :: "u8 list list"
  ws_tx :: "int list"

definition WsStickyWrap_new :: "u64 \<Rightarrow> u8 list \<Rightarrow> u8 list \<Rightarrow> u8 list \<Rightarrow> int list \<Rightarrow> ws_wrap" where
  "WsStickyWrap_new len0 masks0 mem pmem txs = \<lparr>ws_d = WsDealWith_new len0 masks0 mem,
     ws_pack = PackDealWith_new pmem, ws_msgs = [], ws_sent = [], ws_tx = txs\<rparr>"

type_synonym make_msg = "u8 list \<Rightarrow> nat \<Rightarrow> nat \<Rightarrow> u8 list option"

section \<open>parseWsHead\<close>

text \<open>A \<open>char\<close> converted to \<open>uint64_t\<close> is sign-extended.\<close>

definition char_u64 :: "u8 \<Rightarrow> u64" where
  "char_u64 b = word_of_int (sint b)"

fun or_shifted :: "u64 \<Rightarrow> u8 list \<Rightarrow> u64" where
  "or_shifted acc [] = acc"
| "or_shifted acc (b # bs) = or_shifted (or acc (push_bit (8 * length bs) (char_u64 b))) bs"

definition parse_init :: "nat \<Rightarrow> int \<Rightarrow> ws_deal \<Rightarrow> fault + (ws_deal \<times> int)" where
  "parse_init p len d =
     (if 2 \<le> len
      then Inr (d\<lparr>wd_head := \<lparr>wh_wbs = Some p, wh_len = 0, wh_masks = replicate 4 0\<rparr>,
                  wd_Op := READ_PAYLOAD, wd_parse_Index := 0\<rparr>, int ws_headSize)
      else Inr (d, 0))"

definition parse_payload :: "nat \<Rightarrow> int \<Rightarrow> ws_deal \<Rightarrow> fault + (ws_deal \<times> int)" where
  "parse_payload p len d = (case ws_base_at d of
     None \<Rightarrow> Inl Undef
   | Some b \<Rightarrow>
       (let set_len = (\<lambda>n. d\<lparr>wd_head := (wd_head d)\<lparr>wh_len := n\<rparr>, wd_Op := READ_MASK_KEY\<rparr>) in
        if ws_payLoad b < 126 then Inr (set_len (of_nat (ws_payLoad b)), 0)
        else if ws_payLoad b = 126 \<and> 2 \<le> len then
          (case mem_read (wd_data d) p 2 of
             None \<Rightarrow> Inl Undef
           | Some xs \<Rightarrow> Inr (set_len (or_shifted 0 xs), 2))
        else if ws_payLoad b = 127 \<and> 8 \<le> len then
          (case mem_read (wd_data d) p 8 of
             None \<Rightarrow> Inl Undef
           | Some xs \<Rightarrow> Inr (set_len (or_shifted 0 xs), 8))
        else Inr (d, 0)))"

definition parse_mask_key :: "nat \<Rightarrow> int \<Rightarrow> ws_deal \<Rightarrow> fault + (ws_deal \<times> int)" where
  "parse_mask_key p len d =
     (if 4 \<le> len then
        (case mem_read (wd_data d) p 4 of
           None \<Rightarrow> Inl Undef
         | Some xs \<Rightarrow> Inr (d\<lparr>wd_head := (wd_head d)\<lparr>wh_masks := xs\<rparr>, wd_Op := READ_DATA\<rparr>, 4))
      else Inr (d, 0))"

text \<open>The unmasking loop; -1 at a byte 0xFF, with the bytes before it already unmasked.\<close>

function unmask_loop :: "nat \<Rightarrow> int \<Rightarrow> int \<Rightarrow> ws_deal \<Rightarrow> fault + (ws_deal \<times> int)" where
  "unmask_loop p len readlen d =
     (if of_nat (wd_parse_Index d) < wh_len (wd_head d) \<and> readlen < len then
        (if p < length (wd_data d) then
           (if wd_data d ! p = 0xFF then Inr (d, -1)
            else unmask_loop (Suc p) len (readlen + 1)
              (d\<lparr>wd_data := (wd_data d)[p := xor (wd_data d ! p) (wh_masks (wd_head d) ! (wd_parse_Index d mod 4))],
                 wd_parse_Index := (wd_parse_Index d + 1) mod 65536\<rparr>))
         else Inl Undef)
      else Inr (d, readlen))"
  by pat_completeness auto
termination
  by (relation "measure (\<lambda>(p, len, readlen, d). nat (len - readlen))") auto

declare unmask_loop.simps [simp del]

definition parse_data :: "nat \<Rightarrow> int \<Rightarrow> ws_deal \<Rightarrow> fault + (ws_deal \<times> int)" where
  "parse_data p len d = (case unmask_loop p len 0 d of
     Inl f \<Rightarrow> Inl f
   | Inr (d', n) \<Rightarrow>
       if n < 0 then Inr (d', n)
       else Inr (if wh_len (wd_head d') \<le> of_nat (wd_parse_Index d') then d'\<lparr>wd_Op := INIT_HEAD\<rparr> else d', n))"

definition parseWsHead :: "nat \<Rightarrow> int \<Rightarrow> ws_deal \<Rightarrow> fault + (ws_deal \<times> int)" where
  "parseWsHead p len d =
     (if 0 < len then
        (case wd_Op d of
           INIT_HEAD \<Rightarrow> parse_init p len d
         | READ_PAYLOAD \<Rightarrow> parse_payload p len d
         | READ_MASK_KEY \<Rightarrow> parse_mask_key p len d
         | READ_DATA \<Rightarrow> parse_data p len d
         | READ_MASK \<Rightarrow> Inr (d, -1))
      else Inr (d, 0))"

section \<open>Frames to the client\<close>

definition CalFrameHeadSize :: "u8 \<times> u8 \<Rightarrow> nat" where
  "CalFrameHeadSize b = 6 + (if ws_payLoad b = 126 then 2 else if ws_payLoad b = 127 then 8 else 0)"

definition WS_FIN :: nat where "WS_FIN = 128"
definition WS_FR_OP_CLSE :: nat where "WS_FR_OP_CLSE = 8"
definition WS_FR_OP_PING :: nat where "WS_FR_OP_PING = 9"
definition WS_FR_OP_PONG :: nat where "WS_FR_OP_PONG = 10"
definition WS_FR_OP_UNSUPPORTED :: nat where "WS_FR_OP_UNSUPPORTED = 15"

definition frame_header :: "nat \<Rightarrow> nat \<Rightarrow> u8 list" where
  "frame_header type n = of_nat (or WS_FIN type) #
     (if n \<le> 125 then [of_nat n]
      else if n < 65535 then [126, of_nat (n div 256), of_nat n]
      else [127, of_nat (n div 2 ^ 56), of_nat (n div 2 ^ 48), of_nat (n div 2 ^ 40), of_nat (n div 2 ^ 32),
            of_nat (n div 2 ^ 24), of_nat (n div 2 ^ 16), of_nat (n div 2 ^ 8), of_nat n])"

text \<open>
  The memory with the payload and its offset stand for \<open>pdata\<close>. The result is what \<open>send\<close>
  returns; the code keeps it in an \<open>int\<close>, which is the same for frames below \<open>2 ^ 31\<close> bytes.
\<close>

definition sendFrame :: "allocator \<Rightarrow> u8 list \<Rightarrow> nat \<Rightarrow> nat \<Rightarrow> nat \<Rightarrow> ws_wrap \<Rightarrow> fault + (ws_wrap \<times> int)" where
  "sendFrame malloc mem off sz type w =
     (let head = frame_header type sz in
      case malloc (add64 (add64 (length head) sz) 1) of
        None \<Rightarrow> Inr (w, -1)
      | Some r0 \<Rightarrow>
          (case mem_write r0 0 head of
             None \<Rightarrow> Inl Undef
           | Some r1 \<Rightarrow>
               (case mem_read mem off sz of
                  None \<Rightarrow> Inl Undef
                | Some body \<Rightarrow>
                    (case mem_write r1 (length head) body of
                       None \<Rightarrow> Inl Undef
                     | Some r2 \<Rightarrow>
                         (case mem_write r2 (length head + sz) [0] of
                            None \<Rightarrow> Inl Undef
                          | Some response \<Rightarrow>
                              (case mem_read response 0 (sz + length head + 1) of
                                 None \<Rightarrow> Inl Undef
                               | Some bs \<Rightarrow>
                                   (case send bs (ws_tx w) of
                                      (n, txs) \<Rightarrow> Inr (w\<lparr>ws_sent := ws_sent w @ [bs], ws_tx := txs\<rparr>, n))))))))"

section \<open>finishParse\<close>

text \<open>
  One round of the loop with \<open>n\<close> for the size of the frame's data at \<open>off\<close>: the head of the packet
  is completed, checked, and the body copied. \<open>Some\<close> is the result of a return.
\<close>

definition finish_head :: "int \<Rightarrow> int \<Rightarrow> ws_wrap \<Rightarrow> fault + (ws_wrap \<times> int)" where
  "finish_head off n w =
     (let pk = ws_pack w in
      if pk_size pk < pk_headSize then
        (let need = int pk_headSize - int (pk_size pk); k = (if n > need then need else n) in
         case copy_bytes (pk_data pk) (int (pk_size pk)) (wd_data (ws_d w)) off k of
           Inl f \<Rightarrow> Inl f
         | Inr m \<Rightarrow> Inr (w\<lparr>ws_pack := pk\<lparr>pk_data := m, pk_size := pk_size pk + nat k\<rparr>\<rparr>, k))
      else Inr (w, 0))"

definition finish_body :: "int \<Rightarrow> int \<Rightarrow> nat \<Rightarrow> int \<Rightarrow> ws_wrap \<Rightarrow> fault + ws_wrap" where
  "finish_body off n hl readlen w =
     (let pk = ws_pack w; src = wd_data (ws_d w) in
      if int (pk_size pk) + (n - readlen) \<le> int hl then
        (case copy_bytes (pk_data pk) (int (pk_size pk)) src (off + readlen) (n - readlen) of
           Inl f \<Rightarrow> Inl f
         | Inr m \<Rightarrow> Inr (w\<lparr>ws_pack := pk\<lparr>pk_data := m, pk_size := (pk_size pk + nat (n - readlen)) mod 65536\<rparr>\<rparr>))
      else
        (case copy_bytes (pk_data pk) (int (pk_size pk)) src (off + readlen) (int hl - int (pk_size pk)) of
           Inl f \<Rightarrow> Inl f
         | Inr m \<Rightarrow> Inr (w\<lparr>ws_pack := pk\<lparr>pk_data := m\<rparr>, ws_d := (ws_d w)\<lparr>wd_Data_size := hl\<rparr>\<rparr>)))"

definition finish_message :: "make_msg \<Rightarrow> ws_wrap \<Rightarrow> fault + ws_wrap" where
  "finish_message mk w = (case (head_len (ws_pack w), head_msgId (ws_pack w)) of
     (Some hl, Some mid) \<Rightarrow>
       if pk_headSize < pk_size (ws_pack w) \<and> hl = wd_Data_size (ws_d w) then
         (case mk (pk_data (ws_pack w)) mid hl of
            None \<Rightarrow> Inl Undef
          | Some msg \<Rightarrow> Inr (w\<lparr>ws_msgs := ws_msgs w @ [msg], ws_d := (ws_d w)\<lparr>wd_Data_size := 0\<rparr>\<rparr>))
       else Inr w
   | _ \<Rightarrow> Inl Undef)"

definition finish_round :: "make_msg \<Rightarrow> int \<Rightarrow> int \<Rightarrow> ws_wrap \<Rightarrow> fault + (ws_wrap \<times> int option)" where
  "finish_round mk off n w = (case finish_head off n w of
     Inl f \<Rightarrow> Inl f
   | Inr (w1, readlen) \<Rightarrow>
       (case head_len (ws_pack w1) of
          None \<Rightarrow> Inl Undef
        | Some hl \<Rightarrow>
            if pk_headSize \<le> pk_size (ws_pack w1) \<and> pk_cap (ws_pack w1) < hl then Inr (w1, Some (-1))
            else
              (case finish_body off n hl readlen w1 of
                 Inl f \<Rightarrow> Inl f
               | Inr w2 \<Rightarrow> (case finish_message mk w2 of Inl f \<Rightarrow> Inl f | Inr w3 \<Rightarrow> Inr (w3, None)))))"

text \<open>The loop has no exit but the return of -1.\<close>

partial_function (option) finishParse :: "make_msg \<Rightarrow> int \<Rightarrow> int \<Rightarrow> ws_wrap \<Rightarrow> (fault + (ws_wrap \<times> int)) option" where
  "finishParse mk off n w = (case finish_round mk off n w of
     Inl f \<Rightarrow> Some (Inl f)
   | Inr (w', Some r) \<Rightarrow> Some (Inr (w', r))
   | Inr (w', None) \<Rightarrow> finishParse mk off n w')"

section \<open>readData\<close>

text \<open>How a round of the loop ends: it goes on, breaks, or returns a number.\<close>

datatype ctl = Ctl_next | Ctl_break | Ctl_return int

definition ws_answer :: "allocator \<Rightarrow> nat \<Rightarrow> nat \<Rightarrow> ws_wrap \<Rightarrow> fault + (ws_wrap \<times> ctl)" where
  "ws_answer malloc hs type w =
     (case sendFrame malloc (wd_data (ws_d w)) hs
             (unat (word_of_int (int (wd_Data_size (ws_d w)) - int hs) :: u64)) type w of
        Inl f \<Rightarrow> Inl f
      | Inr (w', n) \<Rightarrow> Inr (w', if n < 0 then Ctl_return (-1) else Ctl_next))"

definition ws_compact :: "nat \<Rightarrow> u64 \<Rightarrow> ws_wrap \<Rightarrow> fault + (ws_wrap \<times> ctl)" where
  "ws_compact hs len w =
     (let d = ws_d w; rest = word_of_int (int (wd_Data_size d) - int hs) - len in
      case mem_read (wd_data d) (hs + unat len) (unat rest) of
        None \<Rightarrow> Inl Undef
      | Some xs \<Rightarrow>
          (case mem_write (wd_data d) 0 xs of
             None \<Rightarrow> Inl Undef
           | Some m \<Rightarrow> Inr (w\<lparr>ws_d := d\<lparr>wd_data := m, wd_Data_size := unat rest mod 65536, wd_Read_size := 0\<rparr>\<rparr>,
                            Ctl_next)))"

definition ws_data_frame :: "make_msg \<Rightarrow> nat \<Rightarrow> ws_wrap \<Rightarrow> (fault + (ws_wrap \<times> ctl)) option" where
  "ws_data_frame mk hs w =
     (let d = ws_d w; len = wh_len (wd_head d) in
      if word_of_int (int (wd_Data_size d) - int hs) \<le> len then
        (case finishParse mk (int hs) (sint (ucast len :: 32 word)) w of
           None \<Rightarrow> None
         | Some (Inl f) \<Rightarrow> Some (Inl f)
         | Some (Inr (w', _)) \<Rightarrow> Some (ws_compact hs len w'))
      else Some (Inr (w, Ctl_return (-1))))"

definition ws_frame_done :: "allocator \<Rightarrow> make_msg \<Rightarrow> u8 \<times> u8 \<Rightarrow> ws_wrap \<Rightarrow> (fault + (ws_wrap \<times> ctl)) option" where
  "ws_frame_done malloc mk b w =
     (let hs = CalFrameHeadSize b; op = ws_opcod b in
      if op = WS_FR_OP_CLSE then Some (ws_answer malloc hs WS_FR_OP_CLSE w)
      else if op = WS_FR_OP_PING then Some (ws_answer malloc hs WS_FR_OP_PING w)
      else if op = WS_FR_OP_PONG \<or> op = WS_FR_OP_UNSUPPORTED then Some (Inr (w, Ctl_next))
      else ws_data_frame mk hs w)"

definition ws_round :: "allocator \<Rightarrow> make_msg \<Rightarrow> ws_wrap \<Rightarrow> (fault + (ws_wrap \<times> ctl)) option" where
  "ws_round malloc mk w =
     (let d = ws_d w in
      case parseWsHead (wd_Read_size d) (int (wd_Data_size d) - int (wd_Read_size d)) d of
        Inl f \<Rightarrow> Some (Inl f)
      | Inr (d1, n) \<Rightarrow>
          if n < 0 then Some (Inr (w\<lparr>ws_d := d1\<rparr>, Ctl_break))
          else
            (let d2 = d1\<lparr>wd_Read_size := (wd_Read_size d1 + nat n) mod 65536\<rparr>; w2 = w\<lparr>ws_d := d2\<rparr> in
             case ws_base_at d2 of
               None \<Rightarrow> Some (Inl Undef)
             | Some b \<Rightarrow>
                 if ws_fin b \<and> wd_parse_Index d2 \<noteq> 0 \<and> wh_len (wd_head d2) \<le> of_nat (wd_parse_Index d2)
                 then ws_frame_done malloc mk b w2
                 else Some (Inr (w2, Ctl_next))))"

partial_function (option) ws_loop :: "allocator \<Rightarrow> make_msg \<Rightarrow> ws_wrap \<Rightarrow> (fault + (ws_wrap \<times> int option)) option" where
  "ws_loop malloc mk w = (case ws_round malloc mk w of
     None \<Rightarrow> None
   | Some (Inl f) \<Rightarrow> Some (Inl f)
   | Some (Inr (w', Ctl_return n)) \<Rightarrow> Some (Inr (w', Some n))
   | Some (Inr (w', Ctl_break)) \<Rightarrow> Some (Inr (w', None))
   | Some (Inr (w', Ctl_next)) \<Rightarrow>
       if wd_Read_size (ws_d w') < wd_Data_size (ws_d w') then ws_loop malloc mk w'
       else Some (Inr (w', None)))"

text \<open>The bytes at \<open>pbuff\<close> are given; \<open>len\<close> is their number.\<close>

definition ws_readData :: "allocator \<Rightarrow> make_msg \<Rightarrow> u8 list \<Rightarrow> ws_wrap \<Rightarrow> (fault + (ws_wrap \<times> int)) option" where
  "ws_readData malloc mk pbuff w =
     (let d = ws_d w; len = length pbuff in
      if 0 < len then
        (if int len < int (wd_Data_cap d) - int (wd_Data_size d) then
           (case mem_write (wd_data d) (wd_Data_size d) pbuff of
              None \<Rightarrow> Some (Inl Undef)
            | Some m \<Rightarrow>
                (case ws_loop malloc mk (w\<lparr>ws_d := d\<lparr>wd_data := m, wd_Data_size := wd_Data_size d + len\<rparr>\<rparr>) of
                   None \<Rightarrow> None
                 | Some (Inl f) \<Rightarrow> Some (Inl f)
                 | Some (Inr (w', Some n)) \<Rightarrow> Some (Inr (w', n))
                 | Some (Inr (w', None)) \<Rightarrow> Some (Inr (w', int len))))
         else Some (Inr (w, -1)))
      else Some (Inr (w, 0)))"

end
