(* ===== verification/WsConnect.thy ===== *)
theory WsConnect
  imports Handshake_Correct FdBridge WsSticky
begin

text \<open>
  ExtNet/ws/WsConnect.cpp: a WebSocket connection, from its receive buffer through the handshake
  to the frames. What is given to \<open>send\<close> is logged with the frames. The uninitialised SHA-1
  context of the handshake is an argument.
\<close>

section \<open>State\<close>

record ws_conn =
  wc_buff :: memory_buff
  wc_ws :: ws_wrap
  wc_shook :: bool
  wc_id :: nat

definition WsConnect_new :: "ws_wrap \<Rightarrow> nat \<Rightarrow> ws_conn" where
  "WsConnect_new w connId = \<lparr>wc_buff = memoryBuff_new 2, wc_ws = w, wc_shook = False, wc_id = connId\<rparr>"

definition ws_MakeServerMsg :: "ws_conn \<Rightarrow> make_msg" where
  "ws_MakeServerMsg c buff msgId len = ServerPack (wc_id c) buff msgId len"

section \<open>do\_handshake\<close>

text \<open>
  \<open>mem\<close> is the memory from the given pointer to the end of its block; \<open>strstr\<close> reads it up to a NUL.
\<close>

definition do_handshake :: "allocator \<Rightarrow> sha1_context \<Rightarrow> u8 list \<Rightarrow> ws_wrap \<Rightarrow> fault + (ws_wrap \<times> int)" where
  "do_handshake malloc ctx mem w = (case c_string mem of
     None \<Rightarrow> Inl Undef
   | Some req \<Rightarrow>
       if \<not> strstr req (CRLF @ CRLF) then Inr (w, -1)
       else
         (case get_handshake_response malloc ctx req of
            Inl f \<Rightarrow> Inl f
          | Inr (ret, response) \<Rightarrow>
              if ret < 0 then Inr (w, -1)
              else
                (case Option.bind response c_string of
                   None \<Rightarrow> Inl Undef
                 | Some text \<Rightarrow>
                     (case send text (ws_tx w) of
                        (n, txs) \<Rightarrow> Inr (w\<lparr>ws_sent := ws_sent w @ [text], ws_tx := txs\<rparr>, if n < 0 then -1 else 0)))))"

section \<open>readData\<close>

definition mem_from :: "nat \<times> nat \<Rightarrow> memory_buff \<Rightarrow> u8 list" where
  "mem_from p s = (case mb_heap s (fst p) of None \<Rightarrow> [] | Some n \<Rightarrow> drop (snd p) (nd_data n))"

definition wc_shake :: "allocator \<Rightarrow> sha1_context \<Rightarrow> nat \<times> nat \<Rightarrow> nat \<Rightarrow> ws_conn \<Rightarrow> fault + (ws_conn \<times> int)" where
  "wc_shake malloc ctx p len c = (case do_handshake malloc ctx (mem_from p (wc_buff c)) (wc_ws c) of
     Inl f \<Rightarrow> Inl f
   | Inr (w, ret) \<Rightarrow>
       if ret < 0 then Inr (c\<lparr>wc_ws := w\<rparr>, ret)
       else
         (case AdjustReadSize len (wc_buff c) of
            Inl f \<Rightarrow> Inl f
          | Inr b \<Rightarrow> Inr (c\<lparr>wc_ws := w, wc_buff := b, wc_shook := True\<rparr>, int len)))"

definition wc_frames :: "allocator \<Rightarrow> nat \<times> nat \<Rightarrow> nat \<Rightarrow> ws_conn \<Rightarrow> (fault + (ws_conn \<times> int)) option" where
  "wc_frames malloc p len c = (case mb_load p len (wc_buff c) of
     Inl f \<Rightarrow> Some (Inl f)
   | Inr xs \<Rightarrow>
       (case ws_readData malloc (ws_MakeServerMsg c) xs (wc_ws c) of
          None \<Rightarrow> None
        | Some (Inl f) \<Rightarrow> Some (Inl f)
        | Some (Inr (w, rlen)) \<Rightarrow>
            if rlen < 0 then Some (Inr (c\<lparr>wc_ws := w\<rparr>, rlen))
            else
              (case AdjustReadSize (nat rlen mod 65536) (wc_buff c) of
                 Inl f \<Rightarrow> Some (Inl f)
               | Inr b \<Rightarrow> Some (Inr (c\<lparr>wc_ws := w, wc_buff := b\<rparr>, rlen)))))"

partial_function (option) wc_readData :: "allocator \<Rightarrow> sha1_context \<Rightarrow> nat \<Rightarrow> ws_conn \<Rightarrow> (fault + (ws_conn \<times> int)) option" where
  "wc_readData malloc ctx readlen c = (case GetReadBuff (wc_buff c) of
     Inl f \<Rightarrow> Some (Inl f)
   | Inr None \<Rightarrow> Some (Inr (c, int readlen))
   | Inr (Some (p, len)) \<Rightarrow>
       if \<not> wc_shook c then Some (wc_shake malloc ctx p len c)
       else
         (case wc_frames malloc p len c of
            None \<Rightarrow> None
          | Some (Inl f) \<Rightarrow> Some (Inl f)
          | Some (Inr (c', rlen)) \<Rightarrow>
              if rlen < 0 then Some (Inr (c', rlen))
              else wc_readData malloc ctx ((readlen + nat rlen) mod 65536) c'))"

text \<open>\<open>read\<close> of the connection: \<open>notifyred\<close> is \<open>readData\<close>.\<close>

definition wc_read :: "allocator \<Rightarrow> sha1_context \<Rightarrow> ws_conn \<Rightarrow> rx list \<Rightarrow> (fault + (memory_buff + ws_conn) \<times> int) option" where
  "wc_read malloc ctx c = fd_read (\<lambda>b. wc_readData malloc ctx 0 (c\<lparr>wc_buff := b\<rparr>)) (wc_buff c)"

section \<open>The first bytes of a connection\<close>

definition filled :: "u8 list \<Rightarrow> nat \<Rightarrow> memory_buff" where
  "filled xs r = set_node 0 (ListNode_new\<lparr>nd_data := xs @ replicate (4096 - length xs) 0, nd_write := length xs,
     nd_read := r, nd_next := Some 1\<rparr>) (memoryBuff_new 2)"

lemma new_buff: "memoryBuff_new 2 = \<lparr>mb_heap = [0 \<mapsto> ListNode_new\<lparr>nd_next := Some 1\<rparr>, 1 \<mapsto> ListNode_new],
    mb_fresh = 2, mb_tail = Some 0, mb_read = Some 0, mb_write = Some 0, mb_free = 1\<rparr>"
  by (auto simp: memoryBuff_new_def numeral_2_eq_2 set_node_def dec16_def Let_def fun_eq_iff)

lemma filled_holds: "length xs < 4096 \<Longrightarrow> r \<le> length xs \<Longrightarrow> mb_holds xs r (filled xs r)"
  by (simp add: mb_holds_def filled_def new_buff set_node_def ListNode_new_def first_node_def second_node_def)

lemma first_read:
  assumes "xs \<noteq> []" and "length xs < 4096"
  shows "fd_read_loop (memoryBuff_new 2) [Rx_data xs] = Inr (filled xs 0, [], xs, Fd_notify)"
  using assms
  by (subst fd_read_loop.simps)
     (simp add: GetWriteBuff_def mb_store_def AdjustWriteSize_def mem_write_def new_buff ListNode_new_def set_node_def
       filled_def Let_def)

lemma filled_read:
  assumes "xs \<noteq> []" and "length xs < 4096"
  shows "GetReadBuff (filled xs 0) = Inr (Some ((0, 0), length xs))"
    and "mem_from (0, 0) (filled xs 0) = xs @ 0 # replicate (4095 - length xs) 0"
    and "AdjustReadSize (length xs) (filled xs 0) = Inr (filled xs (length xs))"
proof -
  have "replicate (4096 - length xs) (0::u8) = replicate (Suc (4095 - length xs)) 0"
    using assms(2) by (intro arg_cong[where f = "\<lambda>k. replicate k 0"]) simp
  then show "mem_from (0, 0) (filled xs 0) = xs @ 0 # replicate (4095 - length xs) 0"
    by (simp add: mem_from_def filled_def set_node_def)
  show "GetReadBuff (filled xs 0) = Inr (Some ((0, 0), length xs))"
    using assms(1) by (simp add: GetReadBuff_def node_at_def filled_def new_buff set_node_def)
  show "AdjustReadSize (length xs) (filled xs 0) = Inr (filled xs (length xs))"
    using assms(2) by (simp add: AdjustReadSize_def filled_def new_buff set_node_def ListNode_new_def Let_def)
qed

lemma first_shake:
  assumes "xs \<noteq> []" and "length xs < 4096" and "0 \<notin> set xs"
  shows "wc_read malloc ctx (WsConnect_new w i) [Rx_data xs] =
    (case wc_shake malloc ctx (0, 0) (length xs) ((WsConnect_new w i)\<lparr>wc_buff := filled xs 0\<rparr>) of
       Inl f \<Rightarrow> Some (Inl f)
     | Inr (c, n) \<Rightarrow> Some (Inr (Inr c, n)))"
    and "do_handshake malloc ctx (mem_from (0, 0) (filled xs 0)) w =
      do_handshake malloc ctx (xs @ [0]) w"
proof -
  show "do_handshake malloc ctx (mem_from (0, 0) (filled xs 0)) w = do_handshake malloc ctx (xs @ [0]) w"
    using filled_read(2)[OF assms(1,2)] c_string_prefix[OF assms(3)]
    by (simp add: do_handshake_def)
  show "wc_read malloc ctx (WsConnect_new w i) [Rx_data xs] =
    (case wc_shake malloc ctx (0, 0) (length xs) ((WsConnect_new w i)\<lparr>wc_buff := filled xs 0\<rparr>) of
       Inl f \<Rightarrow> Some (Inl f)
     | Inr (c, n) \<Rightarrow> Some (Inr (Inr c, n)))"
    using first_read[OF assms(1,2)] filled_read(1)[OF assms(1,2)]
    by (simp add: wc_read_def fd_read_def WsConnect_new_def wc_readData.simps split: sum.split)
qed

definition ws_request :: "u8 list list \<Rightarrow> u8 list \<Rightarrow> u8 list \<Rightarrow> u8 list" where
  "ws_request ls key rest = concat (map (\<lambda>l. l @ CRLF) ls) @ (WS_HS_REQ @ [58, 32] @ key) @ CRLF @ rest"

text \<open>The response to a key as RFC 6455 has it, and that of the code, which takes keys of every length.\<close>

definition ws_response :: "u8 list \<Rightarrow> u8 list" where
  "ws_response key = WS_HS_ACCEPT @ rfc4648 (sha1 (key @ MAGIC_STRING)) @ CRLF @ CRLF"

definition hs_response :: "u8 list \<Rightarrow> u8 list" where
  "hs_response key = WS_HS_ACCEPT @ rfc4648 (sha1 (hs_message key)) @ CRLF @ CRLF"

text \<open>The key of a request that holds the end of the headers, if the code finds one.\<close>

definition request_key :: "u8 list \<Rightarrow> u8 list option" where
  "request_key req = (if strstr req (CRLF @ CRLF) then Option.bind (find_key_line req) second_token else None)"

lemma response_text: "c_string (hs_response key @ [0]) = Some (hs_response key)"
  using rfc4648_no_nul[of "sha1 (hs_message key)"] bytes_ACCEPT(2)
  by (intro c_string_prefix) (auto simp: hs_response_def CRLF_def)

lemma request_ne: "ws_request ls key rest \<noteq> []"
  by (simp add: ws_request_def WS_HS_REQ_def bytes_def)

lemma request_of_key:
  "\<forall>l \<in> set ls. plain_line l \<and> \<not> strstr l WS_HS_REQ \<Longrightarrow> length key = 24 \<Longrightarrow> set key \<inter> {0, 10, 13, 32} = {} \<Longrightarrow>
   req = ws_request ls key rest \<Longrightarrow> strstr req (CRLF @ CRLF) \<Longrightarrow> request_key req = Some key \<and> hs_response key = ws_response key"
  using request_key_found(1)[of ls key rest] request_key_found(2)[of ls key]
  by (simp add: request_key_def ws_request_def hs_response_def ws_response_def)

lemma do_handshake_result:
  assumes "alloc_ok malloc" and "\<forall>n. malloc n \<noteq> None" and "length (Message_Block ctx) = 64" and "0 \<notin> set req"
  shows "do_handshake malloc ctx (req @ [0]) w = (case request_key req of
     None \<Rightarrow> Inr (w, -1)
   | Some key \<Rightarrow> Inr (w\<lparr>ws_sent := ws_sent w @ [hs_response key], ws_tx := snd (send (hs_response key) (ws_tx w))\<rparr>,
       if fst (send (hs_response key) (ws_tx w)) < 0 then -1 else 0))"
proof -
  have resp: "get_handshake_response malloc ctx req = (case Option.bind (find_key_line req) second_token of
     None \<Rightarrow> Inr (-1, None) | Some key \<Rightarrow> Inr (0, Some (hs_response key @ [0])))"
    using handshake_any[OF assms] by (cases "Option.bind (find_key_line req) second_token") (simp_all add: hs_response_def)
  show ?thesis
    using c_string_prefix[OF assms(4), of "[]"]
    by (simp add: do_handshake_def request_key_def resp response_text split: option.split prod.split)
qed

lemma first_read_result:
  assumes "alloc_ok malloc" and "\<forall>n. malloc n \<noteq> None" and "length (Message_Block ctx) = 64"
    and "req \<noteq> []" and "0 \<notin> set req" and "length req < 4096"
  shows "wc_read malloc ctx (WsConnect_new w i) [Rx_data req] = (case request_key req of
     None \<Rightarrow> Some (Inr (Inr \<lparr>wc_buff = filled req 0, wc_ws = w, wc_shook = False, wc_id = i\<rparr>, -1))
   | Some key \<Rightarrow>
       (let w' = w\<lparr>ws_sent := ws_sent w @ [hs_response key], ws_tx := snd (send (hs_response key) (ws_tx w))\<rparr> in
        if fst (send (hs_response key) (ws_tx w)) < 0
        then Some (Inr (Inr \<lparr>wc_buff = filled req 0, wc_ws = w', wc_shook = False, wc_id = i\<rparr>, -1))
        else Some (Inr (Inr \<lparr>wc_buff = filled req (length req), wc_ws = w', wc_shook = True, wc_id = i\<rparr>, int (length req)))))"
  using first_shake(1)[OF assms(4,6,5), of malloc ctx w i] do_handshake_result[OF assms(1-3,5), of w]
    first_shake(2)[OF assms(4,6,5), of malloc ctx w] filled_read(3)[OF assms(4,6)]
  by (simp add: wc_shake_def WsConnect_new_def Let_def split: option.split)

lemma handshake_run:
  assumes "alloc_ok malloc" and "\<forall>n. malloc n \<noteq> None" and "length (Message_Block ctx) = 64"
    and "\<forall>l \<in> set ls. plain_line l \<and> \<not> strstr l WS_HS_REQ"
    and "length key = 24" and "set key \<inter> {0, 10, 13, 32} = {}"
    and "req = ws_request ls key rest" and "0 \<notin> set req" and "length req < 4096" and "ws_tx w = []"
    and "strstr req (CRLF @ CRLF)"
  shows "wc_read malloc ctx (WsConnect_new w i) [Rx_data req] = Some (Inr (Inr
    \<lparr>wc_buff = filled req (length req), wc_ws = w\<lparr>ws_sent := ws_sent w @ [ws_response key], ws_tx := []\<rparr>,
     wc_shook = True, wc_id = i\<rparr>, int (length req)))"
proof -
  have ne: "req \<noteq> []" by (simp add: assms(7) request_ne)
  from first_read_result[OF assms(1-3) ne assms(8,9), of w i] request_of_key[OF assms(4-7,11)] assms(10)
  show ?thesis by simp
qed

text \<open>
  C13. A new connection to which its first bytes come in one piece, below 4096 bytes and without a NUL, whatever they
  are. When the piece holds the end of the headers and the code finds a key in it, the second word of the first line in
  which \<open>Sec-WebSocket-Key\<close> occurs in this spelling, the response is sent, and the connection then reads frames unless
  the send fails. In every other case, as when the request comes in two pieces or spells the name of the
  header differently, nothing is sent. Where there is no response or it could not be sent, \<open>read\<close> returns -1, the sign
  for the callback to delete the connection. For a request with a line \<open>Sec-WebSocket-Key: \<close> and a key of 24
  characters the response is that of RFC 6455 to this key.
\<close>

theorem ws_handshake_connection:
  assumes "alloc_ok malloc" and "\<forall>n. malloc n \<noteq> None" and "length (Message_Block ctx) = 64"
    and "req \<noteq> []" and "0 \<notin> set req" and "length req < 4096"
  shows "\<exists>c ret. wc_read malloc ctx (WsConnect_new w i) [Rx_data req] = Some (Inr (Inr c, ret)) \<and>
    (case request_key req of
       None \<Rightarrow> ret = -1 \<and> \<not> wc_shook c \<and> wc_ws c = w
     | Some key \<Rightarrow> ws_sent (wc_ws c) = ws_sent w @ [hs_response key] \<and> ws_d (wc_ws c) = ws_d w \<and>
         (if fst (send (hs_response key) (ws_tx w)) < 0 then ret = -1 \<and> \<not> wc_shook c
          else ret = int (length req) \<and> wc_shook c \<and> mb_holds req (length req) (wc_buff c))) \<and>
    (\<forall>ls key rest. (\<forall>l \<in> set ls. plain_line l \<and> \<not> strstr l WS_HS_REQ) \<and> length key = 24 \<and> set key \<inter> {0, 10, 13, 32} = {} \<and>
       req = ws_request ls key rest \<and> strstr req (CRLF @ CRLF) \<longrightarrow>
       request_key req = Some key \<and> hs_response key = ws_response key)"
proof -
  have "request_key req = Some key \<and> hs_response key = ws_response key"
    if "\<forall>l \<in> set ls. plain_line l \<and> \<not> strstr l WS_HS_REQ" "length key = 24" "set key \<inter> {0, 10, 13, 32} = {}"
      "req = ws_request ls key rest" "strstr req (CRLF @ CRLF)" for ls key rest
    by (rule request_of_key[OF that])
  moreover have "\<exists>c ret. wc_read malloc ctx (WsConnect_new w i) [Rx_data req] = Some (Inr (Inr c, ret)) \<and>
    (case request_key req of
       None \<Rightarrow> ret = -1 \<and> \<not> wc_shook c \<and> wc_ws c = w
     | Some key \<Rightarrow> ws_sent (wc_ws c) = ws_sent w @ [hs_response key] \<and> ws_d (wc_ws c) = ws_d w \<and>
         (if fst (send (hs_response key) (ws_tx w)) < 0 then ret = -1 \<and> \<not> wc_shook c
          else ret = int (length req) \<and> wc_shook c \<and> mb_holds req (length req) (wc_buff c)))"
    using first_read_result[OF assms, of w i] filled_holds[OF assms(6), of "length req"]
    by (cases "request_key req") (simp_all add: Let_def)
  ultimately show ?thesis by blast
qed

theorem ws_handshake_connection_witness:
  "\<exists>c. wc_read zero_alloc raw_context (WsConnect_new (WsStickyWrap_new 0 [] [] [] []) 1)
      [Rx_data (ws_request [bytes ''GET / HTTP/1.1''] (bytes ''dGhlIHNhbXBsZSBub25jZQ=='') CRLF)] = Some (Inr (Inr c, 63)) \<and>
    ws_sent (wc_ws c) = [ws_response (bytes ''dGhlIHNhbXBsZSBub25jZQ=='')]"
proof -
  let ?l = "bytes ''GET / HTTP/1.1''" and ?k = "bytes ''dGhlIHNhbXBsZSBub25jZQ==''"
  let ?r = "ws_request [?l] ?k CRLF"
  have "\<forall>n. zero_alloc n \<noteq> None" "length (Message_Block raw_context) = 64" "length ?k = 24"
    "set ?k \<inter> {0, 10, 13, 32} = {}" "plain_line ?l" "\<not> strstr ?l WS_HS_REQ"
    by (simp_all add: zero_alloc_def raw_context_def bytes_def plain_line_def WS_HS_REQ_def)
  moreover have "length ?r = 63" "0 \<notin> set ?r" "strstr ?r (CRLF @ CRLF)"
    by (simp_all add: ws_request_def bytes_def WS_HS_REQ_def CRLF_def)
  moreover have "?r \<noteq> []" by (rule request_ne)
  moreover have "fst (send (hs_response ?k) []) = int (length (hs_response ?k))" by simp
  ultimately show ?thesis
    using ws_handshake_connection[of zero_alloc raw_context ?r "WsStickyWrap_new 0 [] [] [] []" 1]
      request_of_key[of "[?l]" ?k ?r CRLF]
    by (auto simp: WsStickyWrap_new_def)
qed

end
