(* ===== verification/TcpSticky.thy ===== *)
theory TcpSticky
  imports BaseType FdBridge
begin

text \<open>
  ExtNet/tcp/TcpStickyWrap.cpp and TcpConnect.cpp: a TCP connection that assembles packets from
  its receive buffer. \<open>readData\<close> is a partial function, since its loop need not end.
\<close>

section \<open>State\<close>

record tcp_conn =
  tc_buff :: memory_buff
  tc_pack :: pack_deal
  tc_msgs :: "u8 list list"
  tc_id :: nat

definition TcpConnect_new :: "u8 list \<Rightarrow> nat \<Rightarrow> tcp_conn" where
  "TcpConnect_new mem connId = \<lparr>tc_buff = memoryBuff_new 2, tc_pack = PackDealWith_new mem, tc_msgs = [], tc_id = connId\<rparr>"

text \<open>The packet is made and dropped: the call that would hand it on is commented out.\<close>

definition tcp_MakeServerMsg :: "u8 list \<Rightarrow> nat \<Rightarrow> nat \<Rightarrow> tcp_conn \<Rightarrow> fault + tcp_conn" where
  "tcp_MakeServerMsg buff msgId len c = (case ServerPack (tc_id c) buff msgId len of
     None \<Rightarrow> Inl Undef
   | Some pack \<Rightarrow> Inr (c\<lparr>tc_msgs := tc_msgs c @ [pack]\<rparr>))"

section \<open>readData\<close>

text \<open>
  \<open>src\<close> is the memory at \<open>pReadBuff\<close>, empty for the null pointer, and \<open>len\<close> its length as offered.
  The head of the packet is completed first; the result has the bytes read for it.
\<close>

definition tcp_head :: "u8 list \<Rightarrow> nat \<Rightarrow> tcp_conn \<Rightarrow> fault + (tcp_conn \<times> nat)" where
  "tcp_head src len c =
     (let pk = tc_pack c in
      if pk_size pk < pk_headSize then
        (let need = pk_headSize - pk_size pk; k = (if len > need then need else len) in
         case copy_bytes (pk_data pk) (int (pk_size pk)) src 0 (int k) of
           Inl f \<Rightarrow> Inl f
         | Inr m \<Rightarrow> Inr (c\<lparr>tc_pack := pk\<lparr>pk_data := m, pk_size := pk_size pk + k\<rparr>\<rparr>, k))
      else Inr (c, 0))"

text \<open>The body is copied from the start of \<open>src\<close>, also when a head was read from there.\<close>

definition tcp_body :: "u8 list \<Rightarrow> nat \<Rightarrow> nat \<Rightarrow> nat \<Rightarrow> tcp_conn \<Rightarrow> fault + (tcp_conn \<times> nat)" where
  "tcp_body src len hl readlen c =
     (let pk = tc_pack c; rest = int len - int readlen in
      if int (pk_size pk) + rest \<le> int hl then
        (case copy_bytes (pk_data pk) (int (pk_size pk)) src 0 rest of
           Inl f \<Rightarrow> Inl f
         | Inr m \<Rightarrow> Inr (c\<lparr>tc_pack := pk\<lparr>pk_data := m, pk_size := (pk_size pk + nat rest) mod 65536\<rparr>\<rparr>, len))
      else
        (let k = int hl - int (pk_size pk) in
         case copy_bytes (pk_data pk) (int (pk_size pk)) src 0 k of
           Inl f \<Rightarrow> Inl f
         | Inr m \<Rightarrow> Inr (c\<lparr>tc_pack := pk\<lparr>pk_data := m, pk_size := hl\<rparr>\<rparr>, (readlen + nat k) mod 65536)))"

definition tcp_message :: "nat \<Rightarrow> nat \<Rightarrow> tcp_conn \<Rightarrow> fault + tcp_conn" where
  "tcp_message hl mid c =
     (if pk_headSize < pk_size (tc_pack c) \<and> hl = pk_size (tc_pack c) then
        (case tcp_MakeServerMsg (pk_data (tc_pack c)) mid hl c of
           Inl f \<Rightarrow> Inl f
         | Inr c' \<Rightarrow> Inr (c'\<lparr>tc_pack := (tc_pack c')\<lparr>pk_size := 0\<rparr>\<rparr>))
      else Inr c)"

text \<open>How a round of the loop ends: with -1, or with the bytes read and whether the loop is left.\<close>

datatype tcp_ctl = Tcp_error | Tcp_read nat bool

definition tcp_consume :: "nat \<Rightarrow> nat \<Rightarrow> tcp_conn \<Rightarrow> fault + (tcp_conn \<times> tcp_ctl)" where
  "tcp_consume len readlen c = (case AdjustReadSize readlen (tc_buff c) of
     Inl f \<Rightarrow> Inl f
   | Inr b \<Rightarrow>
       (case (head_len (tc_pack c), head_msgId (tc_pack c)) of
          (Some hl, Some mid) \<Rightarrow>
            (case tcp_message hl mid (c\<lparr>tc_buff := b\<rparr>) of
               Inl f \<Rightarrow> Inl f
             | Inr c' \<Rightarrow> Inr (c', Tcp_read readlen (len \<le> readlen)))
        | _ \<Rightarrow> Inl Undef))"

definition tcp_assemble :: "u8 list \<Rightarrow> nat \<Rightarrow> tcp_conn \<Rightarrow> fault + (tcp_conn \<times> tcp_ctl)" where
  "tcp_assemble src len c = (case tcp_head src len c of
     Inl f \<Rightarrow> Inl f
   | Inr (c1, readlen) \<Rightarrow>
       (case head_len (tc_pack c1) of
          None \<Rightarrow> Inl Undef
        | Some hl \<Rightarrow>
            if pk_headSize \<le> pk_size (tc_pack c1) \<and> pk_cap (tc_pack c1) < hl then Inr (c1, Tcp_error)
            else
              (case tcp_body src len hl readlen c1 of
                 Inl f \<Rightarrow> Inl f
               | Inr (c2, readlen') \<Rightarrow> tcp_consume len readlen' c2)))"

definition tcp_round :: "tcp_conn \<Rightarrow> fault + (tcp_conn \<times> tcp_ctl)" where
  "tcp_round c = (case GetReadBuff (tc_buff c) of
     Inl f \<Rightarrow> Inl f
   | Inr None \<Rightarrow> tcp_assemble [] 0 c
   | Inr (Some (p, len)) \<Rightarrow>
       (case mb_load p len (tc_buff c) of Inl f \<Rightarrow> Inl f | Inr src \<Rightarrow> tcp_assemble src len c))"

partial_function (option) tcp_readData :: "int \<Rightarrow> tcp_conn \<Rightarrow> (fault + (tcp_conn \<times> int)) option" where
  "tcp_readData realLen c = (case tcp_round c of
     Inl f \<Rightarrow> Some (Inl f)
   | Inr (c', Tcp_error) \<Rightarrow> Some (Inr (c', -1))
   | Inr (c', Tcp_read n last_round) \<Rightarrow>
       if last_round then Some (Inr (c', realLen + int n)) else tcp_readData (realLen + int n) c')"

text \<open>\<open>read\<close> of the connection: \<open>notifyred\<close> is \<open>readData\<close>.\<close>

definition tcp_read :: "tcp_conn \<Rightarrow> rx list \<Rightarrow> (fault + (memory_buff + tcp_conn) \<times> int) option" where
  "tcp_read c = fd_read (\<lambda>b. tcp_readData 0 (c\<lparr>tc_buff := b\<rparr>)) (tc_buff c)"

section \<open>Properties\<close>

lemma copy_bytes_undef: "copy_bytes d i s j k = Inl f \<Longrightarrow> f = Undef"
  by (auto simp: copy_bytes_def split: if_splits option.splits)

lemma GetReadBuff_undef: "GetReadBuff s = Inl f \<Longrightarrow> f = Undef"
  by (auto simp: GetReadBuff_def split: if_splits option.splits)

lemma mb_load_undef: "mb_load p n s = Inl f \<Longrightarrow> f = Undef"
  by (auto simp: mb_load_def split: option.splits)

lemma tcp_head_keeps: "tcp_head src len c = Inr (c', k) \<Longrightarrow> pk_head (tc_pack c') = pk_head (tc_pack c)"
  by (auto simp: tcp_head_def Let_def split: if_splits sum.splits)

lemma tcp_assemble_no_head:
  assumes "pk_head (tc_pack c) = None"
  shows "tcp_assemble src len c = Inl Undef"
proof (cases "tcp_head src len c")
  case (Inl f)
  then have "f = Undef" by (auto simp: tcp_head_def Let_def dest: copy_bytes_undef split: if_splits sum.splits)
  with Inl show ?thesis by (simp add: tcp_assemble_def)
next
  case (Inr r)
  with assms tcp_head_keeps[of src len c "fst r" "snd r"] show ?thesis
    by (cases r) (simp add: tcp_assemble_def head_len_def head_field_def)
qed

lemma tcp_round_no_head:
  assumes "pk_head (tc_pack c) = None"
  shows "tcp_round c = Inl Undef"
  using tcp_assemble_no_head[OF assms]
  by (auto simp: tcp_round_def dest: GetReadBuff_undef mb_load_undef split: sum.split option.split)

text \<open>
  C35. No TCP connection ever takes in a packet: \<open>_head\<close> is not set by the constructor, so the first
  time that \<open>read\<close> gets as far as \<open>readData\<close>, with or without data, the behaviour is undefined.
\<close>

theorem tcp_read_undefined:
  assumes "fd_read_loop (memoryBuff_new 2) evs = Inr (s, evs', got, Fd_notify)"
  shows "tcp_read (TcpConnect_new mem connId) evs = Some (Inl Undef)"
  using assms tcp_round_no_head[of "(TcpConnect_new mem connId)\<lparr>tc_buff := s\<rparr>"]
  by (simp add: tcp_read_def fd_read_def TcpConnect_new_def PackDealWith_new_def tcp_readData.simps)

theorem tcp_read_undefined_witness:
  "tcp_read (TcpConnect_new (replicate 4096 0) 1) [Rx_data [6, 0, 1, 0, 7, 8]] = Some (Inl Undef)"
proof -
  have "\<exists>s. fd_read_loop (memoryBuff_new 2) [Rx_data [6, 0, 1, 0, 7, 8]] = Inr (s, [], [6, 0, 1, 0, 7, 8], Fd_notify)"
    by (subst fd_read_loop.simps)
       (simp add: GetWriteBuff_def mb_store_def AdjustWriteSize_def mem_write_def ListNode_new_def set_node_def Let_def
         memoryBuff_new_def numeral_2_eq_2)
  then show ?thesis using tcp_read_undefined by blast
qed

end
