(* ===== verification/Service.thy ===== *)
theory Service
  imports WsConnect TcpSticky Listener
begin

text \<open>
  ExtNet/Net/TcpService.cpp and WsService.cpp with the connection managers TcpConnectMgr.cpp and
  WsConnectMgr.cpp: the two services have the same code over two classes of connections, so that the
  operations take what they use of the class as arguments; \<open>tcp_*\<close> and \<open>ws_*\<close> are the two services.
  Connection objects live in a store, so that a deleted object that is used again shows. (The callback
  of the WebSocket service erases the entry of a failed connection twice, which is the same as once.)
\<close>

section \<open>State\<close>

text \<open>
  \<open>sv_map\<close> is \<open>_connectMgr\<close> with the addresses of the objects in any order, \<open>sv_next\<close> is
  \<open>_UniqueId\<close>, \<open>sv_fresh\<close> the next address.
\<close>

record 'c service =
  sv_map :: "(nat \<times> nat) list"
  sv_objs :: "nat \<Rightarrow> 'c option"
  sv_next :: nat
  sv_fresh :: nat

text \<open>The WebSocket service also has the list of packets; the TCP service's is never used.\<close>

record ws_service = "ws_conn service" +
  sv_packs :: "u8 list list"

definition service_new :: "nat \<Rightarrow> 'c service" where
  "service_new uid = \<lparr>sv_map = [], sv_objs = (\<lambda>_. None), sv_next = uid, sv_fresh = 0\<rparr>"

section \<open>The connection manager\<close>

definition Make_uniqueId :: "('c, 'z) service_scheme \<Rightarrow> ('c, 'z) service_scheme \<times> nat" where
  "Make_uniqueId s = (s\<lparr>sv_next := (sv_next s + 1) mod 2 ^ 32\<rparr>, sv_next s)"

text \<open>\<open>insert\<close> leaves an entry that is already there.\<close>

definition map_insert :: "nat \<Rightarrow> nat \<Rightarrow> (nat \<times> nat) list \<Rightarrow> (nat \<times> nat) list" where
  "map_insert i a m = (if i \<in> fst ` set m then m else (i, a) # m)"

definition NewConnect :: "('c \<Rightarrow> nat) \<Rightarrow> (nat \<Rightarrow> 'c) \<Rightarrow> ('c, 'z) service_scheme \<Rightarrow> ('c, 'z) service_scheme" where
  "NewConnect getId new s = (case Make_uniqueId s of
     (s1, i) \<Rightarrow>
       (let a = sv_fresh s1; c = new i in
        s1\<lparr>sv_objs := (sv_objs s1)(a := Some c), sv_fresh := Suc a, sv_map := map_insert (getId c) a (sv_map s1)\<rparr>))"

definition deleteConnect :: "nat \<Rightarrow> ('c, 'z) service_scheme \<Rightarrow> ('c, 'z) service_scheme" where
  "deleteConnect i s = s\<lparr>sv_map := filter (\<lambda>e. fst e \<noteq> i) (sv_map s)\<rparr>"

fun delete_all :: "(nat \<times> nat) list \<Rightarrow> (nat \<Rightarrow> 'c option) \<Rightarrow> fault + (nat \<Rightarrow> 'c option)" where
  "delete_all [] objs = Inr objs"
| "delete_all ((i, a) # m) objs = (case objs a of None \<Rightarrow> Inl Undef | Some _ \<Rightarrow> delete_all m (objs(a := None)))"

definition mgr_OnStop :: "('c, 'z) service_scheme \<Rightarrow> fault + ('c, 'z) service_scheme" where
  "mgr_OnStop s = (case delete_all (sv_map s) (sv_objs s) of
     Inl f \<Rightarrow> Inl f
   | Inr objs \<Rightarrow> Inr (s\<lparr>sv_objs := objs, sv_map := []\<rparr>))"

section \<open>The callbacks of the event loop\<close>

text \<open>\<open>nb\<close> is the result of \<open>evutil_make_socket_nonblocking\<close> on what \<open>accept\<close> returned.\<close>

definition doAccept :: "('c \<Rightarrow> nat) \<Rightarrow> (nat \<Rightarrow> 'c) \<Rightarrow> int \<Rightarrow> ('c, 'z) service_scheme \<Rightarrow> ('c, 'z) service_scheme" where
  "doAccept getId new nb s = (if nb < 0 then s else NewConnect getId new s)"

text \<open>The test of the listening callback is \<open>what | EV_READ\<close>.\<close>

definition EV_READ :: nat where "EV_READ = 2"

definition listen_cb :: "('c \<Rightarrow> nat) \<Rightarrow> (nat \<Rightarrow> 'c) \<Rightarrow> nat \<Rightarrow> int \<Rightarrow> ('c, 'z) service_scheme \<Rightarrow> ('c, 'z) service_scheme" where
  "listen_cb getId new what nb s = (if or what EV_READ \<noteq> 0 then doAccept getId new nb s else s)"

definition client_read_cb ::
  "('c \<Rightarrow> nat) \<Rightarrow> ('c \<Rightarrow> rx list \<Rightarrow> (fault + ('c \<times> int)) option) \<Rightarrow> nat \<Rightarrow> nat \<Rightarrow> rx list \<Rightarrow> ('c, 'z) service_scheme \<Rightarrow>
   (fault + ('c, 'z) service_scheme) option" where
  "client_read_cb getId rd a what evs s =
     (if and what EV_READ = 0 then Some (Inr s)
      else
        (case sv_objs s a of
           None \<Rightarrow> Some (Inl Undef)
         | Some c \<Rightarrow>
             (case rd c evs of
                None \<Rightarrow> None
              | Some (Inl f) \<Rightarrow> Some (Inl f)
              | Some (Inr (c', ret)) \<Rightarrow>
                  if ret < 0
                  then Some (Inr ((deleteConnect (getId c') s)\<lparr>sv_objs := (sv_objs s)(a := None)\<rparr>))
                  else Some (Inr (s\<lparr>sv_objs := (sv_objs s)(a := Some c')\<rparr>)))))"

text \<open>What the event loop does: a new connection, or a callback of a connection whose event is registered.\<close>

inductive service_step ::
  "('c \<Rightarrow> nat) \<Rightarrow> (nat \<Rightarrow> 'c) set \<Rightarrow> ('c \<Rightarrow> rx list \<Rightarrow> (fault + ('c \<times> int)) option) \<Rightarrow> ('c, 'z) service_scheme \<Rightarrow> ('c, 'z) service_scheme \<Rightarrow> bool"
  for getId news rd where
  st_listen: "new \<in> news \<Longrightarrow> service_step getId news rd s (listen_cb getId new what nb s)"
| st_read: "sv_objs s a = Some c \<Longrightarrow> client_read_cb getId rd a what evs s = Some (Inr s') \<Longrightarrow>
    service_step getId news rd s s'"

inductive_cases service_stepE: "service_step getId news rd s s'"

section \<open>The two services\<close>

text \<open>\<open>read\<close> as the callback sees it: on a failure of \<open>recv\<close> only the buffer has changed.\<close>

definition conn_result :: "(memory_buff \<Rightarrow> 'c) \<Rightarrow> (fault + (memory_buff + 'c) \<times> int) option \<Rightarrow> (fault + ('c \<times> int)) option" where
  "conn_result upd = map_option (map_sum id (map_prod (case_sum upd id) id))"

definition tcp_conn_read :: "tcp_conn \<Rightarrow> rx list \<Rightarrow> (fault + (tcp_conn \<times> int)) option" where
  "tcp_conn_read c evs = conn_result (\<lambda>b. c\<lparr>tc_buff := b\<rparr>) (tcp_read c evs)"

definition ws_conn_read :: "allocator \<Rightarrow> sha1_context \<Rightarrow> ws_conn \<Rightarrow> rx list \<Rightarrow> (fault + (ws_conn \<times> int)) option" where
  "ws_conn_read malloc ctx c evs = conn_result (\<lambda>b. c\<lparr>wc_buff := b\<rparr>) (wc_read malloc ctx c evs)"

text \<open>
  The constructor of a connection, with what its memory holds before; \<open>_UniqueId\<close> starts at 0 for
  WebSocket and is not initialised for TCP.
\<close>

definition tcp_service_step :: "(tcp_conn, 'z) service_scheme \<Rightarrow> (tcp_conn, 'z) service_scheme \<Rightarrow> bool" where
  "tcp_service_step = service_step tc_id (range TcpConnect_new) tcp_conn_read"

definition WsService_new :: ws_service where
  "WsService_new = \<lparr>sv_map = [], sv_objs = (\<lambda>_. None), sv_next = 0, sv_fresh = 0, sv_packs = []\<rparr>"

definition AddPack :: "u8 list \<Rightarrow> ws_service \<Rightarrow> ws_service" where
  "AddPack msg s = s\<lparr>sv_packs := sv_packs s @ [msg]\<rparr>"

text \<open>The manager of the connections passes a packet on to its service.\<close>

definition PushMsg :: "u8 list \<Rightarrow> ws_service \<Rightarrow> ws_service" where
  "PushMsg pack s = AddPack pack s"

definition Swap :: "u8 list list \<Rightarrow> ws_service \<Rightarrow> ws_service \<times> u8 list list" where
  "Swap list s = (s\<lparr>sv_packs := list\<rparr>, sv_packs s)"

text \<open>What happens to the WebSocket service while it runs: the callbacks, and the two list operations.\<close>

inductive ws_service_step :: "allocator \<Rightarrow> sha1_context \<Rightarrow> ws_service \<Rightarrow> ws_service \<Rightarrow> bool" for malloc ctx where
  ws_net: "service_step wc_id (range WsConnect_new) (ws_conn_read malloc ctx) s t \<Longrightarrow> ws_service_step malloc ctx s t"
| ws_add: "ws_service_step malloc ctx s (PushMsg msg s)"
| ws_swap: "ws_service_step malloc ctx s (fst (Swap list s))"

section \<open>The registry of connections\<close>

text \<open>
  What every class of connections promises to its service: a new connection has the id it is
  given, and reading does not change it.
\<close>

locale connection_class =
  fixes getId :: "'c \<Rightarrow> nat" and news :: "(nat \<Rightarrow> 'c) set"
    and rd :: "'c \<Rightarrow> rx list \<Rightarrow> (fault + ('c \<times> int)) option"
  assumes new_id: "new \<in> news \<Longrightarrow> getId (new i) = i"
    and read_id: "rd c evs = Some (Inr (c', n)) \<Longrightarrow> getId c' = getId c"

text \<open>
  The entries of the map are exactly the live objects under their ids, which are numbered from \<open>uid\<close>
  in the order of acceptance.
\<close>

definition entries_ok :: "('c \<Rightarrow> nat) \<Rightarrow> (nat \<times> nat) list \<Rightarrow> (nat \<Rightarrow> 'c option) \<Rightarrow> bool" where
  "entries_ok getId m objs \<longleftrightarrow> distinct (map fst m) \<and> distinct (map snd m) \<and>
     (\<forall>i a. (i, a) \<in> set m \<longleftrightarrow> map_option getId (objs a) = Some i)"

definition numbered :: "('c \<Rightarrow> nat) \<Rightarrow> nat \<Rightarrow> ('c, 'z) service_scheme \<Rightarrow> bool" where
  "numbered getId uid s \<longleftrightarrow> sv_next s = (uid + sv_fresh s) mod 2 ^ 32 \<and>
     (\<forall>a c. sv_objs s a = Some c \<longrightarrow> a < sv_fresh s \<and> getId c = (uid + a) mod 2 ^ 32)"

definition registry :: "('c \<Rightarrow> nat) \<Rightarrow> nat \<Rightarrow> ('c, 'z) service_scheme \<Rightarrow> bool" where
  "registry getId uid s \<longleftrightarrow> numbered getId uid s \<and>
     (sv_fresh s \<le> 2 ^ 32 \<longrightarrow> entries_ok getId (sv_map s) (sv_objs s))"

lemma number_inj:
  fixes u a b :: nat
  assumes "(u + a) mod 2 ^ 32 = (u + b) mod 2 ^ 32" and "a < 2 ^ 32" and "b < 2 ^ 32"
  shows "a = b"
proof -
  have "a mod 2 ^ 32 = b mod 2 ^ 32" using assms(1) by (simp add: mod_add_left_eq nat_mod_eq_iff)
  then show ?thesis using assms(2,3) by simp
qed

lemma entries_insert:
  assumes "entries_ok getId m objs" and "objs a = None" and "getId c \<notin> fst ` set m"
  shows "entries_ok getId ((getId c, a) # m) (objs(a := Some c))"
  using assms by (auto simp: entries_ok_def)

lemma entries_delete:
  assumes "entries_ok getId m objs" and "objs a = Some c"
  shows "entries_ok getId (filter (\<lambda>e. fst e \<noteq> getId c) m) (objs(a := None))"
proof -
  have m: "(getId c, a) \<in> set m" using assms by (auto simp: entries_ok_def)
  have "i = getId c \<longleftrightarrow> b = a" if "(i, b) \<in> set m" for i b
    using eq_key_imp_eq_value[of m "getId c" a b] that m assms by (auto simp: entries_ok_def)
  with assms(1) show ?thesis by (auto simp: entries_ok_def distinct_map_filter)
qed

lemma entries_update:
  "entries_ok getId m objs \<Longrightarrow> objs a = Some c \<Longrightarrow> getId c' = getId c \<Longrightarrow> entries_ok getId m (objs(a := Some c'))"
  by (auto simp: entries_ok_def)

lemma delete_all_entries:
  "distinct (map snd m) \<Longrightarrow> snd ` set m = dom objs \<Longrightarrow> delete_all m objs = Inr (\<lambda>_. None)"
proof (induction m arbitrary: objs)
  case (Cons e m)
  obtain i a where e: "e = (i, a)" by fastforce
  then obtain c where c: "objs a = Some c" using Cons.prems(2) by auto
  have "snd ` set m = dom (objs(a := None))" using Cons.prems e by auto
  with Cons e c show ?case by simp
qed auto

context connection_class
begin

lemma NewConnect_registry:
  assumes "registry getId uid s" and "new \<in> news"
  shows "registry getId uid (NewConnect getId new s)"
proof -
  let ?i = "sv_next s" and ?a = "sv_fresh s"
  have num: "numbered getId uid s" using assms(1) by (simp add: registry_def)
  then have none: "sv_objs s ?a = None" by (cases "sv_objs s ?a") (auto simp: numbered_def)
  have id: "getId (new ?i) = ?i" using new_id[OF assms(2)] .
  have new: "NewConnect getId new s = s\<lparr>sv_next := (?i + 1) mod 2 ^ 32, sv_objs := (sv_objs s)(?a := Some (new ?i)),
      sv_fresh := Suc ?a, sv_map := map_insert ?i ?a (sv_map s)\<rparr>"
    by (simp add: NewConnect_def Make_uniqueId_def Let_def id)
  have "numbered getId uid (NewConnect getId new s)"
    using num id unfolding new numbered_def by (auto simp: mod_Suc_eq less_Suc_eq)
  moreover have "entries_ok getId (map_insert ?i ?a (sv_map s)) ((sv_objs s)(?a := Some (new ?i)))"
    if "Suc ?a \<le> 2 ^ 32"
  proof -
    have ok: "entries_ok getId (sv_map s) (sv_objs s)" using assms(1) that by (simp add: registry_def)
    have "?i \<notin> fst ` set (sv_map s)"
    proof
      assume "?i \<in> fst ` set (sv_map s)"
      then obtain b c where "sv_objs s b = Some c" "getId c = ?i" using ok by (auto simp: entries_ok_def)
      then have "b < ?a" "(uid + b) mod 2 ^ 32 = (uid + ?a) mod 2 ^ 32" using num by (auto simp: numbered_def)
      with number_inj[of uid b ?a] that show False by simp
    qed
    with entries_insert[OF ok none, of "new ?i"] id show ?thesis by (simp add: map_insert_def)
  qed
  ultimately show ?thesis unfolding registry_def new by simp
qed

lemma client_read_registry:
  assumes "registry getId uid s" and "client_read_cb getId rd a what evs s = Some (Inr s')"
  shows "registry getId uid s'"
proof (cases "s' = s")
  case False
  then obtain c c' ret where c: "sv_objs s a = Some c" "rd c evs = Some (Inr (c', ret))"
    "s' = (if ret < 0 then (deleteConnect (getId c') s)\<lparr>sv_objs := (sv_objs s)(a := None)\<rparr>
           else s\<lparr>sv_objs := (sv_objs s)(a := Some c')\<rparr>)"
    using assms(2) by (auto simp: client_read_cb_def split: if_splits option.splits sum.splits)
  have id: "getId c' = getId c" using read_id[OF c(2)] .
  show ?thesis
    using assms(1) c(1) id entries_delete[of getId "sv_map s" "sv_objs s" a c] entries_update[of getId "sv_map s" "sv_objs s" a c c']
    by (auto simp: c(3) registry_def numbered_def deleteConnect_def split: if_splits)
qed (use assms in simp)

lemma registry_step: "registry getId uid s \<Longrightarrow> service_step getId news rd s s' \<Longrightarrow> registry getId uid s'"
  by (erule service_stepE)
     (auto simp: listen_cb_def doAccept_def intro: NewConnect_registry client_read_registry)

lemma stop_deletes:
  assumes "registry getId uid s" and "sv_fresh s \<le> 2 ^ 32"
  shows "mgr_OnStop s = Inr (s\<lparr>sv_objs := (\<lambda>_. None), sv_map := []\<rparr>)"
proof -
  have ok: "entries_ok getId (sv_map s) (sv_objs s)" using assms by (simp add: registry_def)
  then have e: "(i, a) \<in> set (sv_map s) \<longleftrightarrow> map_option getId (sv_objs s a) = Some i" for i a
    by (simp add: entries_ok_def)
  have "a \<in> snd ` set (sv_map s) \<longleftrightarrow> a \<in> dom (sv_objs s)" for a
    using e[of _ a] by (cases "sv_objs s a") force+
  then have "snd ` set (sv_map s) = dom (sv_objs s)" by blast
  then have "delete_all (sv_map s) (sv_objs s) = Inr (\<lambda>_. None)"
    using ok by (intro delete_all_entries) (simp_all add: entries_ok_def)
  then show ?thesis by (simp add: mgr_OnStop_def)
qed

end

sublocale connection_class \<subseteq> step_invariant "service_step getId news rd" "registry getId uid"
  by unfold_locales (rule registry_step)

section \<open>The two classes of connections\<close>

lemma tcp_head_id: "tcp_head src len c = Inr (c', r) \<Longrightarrow> tc_id c' = tc_id c"
  by (auto simp: tcp_head_def Let_def split: sum.splits if_splits)

lemma tcp_body_id: "tcp_body src len hl k c = Inr (c', r) \<Longrightarrow> tc_id c' = tc_id c"
  by (auto simp: tcp_body_def Let_def split: sum.splits if_splits)

lemma tcp_message_id: "tcp_message hl mid c = Inr c' \<Longrightarrow> tc_id c' = tc_id c"
  by (auto simp: tcp_message_def tcp_MakeServerMsg_def split: sum.splits option.splits if_splits)

lemma tcp_consume_id: "tcp_consume len k c = Inr (c', r) \<Longrightarrow> tc_id c' = tc_id c"
  by (auto simp: tcp_consume_def dest: tcp_message_id split: sum.splits option.splits)

lemma tcp_assemble_id: "tcp_assemble src len c = Inr (c', r) \<Longrightarrow> tc_id c' = tc_id c"
  by (auto simp: tcp_assemble_def dest!: tcp_head_id tcp_body_id tcp_consume_id
      split: sum.splits option.splits prod.splits if_splits)

lemma tcp_round_id: "tcp_round c = Inr (c', r) \<Longrightarrow> tc_id c' = tc_id c"
  by (auto simp: tcp_round_def intro: tcp_assemble_id split: sum.splits option.splits)

lemma tcp_readData_id:
  assumes "tcp_readData r c = Some y"
  shows "\<forall>c' n. y = Inr (c', n) \<longrightarrow> tc_id c' = tc_id c"
proof (rule tcp_readData.raw_induct[where P = "\<lambda>r c y. \<forall>c' n. y = Inr (c', n) \<longrightarrow> tc_id c' = tc_id c", OF _ assms])
  fix f r c y
  assume IH: "\<And>r c y. f r c = Some y \<Longrightarrow> \<forall>c' n. y = Inr (c', n) \<longrightarrow> tc_id c' = tc_id c"
    and step: "(case tcp_round c of Inl f \<Rightarrow> Some (Inl f) | Inr (c', Tcp_error) \<Rightarrow> Some (Inr (c', -1))
      | Inr (c', Tcp_read n last_round) \<Rightarrow> if last_round then Some (Inr (c', r + int n)) else f (r + int n) c') = Some y"
  show "\<forall>c' n. y = Inr (c', n) \<longrightarrow> tc_id c' = tc_id c"
    using step by (auto dest!: tcp_round_id IH split: sum.splits prod.splits tcp_ctl.splits if_splits)
qed

lemma fd_read_result:
  "fd_read notifyred s evs = Some (Inr (Inr r, n)) \<Longrightarrow> \<exists>b. notifyred b = Some (Inr (r, n))"
  by (auto simp: fd_read_def split: sum.splits prod.splits fd_end.splits option.splits)

lemma map_sum_Inr: "map_sum id g x = Inr y \<longleftrightarrow> (\<exists>z. x = Inr z \<and> y = g z)"
  by (cases x) auto

text \<open>What the parser and a failed read keep, reading keeps.\<close>

lemma conn_result_keeps:
  assumes "conn_result upd (fd_read notifyred s evs) = Some (Inr (c', n))"
    and "\<And>b. f (upd b) = i" and "\<And>b d n. notifyred b = Some (Inr (d, n)) \<Longrightarrow> f d = i"
  shows "f c' = i"
proof -
  from assms(1) obtain r where r: "fd_read notifyred s evs = Some (Inr (r, n))" "c' = case_sum upd id r"
    by (auto simp: conn_result_def map_sum_Inr)
  show ?thesis
  proof (cases r)
    case (Inr d)
    with fd_read_result[OF r(1)[unfolded Inr]] assms(3) r(2) show ?thesis by auto
  qed (use r(2) assms(2) in simp)
qed

lemma tcp_conn_read_id: "tcp_conn_read c evs = Some (Inr (c', n)) \<Longrightarrow> tc_id c' = tc_id c"
  unfolding tcp_conn_read_def tcp_read_def
  by (erule conn_result_keeps[where f = tc_id]) (auto dest: tcp_readData_id)

lemma wc_shake_id: "wc_shake malloc ctx p len c = Inr (c', r) \<Longrightarrow> wc_id c' = wc_id c"
  by (auto simp: wc_shake_def split: sum.splits prod.splits if_splits)

lemma wc_frames_id: "wc_frames malloc p len c = Some (Inr (c', r)) \<Longrightarrow> wc_id c' = wc_id c"
  by (auto simp: wc_frames_def split: sum.splits option.splits prod.splits if_splits)

lemma wc_readData_id:
  assumes "wc_readData malloc ctx r c = Some y"
  shows "\<forall>c' n. y = Inr (c', n) \<longrightarrow> wc_id c' = wc_id c"
  by (rule wc_readData.raw_induct[where P = "\<lambda>malloc ctx r c y. \<forall>c' n. y = Inr (c', n) \<longrightarrow> wc_id c' = wc_id c", OF _ assms])
     (auto dest!: wc_shake_id wc_frames_id split: sum.splits option.splits prod.splits if_splits)

lemma ws_conn_read_id: "ws_conn_read malloc ctx c evs = Some (Inr (c', n)) \<Longrightarrow> wc_id c' = wc_id c"
  unfolding ws_conn_read_def wc_read_def
  by (erule conn_result_keeps[where f = wc_id]) (auto dest: wc_readData_id)

interpretation tcp: connection_class tc_id "range TcpConnect_new" tcp_conn_read
  by unfold_locales (auto simp: TcpConnect_new_def intro: tcp_conn_read_id)

interpretation ws: connection_class wc_id "range WsConnect_new" "ws_conn_read malloc ctx" for malloc ctx
  by unfold_locales (auto simp: WsConnect_new_def intro: ws_conn_read_id)

section \<open>Properties\<close>

lemma registry_start: "registry getId uid s" if "sv_objs s = (\<lambda>_. None)" "sv_map s = []" "sv_fresh s = 0" "sv_next s = uid" "uid < 2 ^ 32"
  using that by (simp add: registry_def numbered_def entries_ok_def)

lemma registry_packs [simp]: "registry getId uid (s\<lparr>sv_packs := ps\<rparr>) = registry getId uid s"
  by (simp add: registry_def numbered_def)

interpretation ws_sv: step_invariant "ws_service_step malloc ctx" "registry wc_id uid" for malloc ctx uid
proof
  show "registry wc_id uid t" if "registry wc_id uid s" "ws_service_step malloc ctx s t" for s t
    using that(2,1)
    by cases (auto simp: PushMsg_def AddPack_def Swap_def intro: ws.registry_step)
qed

lemma tcp_stops:
  assumes "tcp_service_step\<^sup>*\<^sup>* (service_new uid) s" and "uid < 2 ^ 32" and "sv_fresh s \<le> 2 ^ 32"
  shows "mgr_OnStop s = Inr (s\<lparr>sv_objs := (\<lambda>_. None), sv_map := []\<rparr>)"
proof -
  have "registry tc_id uid (service_new uid :: tcp_conn service)"
    using assms(2) by (intro registry_start) (simp_all add: service_new_def)
  from tcp.inv_run[OF assms(1)[unfolded tcp_service_step_def] this] show ?thesis by (rule tcp.stop_deletes[OF _ assms(3)])
qed

lemma ws_registered:
  assumes "(ws_service_step malloc ctx)\<^sup>*\<^sup>* WsService_new s"
  shows "registry wc_id 0 s"
proof -
  have "registry wc_id 0 WsService_new" by (rule registry_start) (simp_all add: WsService_new_def)
  from ws_sv.inv_run[OF assms this] show ?thesis .
qed

text \<open>
  C19. Whatever connections come, go and are read while the service runs, for up to \<open>2^32\<close> of them: the map of the
  WebSocket service has exactly the live connections, each under its id, which is its number in the order of
  acceptance. \<open>OnStop\<close> of the manager, executed on such a state without a callback beside it, deletes each of them
  once and leaves the map empty. (Beside the event loop, which \<open>OnStop\<close> of the service does not stop before, it need
  not: Lifetime.)
\<close>

theorem ws_service_registry:
  assumes "(ws_service_step malloc ctx)\<^sup>*\<^sup>* WsService_new s" and "sv_fresh s \<le> 2 ^ 32"
  shows "entries_ok wc_id (sv_map s) (sv_objs s) \<and> (\<forall>a. sv_objs s a \<noteq> None \<longleftrightarrow> (a, a) \<in> set (sv_map s)) \<and>
    mgr_OnStop s = Inr (s\<lparr>sv_objs := (\<lambda>_. None), sv_map := []\<rparr>)"
proof -
  note r = ws_registered[OF assms(1)]
  have ok: "entries_ok wc_id (sv_map s) (sv_objs s)" using r assms(2) by (simp add: registry_def)
  have id: "wc_id c = a" if "sv_objs s a = Some c" for a c
  proof -
    have "a < sv_fresh s" "wc_id c = a mod 2 ^ 32" using r that by (auto simp: registry_def numbered_def)
    with assms(2) show ?thesis by simp
  qed
  have "sv_objs s a \<noteq> None \<longleftrightarrow> (a, a) \<in> set (sv_map s)" for a
    using ok id[of a] by (cases "sv_objs s a") (auto simp: entries_ok_def)
  with ok ws.stop_deletes[OF r assms(2)] show ?thesis by blast
qed

theorem ws_service_registry_witness:
  "\<exists>s. (ws_service_step zero_alloc raw_context)\<^sup>*\<^sup>* WsService_new s \<and> map fst (sv_map s) = [1, 0] \<and>
    mgr_OnStop s = Inr (s\<lparr>sv_objs := (\<lambda>_. None), sv_map := []\<rparr>)"
proof -
  let ?new = "WsConnect_new (WsStickyWrap_new 0 [] [] [] [])"
  define s1 where "s1 = listen_cb wc_id ?new 2 0 WsService_new"
  define s2 where "s2 = listen_cb wc_id ?new 2 0 s1"
  have step: "ws_service_step zero_alloc raw_context s (listen_cb wc_id ?new 2 0 s)" for s
    by (rule ws_net) (rule st_listen, simp)
  have run: "(ws_service_step zero_alloc raw_context)\<^sup>*\<^sup>* WsService_new s2"
    using step[of WsService_new] step[of s1] unfolding s1_def s2_def by (meson converse_rtranclp_into_rtranclp rtranclp.rtrancl_refl)
  have s2: "map fst (sv_map s2) = [1, 0]" "sv_fresh s2 = 2"
    by (simp_all add: s1_def s2_def listen_cb_def EV_READ_def doAccept_def NewConnect_def Make_uniqueId_def map_insert_def
        WsConnect_new_def WsService_new_def Let_def)
  from ws_service_registry[OF run] run s2 show ?thesis by auto
qed

end
