(* ===== verification/Lifetime.thy ===== *)
theory Lifetime
  imports Service
begin

text \<open>
  The connections of a service with what they hold of the system, their descriptor and their event, and the
  thread that calls \<open>OnStop\<close> beside the thread of the event loop: ExtNet/Net/TcpService.cpp and
  WsService.cpp with the destructors of ExtNet/common/FdBridge.cpp, tcp/TcpConnect.cpp and ws/WsConnect.cpp.
  The code of the two services is the same over two classes of connections, as in Service. Of the kernel
  the steps use that \<open>accept\<close> returns -1 or a descriptor that is not open, and that -1 cannot be made
  non-blocking; of libevent, that \<open>event_free\<close> in another thread waits while the callback of the event runs.
  The threads interleave step by step, the assignments of a destructor being one step: that they, and the accesses to
  the map, are not synchronised is undefined in itself by the C++ standard and is not what is shown here, but what
  comes of it when every step is executed as a whole.
\<close>

section \<open>State\<close>

text \<open>The members \<open>_fd\<close> and \<open>_ev\<close>, and whether the pointer to the manager is set; an event is its descriptor and argument.\<close>

record conn_members =
  cm_fd :: int
  cm_ev :: "(int \<times> nat) option"
  cm_mgr :: bool

text \<open>
  The event loop: waiting, in \<open>read\<close> of a callback, in a \<open>read\<close> that does not return, or where the callback has
  seen a failure.
\<close>

datatype callback_pc = Loop_poll | Loop_read nat | Loop_stuck nat | Loop_failed nat | Loop_delete nat | Loop_ended

text \<open>
  \<open>OnStop\<close>: not called, in the loop over the map with the entries still to come, with the pointer of an
  entry read, in the destructor of its connection before \<open>event_free\<close>, and at the calls behind the loop.
\<close>

datatype onstop_pc = Stop_none | Stop_iter "(nat \<times> nat) list" | Stop_at "nat \<times> nat" "(nat \<times> nat) list"
  | Stop_wait "nat \<times> nat" "(nat \<times> nat) list" | Stop_close | Stop_exit | Stop_join | Stop_done

text \<open>
  \<open>lf_ev\<close>: the event of the listener is registered; \<open>lf_events\<close> are those of the connections. \<open>lf_gone\<close>: the entry on
  which the loop of \<open>OnStop\<close> stands has been erased from the map, so that its iterator is no longer valid.
\<close>

record 's life =
  lf_sv :: 's
  lf_mem :: "nat \<Rightarrow> conn_members option"
  lf_open :: "int list"
  lf_events :: "(int \<times> nat) list"
  lf_listen :: int
  lf_ev :: bool
  lf_gone :: bool
  lf_exit :: bool
  lf_loop :: callback_pc
  lf_stop :: onstop_pc

definition life_new :: "int \<Rightarrow> 's \<Rightarrow> 's life" where
  "life_new listenfd sv = \<lparr>lf_sv = sv, lf_mem = (\<lambda>_. None), lf_open = [listenfd], lf_events = [],
     lf_listen = listenfd, lf_ev = True, lf_gone = False, lf_exit = False, lf_loop = Loop_poll, lf_stop = Stop_none\<rparr>"

section \<open>Destructors\<close>

text \<open>\<open>close\<close> of a descriptor that is not open fails without effect.\<close>

definition close_fd :: "int \<Rightarrow> 's life \<Rightarrow> 's life" where
  "close_fd fd s = s\<lparr>lf_open := removeAll fd (lf_open s)\<rparr>"

definition event_free :: "int \<times> nat \<Rightarrow> 's life \<Rightarrow> 's life" where
  "event_free ev s = s\<lparr>lf_events := removeAll ev (lf_events s)\<rparr>"

definition FdBridge_delete :: "conn_members \<Rightarrow> 's life \<Rightarrow> 's life" where
  "FdBridge_delete m s = close_fd (cm_fd m) s"

text \<open>
  The destructor of a connection: the assignments before \<open>event_free\<close>, where \<open>clear\<close> is what they do to the
  members of the class besides the pointer to the manager, and the rest with the destructor of the base
  class. \<open>event_free\<close> of a null pointer is undefined.
\<close>

definition ws_clear :: "ws_conn \<Rightarrow> ws_conn" where
  "ws_clear c = c\<lparr>wc_shook := False, wc_id := 0\<rparr>"

definition tcp_clear :: "tcp_conn \<Rightarrow> tcp_conn" where
  "tcp_clear c = c\<lparr>tc_id := 0\<rparr>"

definition connect_clear ::
  "('c \<Rightarrow> 'c) \<Rightarrow> nat \<Rightarrow> conn_members \<Rightarrow> ('c, 'z) service_scheme life \<Rightarrow> ('c, 'z) service_scheme life" where
  "connect_clear clear a m s = s\<lparr>lf_mem := (lf_mem s)(a := Some (m\<lparr>cm_mgr := False\<rparr>)),
     lf_sv := (lf_sv s)\<lparr>sv_objs := (sv_objs (lf_sv s))(a := map_option clear (sv_objs (lf_sv s) a))\<rparr>\<rparr>"

definition connect_free :: "nat \<Rightarrow> conn_members \<Rightarrow> ('c, 'z) service_scheme life \<Rightarrow> fault + ('c, 'z) service_scheme life" where
  "connect_free a m s = (case cm_ev m of
     None \<Rightarrow> Inl Undef
   | Some ev \<Rightarrow>
       (let s1 = FdBridge_delete m (event_free ev s)
        in Inr (s1\<lparr>lf_mem := (lf_mem s1)(a := None), lf_sv := (lf_sv s1)\<lparr>sv_objs := (sv_objs (lf_sv s1))(a := None)\<rparr>\<rparr>)))"

section \<open>The event loop\<close>

text \<open>\<open>clientfd\<close> is what \<open>accept\<close> returns, \<open>nb\<close> the result of \<open>evutil_make_socket_nonblocking\<close>.\<close>

definition accept_conn ::
  "('c \<Rightarrow> nat) \<Rightarrow> (nat \<Rightarrow> 'c) \<Rightarrow> int \<Rightarrow> int \<Rightarrow> ('c, 'z) service_scheme life \<Rightarrow> ('c, 'z) service_scheme life" where
  "accept_conn getId new clientfd nb s0 =
     (let s = (if clientfd = -1 then s0 else s0\<lparr>lf_open := clientfd # lf_open s0\<rparr>)
      in if nb < 0 then close_fd clientfd s
         else
           (let a = sv_fresh (lf_sv s); ev = (clientfd, a)
            in s\<lparr>lf_sv := doAccept getId new nb (lf_sv s),
                 lf_mem := (lf_mem s)(a := Some \<lparr>cm_fd = clientfd, cm_ev = Some ev, cm_mgr = True\<rparr>),
                 lf_events := ev # lf_events s\<rparr>))"

text \<open>The callback of a connection: \<open>read\<close>, \<open>deleteConnect\<close> through the manager, \<open>delete\<close>.\<close>

definition read_conn ::
  "('c \<Rightarrow> rx list \<Rightarrow> (fault + ('c \<times> int)) option) \<Rightarrow> nat \<Rightarrow> rx list \<Rightarrow> ('c, 'z) service_scheme life \<Rightarrow>
   (fault + ('c, 'z) service_scheme life) option" where
  "read_conn rd a evs s = (case sv_objs (lf_sv s) a of
     None \<Rightarrow> Some (Inl Undef)
   | Some c \<Rightarrow>
       (case rd c evs of
          None \<Rightarrow> None
        | Some (Inl f) \<Rightarrow> Some (Inl f)
        | Some (Inr (c', ret)) \<Rightarrow>
            Some (Inr (s\<lparr>lf_sv := (lf_sv s)\<lparr>sv_objs := (sv_objs (lf_sv s))(a := Some c')\<rparr>,
                         lf_loop := if ret < 0 then Loop_failed a else Loop_poll\<rparr>))))"

text \<open>
  An entry that is erased is no longer met by the loop of \<open>OnStop\<close>; where it is the entry on which the loop stands,
  the iterator is left without one.
\<close>

fun stop_entry :: "onstop_pc \<Rightarrow> (nat \<times> nat) option" where
  "stop_entry (Stop_iter (e # es)) = Some e"
| "stop_entry (Stop_at e es) = Some e"
| "stop_entry (Stop_wait e es) = Some e"
| "stop_entry pc = None"

fun skip_entry :: "nat \<Rightarrow> onstop_pc \<Rightarrow> onstop_pc" where
  "skip_entry i (Stop_iter es) = Stop_iter (filter (\<lambda>e. fst e \<noteq> i) es)"
| "skip_entry i (Stop_at e es) = Stop_at e (filter (\<lambda>e. fst e \<noteq> i) es)"
| "skip_entry i (Stop_wait e es) = Stop_wait e (filter (\<lambda>e. fst e \<noteq> i) es)"
| "skip_entry i pc = pc"

definition erase_conn :: "('c \<Rightarrow> nat) \<Rightarrow> nat \<Rightarrow> ('c, 'z) service_scheme life \<Rightarrow> fault + ('c, 'z) service_scheme life" where
  "erase_conn getId a s = (case (sv_objs (lf_sv s) a, lf_mem s a) of
     (Some c, Some m) \<Rightarrow>
       if cm_mgr m
       then Inr (s\<lparr>lf_sv := deleteConnect (getId c) (lf_sv s), lf_stop := skip_entry (getId c) (lf_stop s),
                   lf_gone := (lf_gone s \<or> map_option fst (stop_entry (lf_stop s)) = Some (getId c)),
                   lf_loop := Loop_delete a\<rparr>)
       else Inl Undef
   | _ \<Rightarrow> Inl Undef)"

definition delete_conn :: "('c \<Rightarrow> 'c) \<Rightarrow> nat \<Rightarrow> ('c, 'z) service_scheme life \<Rightarrow> fault + ('c, 'z) service_scheme life" where
  "delete_conn clear a s = (case lf_mem s a of
     None \<Rightarrow> Inl Undef
   | Some m \<Rightarrow> map_sum id (lf_loop_update (\<lambda>_. Loop_poll)) (connect_free a m (connect_clear clear a m s)))"

section \<open>OnStop\<close>

definition in_callback :: "nat \<Rightarrow> callback_pc \<Rightarrow> bool" where
  "in_callback a pc \<longleftrightarrow> pc = Loop_read a \<or> pc = Loop_stuck a \<or> pc = Loop_failed a \<or> pc = Loop_delete a"

text \<open>
  The next step of \<open>OnStop\<close>; \<open>None\<close> is a call that waits. First the event of the listener is freed. The pointer of an
  entry is read and, behind the \<open>delete\<close>, set to null before the iterator moves on: both need the entry.
\<close>

definition stop_next :: "('c \<Rightarrow> 'c) \<Rightarrow> ('c, 'z) service_scheme life \<Rightarrow> (fault + ('c, 'z) service_scheme life) option" where
  "stop_next clear s = (case lf_stop s of
     Stop_none \<Rightarrow> Some (Inr (s\<lparr>lf_ev := False, lf_stop := Stop_iter (sv_map (lf_sv s))\<rparr>))
   | Stop_iter es \<Rightarrow>
       Some (if lf_gone s then Inl Undef
             else (case es of
                [] \<Rightarrow> Inr (s\<lparr>lf_sv := (lf_sv s)\<lparr>sv_map := []\<rparr>, lf_stop := Stop_close\<rparr>)
              | e # es' \<Rightarrow> Inr (s\<lparr>lf_stop := Stop_at e es'\<rparr>)))
   | Stop_at e es \<Rightarrow>
       Some (case lf_mem s (snd e) of
          None \<Rightarrow> Inl Undef
        | Some m \<Rightarrow> Inr ((connect_clear clear (snd e) m s)\<lparr>lf_stop := Stop_wait e es\<rparr>))
   | Stop_wait e es \<Rightarrow>
       if in_callback (snd e) (lf_loop s) then None
       else Some (case lf_mem s (snd e) of
          None \<Rightarrow> Inl Undef
        | Some m \<Rightarrow>
            if lf_gone s then Inl Undef else map_sum id (lf_stop_update (\<lambda>_. Stop_iter es)) (connect_free (snd e) m s))
   | Stop_close \<Rightarrow> Some (Inr ((close_fd (lf_listen s) s)\<lparr>lf_stop := Stop_exit\<rparr>))
   | Stop_exit \<Rightarrow> Some (Inr (s\<lparr>lf_exit := True, lf_stop := Stop_join\<rparr>))
   | Stop_join \<Rightarrow> if lf_loop s = Loop_ended then Some (Inr (s\<lparr>lf_stop := Stop_done\<rparr>)) else None
   | Stop_done \<Rightarrow> None)"

section \<open>Steps\<close>

text \<open>\<open>Inl\<close> is undefined behaviour. A callback runs only while its event exists.\<close>

inductive life_step ::
  "('c \<Rightarrow> nat) \<Rightarrow> ('c \<Rightarrow> 'c) \<Rightarrow> (nat \<Rightarrow> 'c) set \<Rightarrow> ('c \<Rightarrow> rx list \<Rightarrow> (fault + ('c \<times> int)) option) \<Rightarrow>
   ('c, 'z) service_scheme life \<Rightarrow> fault + ('c, 'z) service_scheme life \<Rightarrow> bool"
  for getId clear news rd where
  lf_accept: "lf_loop s = Loop_poll \<Longrightarrow> lf_ev s \<Longrightarrow> new \<in> news \<Longrightarrow>
    clientfd \<notin> set (lf_open s) \<Longrightarrow> (clientfd = -1 \<longrightarrow> nb < 0) \<Longrightarrow>
    life_step getId clear news rd s (Inr (accept_conn getId new clientfd nb s))"
| lf_dispatch: "lf_loop s = Loop_poll \<Longrightarrow> (fd, a) \<in> set (lf_events s) \<Longrightarrow>
    life_step getId clear news rd s (Inr (s\<lparr>lf_loop := Loop_read a\<rparr>))"
| lf_read: "lf_loop s = Loop_read a \<Longrightarrow> read_conn rd a evs s = Some r \<Longrightarrow> life_step getId clear news rd s r"
| lf_hang: "lf_loop s = Loop_read a \<Longrightarrow> sv_objs (lf_sv s) a = Some c \<Longrightarrow> rd c evs = None \<Longrightarrow>
    life_step getId clear news rd s (Inr (s\<lparr>lf_loop := Loop_stuck a\<rparr>))"
| lf_erase: "lf_loop s = Loop_failed a \<Longrightarrow> life_step getId clear news rd s (erase_conn getId a s)"
| lf_delete: "lf_loop s = Loop_delete a \<Longrightarrow> life_step getId clear news rd s (delete_conn clear a s)"
| lf_leave: "lf_loop s = Loop_poll \<Longrightarrow> lf_exit s \<Longrightarrow> life_step getId clear news rd s (Inr (s\<lparr>lf_loop := Loop_ended\<rparr>))"
| lf_stopping: "stop_next clear s = Some r \<Longrightarrow> life_step getId clear news rd s r"

inductive_cases life_stepE: "life_step getId clear news rd s r"

abbreviation life_run ::
  "('c \<Rightarrow> nat) \<Rightarrow> ('c \<Rightarrow> 'c) \<Rightarrow> (nat \<Rightarrow> 'c) set \<Rightarrow> ('c \<Rightarrow> rx list \<Rightarrow> (fault + ('c \<times> int)) option) \<Rightarrow>
   ('c, 'z) service_scheme life \<Rightarrow> ('c, 'z) service_scheme life \<Rightarrow> bool" where
  "life_run getId clear news rd \<equiv> (\<lambda>s t. life_step getId clear news rd s (Inr t))\<^sup>*\<^sup>*"

text \<open>
  What \<open>OnStop\<close> of a service comes to, called while the other thread is wherever it is: it returns in some state, or
  something undefined happens, which is also that \<open>_ev\<close> and \<open>_handle\<close> of a service that has not been started are
  not initialised. Where neither can be reached, it does not return.
\<close>

inductive net_OnStop ::
  "('c \<Rightarrow> nat) \<Rightarrow> ('c \<Rightarrow> 'c) \<Rightarrow> (nat \<Rightarrow> 'c) set \<Rightarrow> ('c \<Rightarrow> rx list \<Rightarrow> (fault + ('c \<times> int)) option) \<Rightarrow>
   net_service \<Rightarrow> ('c, 'z) service_scheme life \<Rightarrow> fault + ('c, 'z) service_scheme life \<Rightarrow> bool"
  for getId clear news rd nv where
  os_event: "\<not> nv_ev nv \<Longrightarrow> net_OnStop getId clear news rd nv s (Inl Undef)"
| os_handle: "nv_ev nv \<Longrightarrow> \<not> nv_handle nv \<Longrightarrow> life_run getId clear news rd s t \<Longrightarrow> lf_stop t = Stop_join \<Longrightarrow>
    net_OnStop getId clear news rd nv s (Inl Undef)"
| os_fault: "nv_ev nv \<Longrightarrow> life_run getId clear news rd s t \<Longrightarrow> life_step getId clear news rd t (Inl f) \<Longrightarrow>
    net_OnStop getId clear news rd nv s (Inl f)"
| os_done: "nv_ev nv \<Longrightarrow> nv_handle nv \<Longrightarrow> life_run getId clear news rd s t \<Longrightarrow> lf_stop t = Stop_done \<Longrightarrow>
    net_OnStop getId clear news rd nv s (Inr t)"

inductive_cases net_OnStopE: "net_OnStop getId clear news rd nv s r"

text \<open>The three parts of the callback are the callback of Service.\<close>

lemma callback_parts:
  assumes "sv_objs (lf_sv s) a = Some c" and "lf_mem s a = Some m" and "cm_mgr m" and "cm_ev m = Some ev"
    and "read_conn rd a evs s = Some (Inr t)" and "and what EV_READ \<noteq> 0"
    and "\<And>c' n. rd c evs = Some (Inr (c', n)) \<Longrightarrow> getId c' = getId c"
  shows "\<exists>u. client_read_cb getId rd a what evs (lf_sv s) = Some (Inr (lf_sv u)) \<and>
    (u = t \<or> (\<exists>v. erase_conn getId a t = Inr v \<and> delete_conn clear a v = Inr u))"
proof -
  from assms(1,5) obtain c' ret where r: "rd c evs = Some (Inr (c', ret))"
    "t = s\<lparr>lf_sv := (lf_sv s)\<lparr>sv_objs := (sv_objs (lf_sv s))(a := Some c')\<rparr>,
      lf_loop := if ret < 0 then Loop_failed a else Loop_poll\<rparr>"
    by (auto simp: read_conn_def split: option.splits sum.splits)
  show ?thesis
  proof (cases "ret < 0")
    case True
    with assms(1-4,7) r have "\<exists>v u. erase_conn getId a t = Inr v \<and> delete_conn clear a v = Inr u \<and>
        lf_sv u = (deleteConnect (getId c) (lf_sv s))\<lparr>sv_objs := (sv_objs (lf_sv s))(a := None)\<rparr>"
      by (simp add: erase_conn_def delete_conn_def connect_free_def connect_clear_def FdBridge_delete_def
          close_fd_def event_free_def deleteConnect_def Let_def)
    moreover have "client_read_cb getId rd a what evs (lf_sv s) =
        Some (Inr ((deleteConnect (getId c) (lf_sv s))\<lparr>sv_objs := (sv_objs (lf_sv s))(a := None)\<rparr>))"
      using assms(1,6,7) r True by (simp add: client_read_cb_def)
    ultimately show ?thesis by metis
  next
    case False
    with assms(1,6) r show ?thesis by (intro exI[of _ t]) (auto simp: client_read_cb_def)
  qed
qed

section \<open>What the connections hold\<close>

text \<open>
  \<open>L\<close> is the listening descriptor while it is open: the open descriptors are that and those of the
  connections, each of one connection, and the events of the loop those of the connections.
\<close>

definition owned :: "int set \<Rightarrow> (nat \<Rightarrow> int option) \<Rightarrow> int list \<Rightarrow> (int \<times> nat) list \<Rightarrow> bool" where
  "owned L F opn evs \<longleftrightarrow> distinct opn \<and> distinct evs \<and>
     (\<forall>fd. fd \<in> set opn \<longleftrightarrow> fd \<in> L \<or> (\<exists>a. F a = Some fd)) \<and>
     (\<forall>a fd. F a = Some fd \<longrightarrow> fd \<notin> L \<and> (\<forall>b. F b = Some fd \<longrightarrow> b = a)) \<and>
     (\<forall>fd a. (fd, a) \<in> set evs \<longleftrightarrow> F a = Some fd)"

lemma ownedD:
  assumes "owned L F opn evs"
  shows "distinct opn" and "distinct evs" and "fd \<in> set opn \<longleftrightarrow> fd \<in> L \<or> (\<exists>a. F a = Some fd)"
    and "F a = Some fd \<Longrightarrow> fd \<notin> L" and "F a = Some fd \<Longrightarrow> F b = Some fd \<longleftrightarrow> b = a"
    and "(fd, a) \<in> set evs \<longleftrightarrow> F a = Some fd"
  using assms by (auto simp: owned_def)

lemma ownedI:
  assumes "distinct opn" and "distinct evs" and "\<And>fd. fd \<in> set opn \<longleftrightarrow> fd \<in> L \<or> (\<exists>a. F a = Some fd)"
    and "\<And>a fd. F a = Some fd \<Longrightarrow> fd \<notin> L" and "\<And>a b fd. F a = Some fd \<Longrightarrow> F b = Some fd \<Longrightarrow> b = a"
    and "\<And>fd a. (fd, a) \<in> set evs \<longleftrightarrow> F a = Some fd"
  shows "owned L F opn evs"
  using assms unfolding owned_def by blast

lemma owned_new:
  assumes "owned L F opn evs" and "fd \<notin> set opn" and "F a = None"
  shows "owned L (F(a := Some fd)) (fd # opn) ((fd, a) # evs)"
proof (rule ownedI)
  note o = ownedD[OF assms(1)]
  have new: "fd \<notin> L" "F b \<noteq> Some fd" for b using assms(2) o(3) by blast+
  show "distinct (fd # opn)" "distinct ((fd, a) # evs)" using o(1,2,6) assms(2,3) by auto
  show "x \<in> set (fd # opn) \<longleftrightarrow> x \<in> L \<or> (\<exists>b. (F(a := Some fd)) b = Some x)" for x
  proof -
    have "(\<exists>b. (F(a := Some fd)) b = Some x) \<longleftrightarrow> x = fd \<or> (\<exists>b. F b = Some x)"
      using assms(3) by (metis fun_upd_apply option.distinct(1) option.inject)
    with o(3)[of x] show ?thesis by auto
  qed
  show "x \<notin> L" if "(F(a := Some fd)) b = Some x" for b x using that o(4) new(1) by (auto split: if_splits)
  show "c = b" if "(F(a := Some fd)) b = Some x" "(F(a := Some fd)) c = Some x" for b c x
    using that o(5) new(2) by (auto split: if_splits)
  show "(x, b) \<in> set ((fd, a) # evs) \<longleftrightarrow> (F(a := Some fd)) b = Some x" for x b
    using o(6) assms(3) by auto
qed

lemma owned_delete:
  assumes "owned L F opn evs" and "F a = Some fd"
  shows "owned L (F(a := None)) (removeAll fd opn) (removeAll (fd, a) evs)"
proof (rule ownedI)
  note o = ownedD[OF assms(1)]
  show "distinct (removeAll fd opn)" "distinct (removeAll (fd, a) evs)" using o(1,2) by (simp_all add: distinct_removeAll)
  show "x \<in> set (removeAll fd opn) \<longleftrightarrow> x \<in> L \<or> (\<exists>b. (F(a := None)) b = Some x)" for x
  proof -
    have "(\<exists>b. (F(a := None)) b = Some x) \<longleftrightarrow> x \<noteq> fd \<and> (\<exists>b. F b = Some x)"
      using assms(2) o(5)[OF assms(2)] by (metis fun_upd_apply option.distinct(1) option.inject)
    with o(3)[of x] o(4)[OF assms(2)] show ?thesis by auto
  qed
  show "x \<notin> L" if "(F(a := None)) b = Some x" for b x using that o(4) by (auto split: if_splits)
  show "c = b" if "(F(a := None)) b = Some x" "(F(a := None)) c = Some x" for b c x
    using that o(5) by (auto split: if_splits)
  show "(x, b) \<in> set (removeAll (fd, a) evs) \<longleftrightarrow> (F(a := None)) b = Some x" for x b
    using o(6) assms(2) by auto
qed

lemma owned_close: "owned {l} F opn evs \<Longrightarrow> owned {} F (removeAll l opn) evs"
  by (auto simp: owned_def distinct_removeAll)

definition conns_hold :: "int set \<Rightarrow> (nat \<Rightarrow> conn_members option) \<Rightarrow> int list \<Rightarrow> (int \<times> nat) list \<Rightarrow> bool" where
  "conns_hold L ms opn evs \<longleftrightarrow> owned L (\<lambda>a. map_option cm_fd (ms a)) opn evs \<and>
     (\<forall>a m. ms a = Some m \<longrightarrow> cm_ev m = Some (cm_fd m, a))"

lemma fds_update: "(\<lambda>b. map_option cm_fd ((ms(a := x)) b)) = (\<lambda>b. map_option cm_fd (ms b))(a := map_option cm_fd x)"
  by auto

lemma hold_accept:
  "conns_hold L ms opn evs \<Longrightarrow> fd \<notin> set opn \<Longrightarrow> ms a = None \<Longrightarrow>
   conns_hold L (ms(a := Some \<lparr>cm_fd = fd, cm_ev = Some (fd, a), cm_mgr = True\<rparr>)) (fd # opn) ((fd, a) # evs)"
  unfolding conns_hold_def fds_update by (auto intro: owned_new)

lemma hold_clear:
  assumes "conns_hold L ms opn evs" and "ms a = Some m"
  shows "conns_hold L (ms(a := Some (m\<lparr>cm_mgr := False\<rparr>))) opn evs"
proof -
  have "(\<lambda>b. map_option cm_fd (ms b))(a := Some (cm_fd m)) = (\<lambda>b. map_option cm_fd (ms b))" using assms(2) by auto
  with assms show ?thesis unfolding conns_hold_def fds_update by simp
qed

lemma hold_free:
  "conns_hold L ms opn evs \<Longrightarrow> ms a = Some m \<Longrightarrow>
   conns_hold L (ms(a := None)) (removeAll (cm_fd m) opn) (removeAll (cm_fd m, a) evs)"
  unfolding conns_hold_def fds_update by (auto intro: owned_delete)

lemma hold_close: "conns_hold {l} ms opn evs \<Longrightarrow> conns_hold {} ms (removeAll l opn) evs"
  by (auto simp: conns_hold_def intro: owned_close)

section \<open>Who deletes a connection\<close>

text \<open>The entries that \<open>OnStop\<close> still has to visit, and the connection that it is deleting.\<close>

fun stop_todo :: "(nat \<times> nat) list \<Rightarrow> onstop_pc \<Rightarrow> (nat \<times> nat) list" where
  "stop_todo m Stop_none = m"
| "stop_todo m (Stop_iter es) = es"
| "stop_todo m (Stop_at e es) = es"
| "stop_todo m (Stop_wait e es) = es"
| "stop_todo m pc = []"

fun stop_target :: "onstop_pc \<Rightarrow> nat option" where
  "stop_target (Stop_at e es) = Some (snd e)"
| "stop_target (Stop_wait e es) = Some (snd e)"
| "stop_target pc = None"

definition accounted :: "nat \<Rightarrow> (nat \<times> nat) list \<Rightarrow> nat set \<Rightarrow> onstop_pc \<Rightarrow> callback_pc \<Rightarrow> bool" where
  "accounted uid m D stop loop \<longleftrightarrow>
     distinct (map snd (stop_todo m stop)) \<and>
     (\<forall>(i, a) \<in> set (stop_todo m stop). i = (uid + a) mod 2 ^ 32 \<and> a \<in> D) \<and>
     (\<forall>a \<in> D. a \<in> snd ` set (stop_todo m stop) \<or> stop_target stop = Some a \<or> loop = Loop_delete a) \<and>
     (\<forall>a. stop_target stop = Some a \<or> loop = Loop_delete a \<longrightarrow> a \<notin> snd ` set (stop_todo m stop)) \<and>
     (\<forall>a. in_callback a loop \<longrightarrow> a \<in> D)"

fun listening :: "onstop_pc \<Rightarrow> bool" where
  "listening Stop_exit = False"
| "listening Stop_join = False"
| "listening Stop_done = False"
| "listening pc = True"

definition listen_fds :: "onstop_pc \<Rightarrow> int \<Rightarrow> int set" where
  "listen_fds pc fd = (if listening pc then {fd} else {})"

lemma listen_fds_skip [simp]: "listen_fds (skip_entry i pc) fd = listen_fds pc fd"
  by (cases pc) (simp_all add: listen_fds_def)

fun exiting :: "onstop_pc \<Rightarrow> bool" where
  "exiting Stop_join = True"
| "exiting Stop_done = True"
| "exiting pc = False"

fun stop_waiting :: "onstop_pc \<Rightarrow> nat option" where
  "stop_waiting (Stop_wait e es) = Some (snd e)"
| "stop_waiting pc = None"

lemma skip_entry_simps [simp]:
  "stop_todo (filter (\<lambda>e. fst e \<noteq> i) m) (skip_entry i pc) = filter (\<lambda>e. fst e \<noteq> i) (stop_todo m pc)"
  "stop_target (skip_entry i pc) = stop_target pc"
  "stop_waiting (skip_entry i pc) = stop_waiting pc"
  "listening (skip_entry i pc) = listening pc"
  "exiting (skip_entry i pc) = exiting pc"
  "skip_entry i pc = Stop_done \<longleftrightarrow> pc = Stop_done"
  "skip_entry i pc = Stop_none \<longleftrightarrow> pc = Stop_none"
  by (cases pc; simp)+

text \<open>
  The ids are those of the order of acceptance, except for the connection whose destructor has reset its own.
\<close>

definition numbered_but :: "nat option \<Rightarrow> ('c \<Rightarrow> nat) \<Rightarrow> nat \<Rightarrow> ('c, 'z) service_scheme \<Rightarrow> bool" where
  "numbered_but w getId uid s \<longleftrightarrow> sv_next s = (uid + sv_fresh s) mod 2 ^ 32 \<and>
     (\<forall>a c. sv_objs s a = Some c \<longrightarrow> a < sv_fresh s \<and> (w = Some a \<or> getId c = (uid + a) mod 2 ^ 32))"

definition life_ok :: "('c \<Rightarrow> nat) \<Rightarrow> nat \<Rightarrow> ('c, 'z) service_scheme life \<Rightarrow> bool" where
  "life_ok getId uid s \<longleftrightarrow> dom (lf_mem s) = dom (sv_objs (lf_sv s)) \<and>
     conns_hold (listen_fds (lf_stop s) (lf_listen s)) (lf_mem s) (lf_open s) (lf_events s) \<and>
     accounted uid (sv_map (lf_sv s)) (dom (sv_objs (lf_sv s))) (lf_stop s) (lf_loop s) \<and>
     numbered_but (stop_waiting (lf_stop s)) getId uid (lf_sv s) \<and>
     (\<forall>a m. lf_mem s a = Some m \<longrightarrow> (cm_mgr m \<longleftrightarrow> stop_waiting (lf_stop s) \<noteq> Some a)) \<and>
     (lf_ev s \<longleftrightarrow> lf_stop s = Stop_none) \<and> (lf_gone s \<longrightarrow> lf_stop s \<noteq> Stop_none) \<and>
     (lf_exit s \<longleftrightarrow> exiting (lf_stop s)) \<and> (lf_loop s = Loop_ended \<longrightarrow> lf_exit s) \<and>
     (lf_stop s = Stop_done \<longrightarrow> lf_loop s = Loop_ended)"

definition life_inv :: "('c \<Rightarrow> nat) \<Rightarrow> nat \<Rightarrow> ('c, 'z) service_scheme life \<Rightarrow> bool" where
  "life_inv getId uid s \<longleftrightarrow> (sv_fresh (lf_sv s) \<le> 2 ^ 32 \<longrightarrow> life_ok getId uid s)"

section \<open>The invariant is kept\<close>

lemma entry_snd: "(i, a) \<in> set m \<Longrightarrow> a \<in> snd ` set m"
  by force

lemma accounted_loop:
  "accounted uid m D stop loop \<Longrightarrow> (\<And>a. loop \<noteq> Loop_delete a) \<Longrightarrow> (\<And>a. loop' \<noteq> Loop_delete a) \<Longrightarrow>
   (\<And>a. in_callback a loop' \<Longrightarrow> a \<in> D) \<Longrightarrow> accounted uid m D stop loop'"
  by (simp add: accounted_def)

lemma accounted_new:
  assumes "accounted uid m D Stop_none Loop_poll" and "a \<notin> D" and "i = (uid + a) mod 2 ^ 32"
  shows "accounted uid ((i, a) # m) (insert a D) Stop_none Loop_poll"
  using assms by (auto simp: accounted_def in_callback_def)

lemma accounted_erase:
  assumes "accounted uid m D stop (Loop_failed a)" and "i = (uid + a) mod 2 ^ 32" and "D \<subseteq> {..<2 ^ 32}"
  shows "accounted uid (filter (\<lambda>e. fst e \<noteq> i) m) D (skip_entry i stop) (Loop_delete a)"
proof -
  have in_D: "a \<in> D" using assms(1) by (simp add: accounted_def in_callback_def)
  have key: "j = i \<longleftrightarrow> b = a" if "(j, b) \<in> set (stop_todo m stop)" for j b
  proof -
    have "j = (uid + b) mod 2 ^ 32" "b \<in> D" using assms(1) that by (auto simp: accounted_def)
    with assms(2,3) in_D number_inj[of uid b a] show ?thesis by auto
  qed
  have todo: "snd ` set (filter (\<lambda>e. fst e \<noteq> i) (stop_todo m stop)) = snd ` set (stop_todo m stop) - {a}"
    using key by force
  have "distinct (map snd (filter (\<lambda>e. fst e \<noteq> i) (stop_todo m stop)))"
    using assms(1) by (simp add: accounted_def distinct_map_filter)
  with assms(1) todo in_D show ?thesis
    unfolding accounted_def skip_entry_simps in_callback_def by auto
qed

lemma accounted_delete:
  "accounted uid m D stop (Loop_delete a) \<Longrightarrow> accounted uid m (D - {a}) stop Loop_poll"
  by (auto simp: accounted_def in_callback_def dest: entry_snd)

lemma accounted_stopped:
  assumes "accounted uid m D (Stop_wait e es) loop" and "\<not> in_callback (snd e) loop"
  shows "accounted uid m (D - {snd e}) (Stop_iter es) loop"
  using assms by (auto simp: accounted_def in_callback_def dest: entry_snd)

lemma accounted_pcs:
  "accounted uid m D Stop_none loop \<Longrightarrow> accounted uid m D (Stop_iter m) loop"
  "accounted uid m D (Stop_at e es) loop \<Longrightarrow> accounted uid m D (Stop_wait e es) loop"
  "accounted uid m D (Stop_iter []) loop \<Longrightarrow> accounted uid [] D Stop_close loop"
  "accounted uid m D Stop_close loop \<Longrightarrow> accounted uid m D Stop_exit loop"
  "accounted uid m D Stop_exit loop \<Longrightarrow> accounted uid m D Stop_join loop"
  "accounted uid m D Stop_join loop \<Longrightarrow> accounted uid m D Stop_done loop"
  by (simp_all add: accounted_def)

lemma accounted_next:
  assumes "accounted uid m D (Stop_iter (e # es)) loop"
  shows "accounted uid m D (Stop_at e es) loop"
  using assms by (auto simp: accounted_def dest: entry_snd)

lemma free_ok:
  assumes "conns_hold L (lf_mem s) (lf_open s) (lf_events s)" and "lf_mem s a = Some m" and "cm_ev m' = cm_ev m" and "cm_fd m' = cm_fd m"
  shows "\<exists>t. connect_free a m' s = Inr t \<and> conns_hold L (lf_mem t) (lf_open t) (lf_events t) \<and> lf_mem t = (lf_mem s)(a := None) \<and>
    lf_sv t = (lf_sv s)\<lparr>sv_objs := (sv_objs (lf_sv s))(a := None)\<rparr> \<and> lf_stop t = lf_stop s \<and> lf_loop t = lf_loop s \<and>
    lf_exit t = lf_exit s \<and> lf_listen t = lf_listen s \<and> lf_ev t = lf_ev s \<and> lf_gone t = lf_gone s"
proof -
  have "cm_ev m' = Some (cm_fd m, a)" using assms(1-3) by (simp add: conns_hold_def)
  with hold_free[OF assms(1,2)] assms(4) show ?thesis
    by (simp add: connect_free_def Let_def FdBridge_delete_def close_fd_def event_free_def)
qed

lemma life_owned:
  "life_ok getId uid s \<Longrightarrow> owned (listen_fds (lf_stop s) (lf_listen s)) (\<lambda>a. map_option cm_fd (lf_mem s a)) (lf_open s) (lf_events s)"
  "life_ok getId uid s \<Longrightarrow> lf_mem s a = None \<longleftrightarrow> sv_objs (lf_sv s) a = None"
  unfolding life_ok_def conns_hold_def by (blast, metis domIff)

lemma event_live:
  assumes "life_ok getId uid s" and "(fd, a) \<in> set (lf_events s)"
  shows "a \<in> dom (sv_objs (lf_sv s))"
proof -
  have "lf_mem s a \<noteq> None" using ownedD(6)[OF life_owned(1)[OF assms(1)], of fd a] assms(2) by auto
  then show ?thesis using life_owned(2)[OF assms(1), of a] by (simp add: domIff)
qed

lemma live_event:
  assumes "life_ok getId uid s" and "a \<in> dom (sv_objs (lf_sv s))"
  shows "\<exists>fd. (fd, a) \<in> set (lf_events s)"
proof -
  obtain m where "lf_mem s a = Some m" using life_owned(2)[OF assms(1), of a] assms(2) by fastforce
  then show ?thesis using ownedD(6)[OF life_owned(1)[OF assms(1)], of "cm_fd m" a] by auto
qed

text \<open>The destructor resets the id, and the connection is gone before \<open>OnStop\<close> is at another one.\<close>

lemma numbered_cleared:
  "numbered_but None getId uid s \<Longrightarrow>
   numbered_but (Some a) getId uid (s\<lparr>sv_objs := (sv_objs s)(a := map_option clear (sv_objs s a))\<rparr>)"
  by (auto simp: numbered_but_def)

lemma numbered_freed:
  "numbered_but (Some a) getId uid s \<Longrightarrow> numbered_but w getId uid (s\<lparr>sv_objs := (sv_objs s)(a := None)\<rparr>)"
  by (auto simp: numbered_but_def)

lemma numbered_map [simp]: "numbered_but w getId uid (s\<lparr>sv_map := m\<rparr>) = numbered_but w getId uid s"
  by (simp add: numbered_but_def)

lemma dom_clear [simp]: "dom (f(a := map_option g (f a))) = dom f"
  by (auto simp: dom_def)

lemma stop_run:
  "stop_next clear s = Some (Inr t) \<Longrightarrow> life_run getId clear news rd t u \<Longrightarrow> life_run getId clear news rd s u"
  by (rule converse_rtranclp_into_rtranclp[of "\<lambda>s t. life_step getId clear news rd s (Inr t)"]) (rule lf_stopping)

lemma step_run:
  "life_step getId clear news rd s (Inr t) \<Longrightarrow> life_run getId clear news rd t u \<Longrightarrow> life_run getId clear news rd s u"
  by (rule converse_rtranclp_into_rtranclp[of "\<lambda>s t. life_step getId clear news rd s (Inr t)"])

context connection_class
begin

lemma life_accept:
  assumes "life_inv getId uid s" and "lf_loop s = Loop_poll" and "lf_ev s" and "new \<in> news"
    and "clientfd \<notin> set (lf_open s)" and "clientfd = -1 \<longrightarrow> nb < 0"
  shows "life_inv getId uid (accept_conn getId new clientfd nb s)"
proof (cases "nb < 0")
  case True
  then have "accept_conn getId new clientfd nb s = s"
    using assms(5) by (cases "clientfd = -1") (simp_all add: accept_conn_def close_fd_def)
  with assms(1) show ?thesis by simp
next
  case False
  let ?i = "sv_next (lf_sv s)" and ?a = "sv_fresh (lf_sv s)"
  let ?t = "accept_conn getId new clientfd nb s"
  have id: "getId (new ?i) = ?i" using new_id[OF assms(4)] .
  have sv: "lf_sv ?t = (lf_sv s)\<lparr>sv_next := (?i + 1) mod 2 ^ 32, sv_objs := (sv_objs (lf_sv s))(?a := Some (new ?i)),
      sv_fresh := Suc ?a, sv_map := map_insert ?i ?a (sv_map (lf_sv s))\<rparr>"
    using False by (simp add: accept_conn_def Let_def doAccept_def NewConnect_def Make_uniqueId_def id)
  have "life_ok getId uid ?t" if bound: "Suc ?a \<le> 2 ^ 32"
  proof -
    have ok: "life_ok getId uid s" using assms(1) bound by (simp add: life_inv_def)
    then have none_yet: "lf_stop s = Stop_none" using assms(3) by (simp add: life_ok_def)
    have t: "lf_mem ?t = (lf_mem s)(?a := Some \<lparr>cm_fd = clientfd, cm_ev = Some (clientfd, ?a), cm_mgr = True\<rparr>)"
      "lf_open ?t = clientfd # lf_open s" "lf_events ?t = (clientfd, ?a) # lf_events s" "lf_listen ?t = lf_listen s"
      "lf_exit ?t = lf_exit s" "lf_loop ?t = Loop_poll" "lf_stop ?t = Stop_none" "lf_ev ?t = lf_ev s"
      "lf_gone ?t = lf_gone s"
      using False assms(2,6) none_yet by (auto simp: accept_conn_def Let_def)
    have num: "numbered_but None getId uid (lf_sv s)" using ok none_yet by (simp add: life_ok_def)
    then have none: "sv_objs (lf_sv s) ?a = None" by (cases "sv_objs (lf_sv s) ?a") (auto simp: numbered_but_def)
    have i: "?i = (uid + ?a) mod 2 ^ 32" using num by (simp add: numbered_but_def)
    have num': "numbered_but None getId uid (lf_sv ?t)"
      using num id unfolding sv numbered_but_def by (auto simp: mod_Suc_eq less_Suc_eq)
    have acc: "accounted uid (sv_map (lf_sv s)) (dom (sv_objs (lf_sv s))) Stop_none Loop_poll"
      and dom: "dom (lf_mem s) = dom (sv_objs (lf_sv s))" using ok by (simp_all add: life_ok_def assms(2) none_yet)
    have below: "b < ?a" if "b \<in> dom (sv_objs (lf_sv s))" for b using num that by (auto simp: numbered_but_def)
    have "?i \<notin> fst ` set (sv_map (lf_sv s))"
    proof
      assume "?i \<in> fst ` set (sv_map (lf_sv s))"
      then obtain b where "b \<in> dom (sv_objs (lf_sv s))" "(uid + b) mod 2 ^ 32 = (uid + ?a) mod 2 ^ 32"
        using acc i unfolding accounted_def stop_todo.simps by fastforce
      with number_inj[of uid b ?a] below[of b] bound show False by auto
    qed
    moreover have "lf_mem s ?a = None" using dom none by (metis domIff)
    ultimately show ?thesis
      using ok acc accounted_new[OF acc _ i] hold_accept[of _ "lf_mem s" "lf_open s" "lf_events s" clientfd ?a] none assms(2,5) dom
        none_yet num'
      unfolding life_ok_def t by (auto simp: map_insert_def sv)
  qed
  then show ?thesis unfolding life_inv_def by (simp add: sv)
qed

lemma life_read:
  assumes "life_inv getId uid s" and "lf_loop s = Loop_read a" and "read_conn rd a evs s = Some (Inr t)"
  shows "life_inv getId uid t"
proof -
  from assms(3) obtain c c' ret where c: "sv_objs (lf_sv s) a = Some c" "rd c evs = Some (Inr (c', ret))"
    "t = s\<lparr>lf_sv := (lf_sv s)\<lparr>sv_objs := (sv_objs (lf_sv s))(a := Some c')\<rparr>,
      lf_loop := if ret < 0 then Loop_failed a else Loop_poll\<rparr>"
    by (auto simp: read_conn_def split: option.splits sum.splits)
  have "dom ((sv_objs (lf_sv s))(a := Some c')) = dom (sv_objs (lf_sv s))" using c(1) by auto
  with assms(1,2) c(1) read_id[OF c(2)] show ?thesis
    unfolding c(3) life_inv_def life_ok_def
    by (auto simp: numbered_but_def in_callback_def elim!: accounted_loop)
qed

lemma life_erase:
  assumes "life_inv getId uid s" and "lf_loop s = Loop_failed a" and "erase_conn getId a s = Inr t"
  shows "life_inv getId uid t"
proof -
  from assms(3) obtain c m where c: "sv_objs (lf_sv s) a = Some c" "lf_mem s a = Some m" "cm_mgr m"
    "t = s\<lparr>lf_sv := deleteConnect (getId c) (lf_sv s), lf_stop := skip_entry (getId c) (lf_stop s),
      lf_gone := (lf_gone s \<or> map_option fst (stop_entry (lf_stop s)) = Some (getId c)), lf_loop := Loop_delete a\<rparr>"
    by (auto simp: erase_conn_def split: option.splits if_splits)
  have "life_ok getId uid t" if "sv_fresh (lf_sv s) \<le> 2 ^ 32" "life_ok getId uid s"
  proof -
    have num: "numbered_but (stop_waiting (lf_stop s)) getId uid (lf_sv s)" and w: "stop_waiting (lf_stop s) \<noteq> Some a"
      using that(2) c(2,3) by (simp_all add: life_ok_def)
    then have id: "getId c = (uid + a) mod 2 ^ 32" using c(1) by (auto simp: numbered_but_def)
    have "accounted uid (filter (\<lambda>e. fst e \<noteq> getId c) (sv_map (lf_sv s))) (dom (sv_objs (lf_sv s)))
        (skip_entry (getId c) (lf_stop s)) (Loop_delete a)"
      using that num assms(2) id by (intro accounted_erase) (auto simp: life_ok_def numbered_but_def intro: less_le_trans)
    with that(2) assms(2) show ?thesis
      unfolding c(4) life_ok_def by (auto simp: deleteConnect_def numbered_but_def)
  qed
  with assms(1) show ?thesis by (simp add: life_inv_def c(4) deleteConnect_def)
qed

lemma life_delete:
  assumes "life_inv getId uid s" and "lf_loop s = Loop_delete a" and "delete_conn clear a s = Inr t"
  shows "life_inv getId uid t"
proof -
  from assms(3) obtain m u where m: "lf_mem s a = Some m" "connect_free a m (connect_clear clear a m s) = Inr u"
    "t = u\<lparr>lf_loop := Loop_poll\<rparr>"
    by (auto simp: delete_conn_def map_sum_Inr split: option.splits)
  have u: "lf_sv u = (lf_sv s)\<lparr>sv_objs := (sv_objs (lf_sv s))(a := None)\<rparr>"
    using m(2) by (auto simp: connect_free_def connect_clear_def FdBridge_delete_def close_fd_def event_free_def Let_def split: option.splits)
  have "life_ok getId uid t" if "life_ok getId uid s"
  proof -
    note ok = that[unfolded life_ok_def]
    have h: "conns_hold (listen_fds (lf_stop s) (lf_listen s)) (lf_mem (connect_clear clear a m s))
        (lf_open (connect_clear clear a m s)) (lf_events (connect_clear clear a m s))"
      using ok hold_clear[of _ "lf_mem s" _ _ a m] m(1) by (simp add: connect_clear_def)
    from free_ok[OF h, of a "m\<lparr>cm_mgr := False\<rparr>" m] m(2)
    have f: "conns_hold (listen_fds (lf_stop s) (lf_listen s)) ((lf_mem s)(a := None)) (lf_open u) (lf_events u)"
      "lf_mem u = (lf_mem s)(a := None)" "lf_stop u = lf_stop s" "lf_exit u = lf_exit s" "lf_listen u = lf_listen s"
      "lf_ev u = lf_ev s" "lf_gone u = lf_gone s"
      by (auto simp: connect_clear_def)
    have "accounted uid (sv_map (lf_sv s)) (dom (sv_objs (lf_sv s)) - {a}) (lf_stop s) Loop_poll"
      using ok assms(2) by (intro accounted_delete) simp
    moreover have "numbered_but (stop_waiting (lf_stop s)) getId uid (lf_sv u)"
      using ok by (auto simp: u numbered_but_def)
    ultimately show ?thesis using ok f assms(2) unfolding life_ok_def m(3) by (auto simp: u)
  qed
  then show ?thesis using assms(1) unfolding life_inv_def by (simp add: m(3) u)
qed

lemma stop_wait_ok:
  assumes "life_ok getId uid s" and "lf_stop s = Stop_wait e es" and "stop_next clear s = Some (Inr t)"
  shows "life_ok getId uid t"
proof -
  note ok = assms(1)[unfolded life_ok_def]
  from assms(2,3) obtain m u where m: "\<not> in_callback (snd e) (lf_loop s)" "lf_mem s (snd e) = Some m"
    "connect_free (snd e) m s = Inr u" "t = u\<lparr>lf_stop := Stop_iter es\<rparr>"
    by (auto simp: stop_next_def map_sum_Inr split: option.splits if_splits)
  have "accounted uid (sv_map (lf_sv s)) (dom (sv_objs (lf_sv s)) - {snd e}) (Stop_iter es) (lf_loop s)"
    using ok m(1) assms(2) by (intro accounted_stopped) simp_all
  with ok free_ok[of "listen_fds (lf_stop s) (lf_listen s)" s "snd e" m m] m(2,3) assms(2) show ?thesis
    unfolding m(4) life_ok_def by (auto simp: listen_fds_def intro: numbered_freed)
qed

lemma life_stopping:
  assumes "life_inv getId uid s" and "stop_next clear s = Some (Inr t)"
  shows "life_inv getId uid t"
proof -
  have "sv_fresh (lf_sv t) = sv_fresh (lf_sv s)"
    using assms(2) by (auto simp: stop_next_def connect_free_def connect_clear_def FdBridge_delete_def
        close_fd_def event_free_def Let_def map_sum_Inr split: onstop_pc.splits list.splits option.splits if_splits)
  moreover have "life_ok getId uid t" if "life_ok getId uid s"
  proof -
    note ok = that[unfolded life_ok_def]
    show ?thesis
    proof (cases "lf_stop s")
      case Stop_none
      with ok assms(2) show ?thesis
        by (clarsimp simp: stop_next_def life_ok_def listen_fds_def accounted_pcs)
    next
      case (Stop_iter es)
      with assms(2) have "\<not> lf_gone s" by (auto simp: stop_next_def split: if_split_asm)
      with ok assms(2) Stop_iter show ?thesis
        by (cases es) (clarsimp simp: stop_next_def life_ok_def listen_fds_def accounted_pcs accounted_next)+
    next
      case (Stop_at e es)
      then obtain m where m: "lf_mem s (snd e) = Some m" "t = (connect_clear clear (snd e) m s)\<lparr>lf_stop := Stop_wait e es\<rparr>"
        using assms(2) by (auto simp: stop_next_def split: option.splits)
      have "dom ((lf_mem s)(snd e := Some (m\<lparr>cm_mgr := False\<rparr>))) = dom (lf_mem s)" using m(1) by auto
      moreover have "numbered_but (Some (snd e)) getId uid (lf_sv (connect_clear clear (snd e) m s))"
        using ok Stop_at numbered_cleared[of getId uid "lf_sv s" "snd e" clear] by (simp add: connect_clear_def)
      ultimately show ?thesis using ok Stop_at hold_clear[of _ "lf_mem s" _ _ "snd e" m] m(1)
        unfolding m(2) life_ok_def by (auto simp: listen_fds_def connect_clear_def intro: accounted_pcs)
    next
      case (Stop_wait e es)
      with stop_wait_ok[OF that _ assms(2)] show ?thesis by blast
    next
      case Stop_close
      with ok assms(2) hold_close[of "lf_listen s"] show ?thesis
        by (clarsimp simp: stop_next_def life_ok_def listen_fds_def close_fd_def accounted_pcs)
    next
      case Stop_exit
      with ok assms(2) show ?thesis by (clarsimp simp: stop_next_def life_ok_def listen_fds_def accounted_pcs)
    next
      case Stop_join
      with ok assms(2) show ?thesis
        by (clarsimp simp: stop_next_def life_ok_def listen_fds_def accounted_pcs split: if_split_asm)
    next
      case Stop_done
      with assms(2) show ?thesis by (simp add: stop_next_def)
    qed
  qed
  ultimately show ?thesis using assms(1) by (simp add: life_inv_def)
qed

lemma life_inv_step:
  assumes "life_inv getId uid s" and "life_step getId clear news rd s (Inr t)"
  shows "life_inv getId uid t"
  using assms(2)
proof (rule life_stepE)
  fix fd a assume d: "lf_loop s = Loop_poll" "(fd, a) \<in> set (lf_events s)" "Inr t = (Inr (s\<lparr>lf_loop := Loop_read a\<rparr>) :: fault + _)"
  have "life_ok getId uid t" if "life_ok getId uid s"
    using that event_live[OF that d(2)] d(1,3) by (auto simp: life_ok_def in_callback_def elim!: accounted_loop)
  with assms(1) d show ?thesis by (auto simp: life_inv_def)
next
  fix a c evs assume h: "lf_loop s = Loop_read a" "sv_objs (lf_sv s) a = Some c" "Inr t = (Inr (s\<lparr>lf_loop := Loop_stuck a\<rparr>) :: fault + _)"
  have "life_ok getId uid t" if "life_ok getId uid s"
    using that h by (auto simp: life_ok_def in_callback_def elim!: accounted_loop)
  with assms(1) h(3) show ?thesis by (auto simp: life_inv_def)
next
  assume "lf_loop s = Loop_poll" "lf_exit s" "Inr t = (Inr (s\<lparr>lf_loop := Loop_ended\<rparr>) :: fault + _)"
  with assms(1) show ?thesis by (auto simp: life_inv_def life_ok_def in_callback_def elim!: accounted_loop)
qed (use assms(1) in \<open>auto intro: life_accept life_read life_erase life_delete life_stopping\<close>)

section \<open>Faults, and the end of OnStop\<close>

lemma life_fault:
  assumes "life_ok getId uid s" and "life_step getId clear news rd s (Inl f)"
  shows "(\<exists>a c evs. lf_loop s = Loop_read a \<and> sv_objs (lf_sv s) a = Some c \<and> rd c evs = Some (Inl f)) \<or>
    f = Undef \<and> (lf_gone s \<or>
      (\<exists>a. stop_target (lf_stop s) = Some a \<and> (lf_loop s = Loop_failed a \<or> sv_objs (lf_sv s) a = None)))"
proof -
  note ok = assms(1)[unfolded life_ok_def]
  note dom = life_owned(2)[OF assms(1)]
  have ev: "cm_ev m = Some (cm_fd m, a)" if "lf_mem s a = Some m" for a m using ok that by (simp add: conns_hold_def)
  have cb: "sv_objs (lf_sv s) a \<noteq> None" if "in_callback a (lf_loop s)" for a
    using ok that by (auto simp: accounted_def)
  have "stop_target pc = Some a" if "stop_waiting pc = Some a" for pc a using that by (cases pc) auto
  then have mgr: "stop_target (lf_stop s) = Some a" if "lf_mem s a = Some m" "\<not> cm_mgr m" for a m using ok that by blast
  from assms(2) show ?thesis
  proof (rule life_stepE)
    fix a evs assume "lf_loop s = Loop_read a" "read_conn rd a evs s = Some (Inl f)"
    with cb[of a] show ?thesis
      by (auto simp: read_conn_def in_callback_def split: option.splits sum.splits)
  next
    fix a assume "lf_loop s = Loop_failed a" "Inl f = erase_conn getId a s"
    with cb[of a] dom[of a] mgr[of a] show ?thesis
      by (auto simp: erase_conn_def in_callback_def split: option.splits if_splits)
  next
    fix a assume "lf_loop s = Loop_delete a" "Inl f = delete_conn clear a s"
    with cb[of a] dom[of a] ev[of a] show ?thesis
      by (auto simp: delete_conn_def connect_free_def Let_def in_callback_def split: option.splits)
  next
    assume "stop_next clear s = Some (Inl f)"
    with dom ev show ?thesis
      by (auto simp: stop_next_def connect_free_def Let_def split: onstop_pc.splits list.splits option.splits if_splits)
  qed simp_all
qed

lemma life_done:
  assumes "life_ok getId uid s" and "lf_stop s = Stop_done"
  shows "lf_open s = [] \<and> lf_events s = [] \<and> sv_objs (lf_sv s) = (\<lambda>_. None)"
proof -
  note ok = assms(1)[unfolded life_ok_def]
  have loop: "lf_loop s = Loop_ended" using ok assms(2) by simp
  then have "dom (sv_objs (lf_sv s)) = {}" using ok assms(2) by (auto simp: accounted_def)
  then have o: "sv_objs (lf_sv s) = (\<lambda>_. None)" and m: "lf_mem s = (\<lambda>_. None)" using ok by simp_all
  have own: "owned {} (\<lambda>_. None) (lf_open s) (lf_events s)"
    using ok assms(2) by (simp add: conns_hold_def listen_fds_def m)
  have "lf_open s = []" using ownedD(3)[OF own] by (cases "lf_open s") auto
  moreover have "lf_events s = []" using ownedD(6)[OF own] by (cases "lf_events s") auto
  ultimately show ?thesis using o by simp
qed

text \<open>One round of the loop of \<open>OnStop\<close>, at a connection that no callback is at.\<close>

lemma stop_entry_done:
  assumes "life_ok getId uid s" and "\<not> lf_gone s" and "sv_fresh (lf_sv s) \<le> 2 ^ 32"
    and "lf_stop s = Stop_iter (e # es)" and "\<not> in_callback (snd e) (lf_loop s)"
  shows "\<exists>t. life_run getId clear news rd s t \<and> life_ok getId uid t \<and> \<not> lf_gone t \<and> sv_fresh (lf_sv t) \<le> 2 ^ 32 \<and>
    lf_loop t = lf_loop s \<and> lf_stop t = Stop_iter es"
proof -
  define s1 where "s1 = s\<lparr>lf_stop := Stop_at e es\<rparr>"
  have n1: "stop_next clear s = Some (Inr s1)" using assms by (simp add: stop_next_def s1_def)
  have keep: "life_ok getId uid t"
    if "life_ok getId uid s" "sv_fresh (lf_sv t) \<le> 2 ^ 32" "stop_next clear s = Some (Inr t)" for s t
    using life_stopping[of uid s clear t] that by (auto simp: life_inv_def)
  have k1: "life_ok getId uid s1" "\<not> lf_gone s1" "sv_fresh (lf_sv s1) \<le> 2 ^ 32" "lf_loop s1 = lf_loop s" "lf_stop s1 = Stop_at e es"
    using keep[OF assms(1) _ n1] assms by (simp_all add: s1_def)
  have live: "snd e \<in> dom (sv_objs (lf_sv s))" using assms(1,4) by (auto simp: life_ok_def accounted_def)
  then obtain m where m: "lf_mem s (snd e) = Some m" using assms(1) unfolding life_ok_def by (metis domD)
  define s2 where "s2 = (connect_clear clear (snd e) m s1)\<lparr>lf_stop := Stop_wait e es\<rparr>"
  have n2: "stop_next clear s1 = Some (Inr s2)" using m by (simp add: stop_next_def s1_def s2_def)
  have k2: "life_ok getId uid s2" "\<not> lf_gone s2" "sv_fresh (lf_sv s2) \<le> 2 ^ 32" "lf_loop s2 = lf_loop s"
    "lf_stop s2 = Stop_wait e es" "lf_mem s2 (snd e) = Some (m\<lparr>cm_mgr := False\<rparr>)"
    using keep[OF k1(1) _ n2] k1(2-4) by (simp_all add: s2_def connect_clear_def)
  from k2(1) have "conns_hold (listen_fds (lf_stop s2) (lf_listen s2)) (lf_mem s2) (lf_open s2) (lf_events s2)" by (simp add: life_ok_def)
  from free_ok[OF this k2(6), of "m\<lparr>cm_mgr := False\<rparr>"] obtain u where
    u: "connect_free (snd e) (m\<lparr>cm_mgr := False\<rparr>) s2 = Inr u" "lf_loop u = lf_loop s2" "sv_fresh (lf_sv u) = sv_fresh (lf_sv s2)"
      "lf_gone u = lf_gone s2" by auto
  define s3 where "s3 = u\<lparr>lf_stop := Stop_iter es\<rparr>"
  have n3: "stop_next clear s2 = Some (Inr s3)" using k2(2,4-6) u(1) assms(5) by (simp add: stop_next_def s3_def)
  have "life_ok getId uid s3" "\<not> lf_gone s3" "sv_fresh (lf_sv s3) \<le> 2 ^ 32" "lf_loop s3 = lf_loop s" "lf_stop s3 = Stop_iter es"
    using keep[OF k2(1) _ n3] k2(2-4) u(2-4) by (simp_all add: s3_def)
  then show ?thesis using stop_run[OF n1 stop_run[OF n2 stop_run[OF n3 rtranclp.rtrancl_refl]]] by blast
qed

lemma stuck_step:
  assumes "lf_loop s = Loop_stuck a" and "life_step getId clear news rd s (Inr t)"
  shows "lf_loop t = Loop_stuck a \<and> (lf_stop t = Stop_done \<longrightarrow> lf_stop s = Stop_done)"
  using assms(2)
proof (rule life_stepE)
  assume "stop_next clear s = Some (Inr t)"
  with assms(1) show ?thesis
    by (auto simp: stop_next_def connect_free_def connect_clear_def FdBridge_delete_def close_fd_def event_free_def Let_def
        map_sum_Inr split: onstop_pc.splits list.splits option.splits if_splits)
qed (use assms(1) in auto)

text \<open>A service whose thread has no callback to run is stopped to the end.\<close>

lemma stop_finishes:
  assumes "life_ok getId uid s" and "\<not> lf_gone s" and "sv_fresh (lf_sv s) \<le> 2 ^ 32" and "lf_loop s = Loop_poll"
    and "lf_stop s = Stop_iter es"
  shows "\<exists>t. life_run getId clear news rd s t \<and> lf_stop t = Stop_done"
  using assms
proof (induction es arbitrary: s)
  case Nil
  define s1 where "s1 = s\<lparr>lf_sv := (lf_sv s)\<lparr>sv_map := []\<rparr>, lf_stop := Stop_close\<rparr>"
  define s2 where "s2 = (close_fd (lf_listen s1) s1)\<lparr>lf_stop := Stop_exit\<rparr>"
  define s3 where "s3 = s2\<lparr>lf_exit := True, lf_stop := Stop_join\<rparr>"
  define s4 where "s4 = s3\<lparr>lf_loop := Loop_ended\<rparr>"
  define s5 where "s5 = s4\<lparr>lf_stop := Stop_done\<rparr>"
  have n: "stop_next clear s = Some (Inr s1)" "stop_next clear s1 = Some (Inr s2)" "stop_next clear s2 = Some (Inr s3)"
    "stop_next clear s4 = Some (Inr s5)"
    using Nil.prems by (simp_all add: stop_next_def s1_def s2_def s3_def s4_def s5_def)
  have "life_step getId clear news rd s3 (Inr s4)"
    unfolding s4_def by (rule lf_leave) (use Nil.prems in \<open>simp_all add: s3_def s2_def s1_def close_fd_def\<close>)
  from stop_run[OF n(1) stop_run[OF n(2) stop_run[OF n(3) step_run[OF this stop_run[OF n(4) rtranclp.rtrancl_refl]]]]]
  show ?case by (intro exI[of _ s5]) (simp add: s5_def)
next
  case (Cons e es)
  obtain t where t: "life_run getId clear news rd s t" "life_ok getId uid t" "\<not> lf_gone t" "sv_fresh (lf_sv t) \<le> 2 ^ 32"
    "lf_loop t = Loop_poll" "lf_stop t = Stop_iter es"
    using stop_entry_done[OF Cons.prems(1-3,5), of clear] Cons.prems(4) by (auto simp: in_callback_def)
  from Cons.IH[OF t(2-6)] t(1) show ?case by (meson rtranclp_trans)
qed

section \<open>OnStop beside a callback that fails\<close>

lemma stop_comes_to:
  assumes "life_ok getId uid s" and "\<not> lf_gone s" and "sv_fresh (lf_sv s) \<le> 2 ^ 32"
    and "lf_loop s = Loop_failed a" and "lf_stop s = Stop_iter es" and "a \<in> snd ` set es"
  shows "\<exists>t i ys. life_run getId clear news rd s t \<and> lf_stop t = Stop_at (i, a) ys \<and> lf_loop t = Loop_failed a \<and>
    life_ok getId uid t"
  using assms
proof (induction es arbitrary: s)
  case (Cons e es)
  show ?case
  proof (cases "snd e = a")
    case True
    define s1 where "s1 = s\<lparr>lf_stop := Stop_at e es\<rparr>"
    have n1: "stop_next clear s = Some (Inr s1)" using Cons.prems by (simp add: stop_next_def s1_def)
    have "life_ok getId uid s1"
      using life_stopping[of uid s clear s1] n1 Cons.prems(1,3) by (simp add: life_inv_def s1_def)
    then show ?thesis using True Cons.prems(4) stop_run[OF n1 rtranclp.rtrancl_refl]
      by (intro exI[of _ s1] exI[of _ "fst e"] exI[of _ es]) (auto simp: s1_def)
  next
    case False
    then obtain t where t: "life_run getId clear news rd s t" "life_ok getId uid t" "\<not> lf_gone t" "sv_fresh (lf_sv t) \<le> 2 ^ 32"
      "lf_loop t = Loop_failed a" "lf_stop t = Stop_iter es"
      using stop_entry_done[OF Cons.prems(1-3,5), of clear] Cons.prems(4) by (auto simp: in_callback_def)
    have "a \<in> snd ` set es" using Cons.prems(6) False by auto
    from Cons.IH[OF t(2-6) this] t(1) show ?thesis by (meson rtranclp_trans)
  qed
qed simp

lemma target_faults:
  assumes "life_ok getId uid s" and "lf_stop s = Stop_at (i, a) ys" and "lf_loop s = Loop_failed a"
  shows "\<exists>t. life_run getId clear news rd s t \<and> lf_loop t = Loop_failed a \<and> life_step getId clear news rd t (Inl Undef)"
    and "\<exists>t. life_run getId clear news rd s t \<and> sv_objs (lf_sv t) a = None \<and> life_step getId clear news rd t (Inl Undef)"
proof -
  note ok = assms(1)[unfolded life_ok_def]
  have "a \<in> dom (sv_objs (lf_sv s))" using ok assms(3) by (simp add: accounted_def in_callback_def)
  then obtain c m where c: "sv_objs (lf_sv s) a = Some c" "lf_mem s a = Some m" using ok by (metis domD)
  then have m: "cm_mgr m" "cm_ev m = Some (cm_fd m, a)" using ok assms(2) by (fastforce simp: conns_hold_def)+
  let ?t = "(connect_clear clear a m s)\<lparr>lf_stop := Stop_wait (i, a) ys\<rparr>"
  have "stop_next clear s = Some (Inr ?t)" using assms(2) c(2) by (simp add: stop_next_def)
  then have run: "life_run getId clear news rd s ?t" by (rule stop_run) simp
  have "erase_conn getId a ?t = Inl Undef" using c by (simp add: erase_conn_def connect_clear_def)
  moreover have loop: "lf_loop ?t = Loop_failed a" using assms(3) by (simp add: connect_clear_def)
  ultimately have "life_step getId clear news rd ?t (Inl Undef)" using lf_erase[of ?t a getId clear news rd] by simp
  with run loop show "\<exists>t. life_run getId clear news rd s t \<and> lf_loop t = Loop_failed a \<and> life_step getId clear news rd t (Inl Undef)" by blast
  obtain v where v: "erase_conn getId a s = Inr v" "lf_loop v = Loop_delete a" "lf_mem v = lf_mem s"
    "\<exists>ys'. lf_stop v = Stop_at (i, a) ys'"
    using c m(1) assms(2) by (simp add: erase_conn_def)
  obtain u where u: "delete_conn clear a v = Inr u" "lf_mem u a = None" "sv_objs (lf_sv u) a = None" "lf_stop u = lf_stop v"
    using v(3) c(2) m(2)
    by (simp add: delete_conn_def connect_free_def connect_clear_def FdBridge_delete_def close_fd_def event_free_def Let_def)
  have "life_step getId clear news rd s (Inr v)" using lf_erase[OF assms(3), of getId clear news rd] v(1) by simp
  moreover have "life_step getId clear news rd v (Inr u)" using lf_delete[OF v(2), of getId clear news rd] u(1) by simp
  ultimately have "life_run getId clear news rd s u" by (meson converse_rtranclp_into_rtranclp rtranclp.rtrancl_refl)
  moreover have "life_step getId clear news rd u (Inl Undef)"
    using u(2,4) v(4) by (intro lf_stopping) (auto simp: stop_next_def)
  ultimately show "\<exists>t. life_run getId clear news rd s t \<and> sv_objs (lf_sv t) a = None \<and> life_step getId clear news rd t (Inl Undef)"
    using u(3) by blast
qed

lemma stop_race:
  assumes "life_inv getId uid s" and "sv_fresh (lf_sv s) \<le> 2 ^ 32" and "lf_loop s = Loop_poll" and "lf_stop s = Stop_none"
    and "sv_objs (lf_sv s) a = Some c" and "rd c evs = Some (Inr (c', ret))" and "ret < 0"
  shows "\<exists>t. life_run getId clear news rd s t \<and> lf_loop t = Loop_failed a \<and> life_step getId clear news rd t (Inl Undef)"
    and "\<exists>t. life_run getId clear news rd s t \<and> sv_objs (lf_sv t) a = None \<and> life_step getId clear news rd t (Inl Undef)"
proof -
  have ok: "life_ok getId uid s" using assms(1,2) by (simp add: life_inv_def)
  then obtain fd where ev: "(fd, a) \<in> set (lf_events s)" using live_event[of getId uid s a] assms(5) by blast
  have a: "a \<in> snd ` set (sv_map (lf_sv s))" using ok assms(3-5) by (auto simp: life_ok_def accounted_def)
  define s1 where "s1 = s\<lparr>lf_loop := Loop_read a\<rparr>"
  define s2 where "s2 = s1\<lparr>lf_sv := (lf_sv s)\<lparr>sv_objs := (sv_objs (lf_sv s))(a := Some c')\<rparr>, lf_loop := Loop_failed a\<rparr>"
  define s3 where "s3 = s2\<lparr>lf_ev := False, lf_stop := Stop_iter (sv_map (lf_sv s))\<rparr>"
  have st: "life_step getId clear news rd s (Inr s1)" unfolding s1_def using assms(3) ev by (rule lf_dispatch)
  have "read_conn rd a evs s1 = Some (Inr s2)" using assms(5-7) by (simp add: read_conn_def s1_def s2_def)
  then have st2: "life_step getId clear news rd s1 (Inr s2)" by (intro lf_read[of s1 a]) (simp_all add: s1_def)
  have "stop_next clear s2 = Some (Inr s3)" using assms(4) by (simp add: stop_next_def s1_def s2_def s3_def)
  then have st3: "life_step getId clear news rd s2 (Inr s3)" by (rule lf_stopping)
  from life_inv_step[OF life_inv_step[OF life_inv_step[OF assms(1) st] st2] st3]
  have "life_ok getId uid s3" using assms(2) by (simp add: life_inv_def s1_def s2_def s3_def)
  moreover have "\<not> lf_gone s3" using ok assms(4) by (simp add: life_ok_def s1_def s2_def s3_def)
  ultimately obtain t i ys where t: "life_run getId clear news rd s3 t" "lf_stop t = Stop_at (i, a) ys" "lf_loop t = Loop_failed a"
    "life_ok getId uid t"
    using stop_comes_to[of uid s3 a "sv_map (lf_sv s)" clear] assms(2) a by (auto simp: s1_def s2_def s3_def)
  have run: "life_run getId clear news rd s t"
    using st st2 st3 t(1) by (meson converse_rtranclp_into_rtranclp)
  from target_faults[OF t(4,2,3)] run
  show "\<exists>t. life_run getId clear news rd s t \<and> lf_loop t = Loop_failed a \<and> life_step getId clear news rd t (Inl Undef)"
    and "\<exists>t. life_run getId clear news rd s t \<and> sv_objs (lf_sv t) a = None \<and> life_step getId clear news rd t (Inl Undef)"
    by (meson rtranclp_trans)+
qed

end

sublocale connection_class \<subseteq> life: step_invariant "\<lambda>s t. life_step getId clear news rd s (Inr t)" "life_inv getId uid"
  for clear by unfold_locales (rule life_inv_step)

section \<open>The two services\<close>

lemma life_start:
  assumes "sv_objs sv = (\<lambda>_. None)" and "sv_map sv = []" and "sv_fresh sv = 0" and "sv_next sv = uid" and "uid < 2 ^ 32"
  shows "life_inv getId uid (life_new listenfd sv)"
  using assms
  by (simp add: life_inv_def numbered_but_def life_ok_def life_new_def conns_hold_def owned_def accounted_def listen_fds_def in_callback_def)

abbreviation ws_life_step :: "allocator \<Rightarrow> sha1_context \<Rightarrow> ws_service life \<Rightarrow> fault + ws_service life \<Rightarrow> bool" where
  "ws_life_step malloc ctx \<equiv> life_step wc_id ws_clear (range WsConnect_new) (ws_conn_read malloc ctx)"

abbreviation tcp_life_step :: "tcp_conn service life \<Rightarrow> fault + tcp_conn service life \<Rightarrow> bool" where
  "tcp_life_step \<equiv> life_step tc_id tcp_clear (range TcpConnect_new) tcp_conn_read"

lemma ws_life:
  assumes "(\<lambda>s t. ws_life_step malloc ctx s (Inr t))\<^sup>*\<^sup>* (life_new listenfd WsService_new) s"
  shows "life_inv wc_id 0 s"
  by (rule ws.life.inv_run[OF assms]) (rule life_start; simp add: WsService_new_def)

lemma tcp_life:
  assumes "(\<lambda>s t. tcp_life_step s (Inr t))\<^sup>*\<^sup>* (life_new listenfd (service_new uid)) s" and "uid < 2 ^ 32"
  shows "life_inv tc_id uid s"
  by (rule tcp.life.inv_run[OF assms(1)], rule life_start) (use assms(2) in \<open>simp_all add: service_new_def\<close>)

lemma ws_resources:
  assumes "(\<lambda>s t. ws_life_step malloc ctx s (Inr t))\<^sup>*\<^sup>* (life_new listenfd WsService_new) s" and "sv_fresh (lf_sv s) \<le> 2 ^ 32"
  shows "life_ok wc_id 0 s"
  using ws_life[OF assms(1)] assms(2) by (simp add: life_inv_def)

text \<open>
  C20. Whatever connections come, fail and are read, and wherever \<open>OnStop\<close> is in the other thread, for up to \<open>2^32\<close>
  connections: the open descriptors are the listening one until \<open>OnStop\<close> has closed it and one of each live connection;
  the events of the loop are that of the listener until \<open>OnStop\<close> is called and one of each live connection on its own
  descriptor, so that no descriptor is lost and no callback starts with a connection that has been deleted; when
  \<open>OnStop\<close> has returned nothing is open and nothing is left. A step outside the parser whose behaviour is undefined
  comes of \<open>OnStop\<close> and a callback at one connection: \<open>OnStop\<close> is deleting the connection that the callback has seen
  fail or has deleted, or the callback has erased the entry on which the loop of \<open>OnStop\<close> stands. Each step is
  executed as a whole; the data races between them are not what is meant.
\<close>

theorem ws_service_resources:
  assumes "(\<lambda>s t. ws_life_step malloc ctx s (Inr t))\<^sup>*\<^sup>* (life_new listenfd WsService_new) s"
    and "sv_fresh (lf_sv s) \<le> 2 ^ 32"
  shows "(\<forall>a. lf_mem s a = None \<longleftrightarrow> sv_objs (lf_sv s) a = None) \<and>
    owned (listen_fds (lf_stop s) (lf_listen s)) (\<lambda>a. map_option cm_fd (lf_mem s a)) (lf_open s) (lf_events s) \<and>
    (lf_ev s \<longleftrightarrow> lf_stop s = Stop_none) \<and>
    (lf_stop s = Stop_done \<longrightarrow> lf_open s = [] \<and> lf_events s = [] \<and> sv_objs (lf_sv s) = (\<lambda>_. None)) \<and>
    (\<forall>f. ws_life_step malloc ctx s (Inl f) \<longrightarrow>
      (\<exists>a c evs. lf_loop s = Loop_read a \<and> sv_objs (lf_sv s) a = Some c \<and> ws_conn_read malloc ctx c evs = Some (Inl f)) \<or>
      f = Undef \<and> (lf_gone s \<or>
        (\<exists>a. stop_target (lf_stop s) = Some a \<and> (lf_loop s = Loop_failed a \<or> sv_objs (lf_sv s) a = None))))"
proof -
  note ok = ws_resources[OF assms]
  then have "lf_ev s \<longleftrightarrow> lf_stop s = Stop_none" by (simp add: life_ok_def)
  with life_owned[OF ok] ws.life_done[OF ok] ws.life_fault[OF ok, of ws_clear malloc ctx] show ?thesis by blast
qed

lemma ws_whole_run:
  "\<exists>s. (\<lambda>s t. ws_life_step malloc ctx s (Inr t))\<^sup>*\<^sup>* (life_new 3 WsService_new) s \<and>
    sv_fresh (lf_sv s) = 1 \<and> lf_stop s = Stop_done"
proof -
  let ?new = "WsConnect_new (WsStickyWrap_new 0 [] [] [] [])"
  define s0 :: "ws_service life" where "s0 = life_new 3 WsService_new"
  define s1 where "s1 = accept_conn wc_id ?new 5 0 s0"
  define s2 where "s2 = s1\<lparr>lf_ev := False, lf_stop := Stop_iter [(0, 0)]\<rparr>"
  define s3 where "s3 = s2\<lparr>lf_stop := Stop_at (0, 0) []\<rparr>"
  define s4 where "s4 = (connect_clear ws_clear 0 \<lparr>cm_fd = 5, cm_ev = Some (5, 0), cm_mgr = True\<rparr> s3)\<lparr>lf_stop := Stop_wait (0, 0) []\<rparr>"
  obtain s5 where s5: "connect_free 0 \<lparr>cm_fd = 5, cm_ev = Some (5, 0), cm_mgr = False\<rparr> s4 = Inr s5"
    "lf_loop s5 = Loop_poll" "sv_fresh (lf_sv s5) = 1" "\<not> lf_gone s5"
    by (simp add: connect_free_def FdBridge_delete_def close_fd_def event_free_def s4_def s3_def s2_def s1_def s0_def life_new_def
        accept_conn_def connect_clear_def Let_def doAccept_def NewConnect_def Make_uniqueId_def WsService_new_def)
  define s6 where "s6 = s5\<lparr>lf_stop := Stop_iter []\<rparr>"
  define s7 where "s7 = s6\<lparr>lf_sv := (lf_sv s6)\<lparr>sv_map := []\<rparr>, lf_stop := Stop_close\<rparr>"
  define s8 where "s8 = (close_fd (lf_listen s7) s7)\<lparr>lf_stop := Stop_exit\<rparr>"
  define s9 where "s9 = s8\<lparr>lf_exit := True, lf_stop := Stop_join\<rparr>"
  define s10 where "s10 = s9\<lparr>lf_loop := Loop_ended\<rparr>"
  define s11 where "s11 = s10\<lparr>lf_stop := Stop_done\<rparr>"
  have fin: "lf_loop s9 = Loop_poll" "lf_exit s9" "sv_fresh (lf_sv s11) = 1" "lf_stop s11 = Stop_done"
    using s5(2,3) by (simp_all add: s6_def s7_def s8_def s9_def s10_def s11_def close_fd_def)
  have n0: "ws_life_step malloc ctx s0 (Inr s1)"
    unfolding s1_def by (rule lf_accept) (simp_all add: s0_def life_new_def)
  have n1: "stop_next ws_clear s1 = Some (Inr s2)" "stop_next ws_clear s2 = Some (Inr s3)" "stop_next ws_clear s3 = Some (Inr s4)" "stop_next ws_clear s4 = Some (Inr s6)"
    using s5(1)
    by (simp_all add: stop_next_def s0_def s1_def s2_def s3_def s4_def s6_def life_new_def accept_conn_def connect_clear_def Let_def
        doAccept_def NewConnect_def Make_uniqueId_def map_insert_def WsService_new_def WsConnect_new_def in_callback_def)
  have n2: "stop_next ws_clear s6 = Some (Inr s7)" "stop_next ws_clear s7 = Some (Inr s8)" "stop_next ws_clear s8 = Some (Inr s9)" "stop_next ws_clear s10 = Some (Inr s11)"
    using s5(4) by (simp_all add: stop_next_def s6_def s7_def s8_def s9_def s10_def s11_def)
  have n3: "ws_life_step malloc ctx s9 (Inr s10)" unfolding s10_def using fin(1,2) by (rule lf_leave)
  note tail = step_run[OF n3 stop_run[OF n2(4) rtranclp.rtrancl_refl]]
  have "(\<lambda>s t. ws_life_step malloc ctx s (Inr t))\<^sup>*\<^sup>* s0 s11"
    by (rule step_run[OF n0 stop_run[OF n1(1) stop_run[OF n1(2) stop_run[OF n1(3) stop_run[OF n1(4)
        stop_run[OF n2(1) stop_run[OF n2(2) stop_run[OF n2(3) tail]]]]]]]])
  with fin(3,4) show ?thesis unfolding s0_def by blast
qed

theorem ws_service_resources_witness:
  "\<exists>s. (\<lambda>s t. ws_life_step zero_alloc raw_context s (Inr t))\<^sup>*\<^sup>* (life_new 3 WsService_new) s \<and> lf_stop s = Stop_done \<and>
    lf_open s = []"
proof -
  obtain s where s: "(\<lambda>s t. ws_life_step zero_alloc raw_context s (Inr t))\<^sup>*\<^sup>* (life_new 3 WsService_new) s"
    "sv_fresh (lf_sv s) = 1" "lf_stop s = Stop_done"
    using ws_whole_run by blast
  from ws_service_resources[OF s(1)] s show ?thesis by auto
qed

text \<open>
  C21. A connection of the TCP service whose read fails when \<open>OnStop\<close> is called from another thread: both orders of the
  two deletions can lead to undefined behaviour. Either the callback takes the manager from a connection whose
  destructor has already reset it, or \<open>OnStop\<close> deletes a connection that the callback has deleted.
\<close>

theorem tcp_stop_race:
  assumes "(\<lambda>s t. tcp_life_step s (Inr t))\<^sup>*\<^sup>* (life_new listenfd (service_new uid)) s" and "uid < 2 ^ 32"
    and "sv_fresh (lf_sv s) \<le> 2 ^ 32" and "lf_loop s = Loop_poll" and "lf_stop s = Stop_none"
    and "sv_objs (lf_sv s) a = Some c" and "tcp_conn_read c evs = Some (Inr (c', ret))" and "ret < 0"
  shows "(\<exists>t. (\<lambda>s t. tcp_life_step s (Inr t))\<^sup>*\<^sup>* s t \<and> lf_loop t = Loop_failed a \<and> tcp_life_step t (Inl Undef)) \<and>
    (\<exists>t. (\<lambda>s t. tcp_life_step s (Inr t))\<^sup>*\<^sup>* s t \<and> sv_objs (lf_sv t) a = None \<and> tcp_life_step t (Inl Undef))"
  using tcp.stop_race[OF tcp_life[OF assms(1,2)] assms(3-8)] by blast

lemma tcp_read_eof: "tcp_conn_read (TcpConnect_new mem i) [Rx_eof] = Some (Inr (TcpConnect_new mem i, -1))"
proof -
  have "fd_read_loop (memoryBuff_new 2) [Rx_eof] = Inr (memoryBuff_new 2, [Rx_eof], [], Fd_fail)"
    by (subst fd_read_loop.simps) (simp add: GetWriteBuff_def new_buff ListNode_new_def)
  then show ?thesis
    by (simp add: tcp_conn_read_def conn_result_def tcp_read_def fd_read_def TcpConnect_new_def)
qed

theorem tcp_stop_race_witness:
  "\<exists>s t. (\<lambda>s t. tcp_life_step s (Inr t))\<^sup>*\<^sup>* (life_new 3 (service_new 7)) s \<and> lf_stop s = Stop_none \<and>
    (\<lambda>s t. tcp_life_step s (Inr t))\<^sup>*\<^sup>* s t \<and> tcp_life_step t (Inl Undef)"
proof -
  let ?s = "accept_conn tc_id (TcpConnect_new []) 5 0 (life_new 3 (service_new 7))"
  have "tcp_life_step (life_new 3 (service_new 7)) (Inr ?s)"
    by (rule lf_accept) (simp_all add: life_new_def)
  then have "(\<lambda>s t. tcp_life_step s (Inr t))\<^sup>*\<^sup>* (life_new 3 (service_new 7)) ?s" by (rule r_into_rtranclp)
  moreover have "sv_fresh (lf_sv ?s) = 1" "lf_loop ?s = Loop_poll" "lf_stop ?s = Stop_none"
    "sv_objs (lf_sv ?s) 0 = Some (TcpConnect_new [] 7)"
    by (simp_all add: accept_conn_def life_new_def Let_def doAccept_def NewConnect_def Make_uniqueId_def service_new_def)
  ultimately show ?thesis
    using tcp_stop_race[of 3 7 ?s 0 "TcpConnect_new [] 7" "[Rx_eof]" "TcpConnect_new [] 7" "-1"] tcp_read_eof[of "[]" 7] by auto
qed

end
