(* ===== verification/WsSticky_Correct.thy ===== *)
theory WsSticky_Correct
  imports WsSticky
begin

text \<open>
  The frame parser on whole frames, on incomplete ones, and the frames sent to the client,
  against RFC 6455.
\<close>

section \<open>Masking\<close>

fun mask_from :: "nat \<Rightarrow> u8 list \<Rightarrow> u8 list \<Rightarrow> u8 list" where
  "mask_from i key [] = []"
| "mask_from i key (b # bs) = xor b (key ! (i mod 4)) # mask_from (Suc i) key bs"

lemma length_mask_from [simp]: "length (mask_from i key bs) = length bs"
  by (induction bs arbitrary: i) simp_all

lemma mask_from_twice [simp]: "mask_from i key (mask_from i key bs) = bs"
  by (induction bs arbitrary: i) (simp_all add: xor.assoc)

lemma unmask_loop_bytes:
  "length pre = p \<Longrightarrow> wd_data d = pre @ bs @ tail \<Longrightarrow> wh_len (wd_head d) = of_nat (wd_parse_Index d + length bs) \<Longrightarrow>
   wd_parse_Index d + length bs < 65536 \<Longrightarrow> 0xFF \<notin> set bs \<Longrightarrow> len = readlen + int (length bs) \<Longrightarrow>
   unmask_loop p len readlen d =
     Inr (d\<lparr>wd_data := pre @ mask_from (wd_parse_Index d) (wh_masks (wd_head d)) bs @ tail,
            wd_parse_Index := wd_parse_Index d + length bs\<rparr>, len)"
proof (induction bs arbitrary: pre p readlen d)
  case Nil
  then show ?case by (subst unmask_loop.simps) simp
next
  case (Cons b bs)
  let ?i = "wd_parse_Index d" and ?k = "wh_masks (wd_head d)"
  let ?d = "d\<lparr>wd_data := pre @ xor b (?k ! (?i mod 4)) # bs @ tail, wd_parse_Index := Suc ?i\<rparr>"
  have lt: "of_nat ?i < (of_nat (?i + length (b # bs)) :: u64)"
    using Cons.prems(4) by (simp add: word_less_nat_alt unat_of_nat del: of_nat_add of_nat_Suc)
  have "unmask_loop p len readlen d = unmask_loop (Suc p) len (readlen + 1) ?d"
    using Cons.prems lt
    by (subst unmask_loop.simps) (simp add: nth_append list_update_append)
  also have "\<dots> = Inr (?d\<lparr>wd_data := (pre @ [xor b (?k ! (?i mod 4))]) @ mask_from (Suc ?i) ?k bs @ tail,
            wd_parse_Index := Suc ?i + length bs\<rparr>, len)"
    using Cons.IH[of "pre @ [xor b (?k ! (?i mod 4))]" "Suc p" ?d "readlen + 1"] Cons.prems by simp
  finally show ?case by simp
qed

lemma unmask_loop_stops:
  "length pre = p \<Longrightarrow> wd_data d = pre @ bs @ tail \<Longrightarrow> wh_len (wd_head d) = of_nat (wd_parse_Index d + length bs) \<Longrightarrow>
   wd_parse_Index d + length bs < 65536 \<Longrightarrow> 0xFF \<in> set bs \<Longrightarrow> len = readlen + int (length bs) \<Longrightarrow>
   \<exists>m i. unmask_loop p len readlen d = Inr (d\<lparr>wd_data := m, wd_parse_Index := i\<rparr>, -1)"
proof (induction bs arbitrary: pre p readlen d)
  case (Cons b bs)
  let ?i = "wd_parse_Index d" and ?k = "wh_masks (wd_head d)"
  let ?d = "d\<lparr>wd_data := pre @ xor b (?k ! (?i mod 4)) # bs @ tail, wd_parse_Index := Suc ?i\<rparr>"
  have lt: "of_nat ?i < (of_nat (?i + length (b # bs)) :: u64)"
    using Cons.prems(4) by (simp add: word_less_nat_alt unat_of_nat del: of_nat_add of_nat_Suc)
  show ?case
  proof (cases "b = 0xFF")
    case True
    then have "unmask_loop p len readlen d = Inr (d\<lparr>wd_data := wd_data d, wd_parse_Index := wd_parse_Index d\<rparr>, -1)"
      using Cons.prems lt by (subst unmask_loop.simps) (simp add: nth_append)
    then show ?thesis by blast
  next
    case False
    then have "unmask_loop p len readlen d = unmask_loop (Suc p) len (readlen + 1) ?d"
      using Cons.prems lt by (subst unmask_loop.simps) (simp add: nth_append list_update_append)
    moreover have "\<exists>m i. unmask_loop (Suc p) len (readlen + 1) ?d = Inr (?d\<lparr>wd_data := m, wd_parse_Index := i\<rparr>, -1)"
      by (rule Cons.IH[of "pre @ [xor b (?k ! (?i mod 4))]"]) (use Cons.prems False in simp_all)
    ultimately show ?thesis by auto
  qed
qed simp

section \<open>A frame of a client\<close>

definition frame_head :: "nat \<Rightarrow> nat \<Rightarrow> u8 list" where
  "frame_head op n = [or 128 (of_nat op), or 128 (of_nat n)]"

definition client_frame :: "nat \<Rightarrow> u8 list \<Rightarrow> u8 list \<Rightarrow> u8 list" where
  "client_frame op key payload = frame_head op (length payload) @ key @ mask_from 0 key payload"

lemma less_16: "(op :: nat) < 16 \<longleftrightarrow> op \<in> {0, 1, 2, 3, 4, 5, 6, 7, 8, 9, 10, 11, 12, 13, 14, 15}"
  by (simp, presburger)

lemma head_fin: "op < 16 \<Longrightarrow> ws_fin (or 128 (of_nat op), c)"
  by (simp add: ws_fin_def bit_or_iff)

lemma head_opcod: "op < 16 \<Longrightarrow> ws_opcod (or 128 (of_nat op), c) = op"
  unfolding less_16 ws_opcod_def by (elim insertE emptyE) simp_all

lemma head_payLoad: "n < 128 \<Longrightarrow> ws_payLoad (c, or 128 (of_nat n)) = n"
  by (simp add: ws_payLoad_def take_bit_or take_bit_of_nat take_bit_nat_eq_self unat_of_nat)

section \<open>A connection between frames\<close>

text \<open>
  \<open>ws_quiet old w\<close>: every frame so far has been parsed, and \<open>old\<close> is what the connection's memory
  still holds of them.
\<close>

definition ws_quiet :: "u8 list \<Rightarrow> ws_wrap \<Rightarrow> bool" where
  "ws_quiet old w \<longleftrightarrow> wd_Op (ws_d w) = INIT_HEAD \<and> wd_Data_cap (ws_d w) = 8192 \<and>
     wd_Data_size (ws_d w) = length old \<and> wd_Read_size (ws_d w) = length old \<and>
     (\<exists>tail. wd_data (ws_d w) = old @ tail \<and> length old + length tail = 8192)"

lemma ws_quiet_new: "length mem = 8192 \<Longrightarrow> ws_quiet [] (WsStickyWrap_new l m mem pm txs)"
  by (simp add: ws_quiet_def WsStickyWrap_new_def WsDealWith_new_def)

text \<open>The frame parser's state after \<open>k\<close> bytes of the frame at \<open>p\<close>.\<close>

definition at_byte :: "nat \<Rightarrow> nat \<Rightarrow> u64 \<Rightarrow> u8 list \<Rightarrow> op_state \<Rightarrow> nat \<Rightarrow> u8 list \<Rightarrow> ws_wrap \<Rightarrow> ws_wrap" where
  "at_byte p k len masks op idx m w =
     w\<lparr>ws_d := (ws_d w)\<lparr>wd_head := \<lparr>wh_wbs = Some p, wh_len = len, wh_masks = masks\<rparr>, wd_data := m,
       wd_parse_Index := idx, wd_Op := op, wd_Read_size := p + k\<rparr>\<rparr>"

lemma ws_loop_next:
  "ws_round malloc mk w = Some (Inr (w', Ctl_next)) \<Longrightarrow>
   ws_loop malloc mk w =
     (if wd_Read_size (ws_d w') < wd_Data_size (ws_d w') then ws_loop malloc mk w' else Some (Inr (w', None)))"
  by (subst ws_loop.simps) simp

text \<open>A frame stored behind \<open>old\<close>, with \<open>total\<close> bytes in the memory.\<close>

definition stored :: "u8 list \<Rightarrow> u8 list \<Rightarrow> ws_wrap \<Rightarrow> ws_wrap" where
  "stored old xs w = w\<lparr>ws_d := (ws_d w)\<lparr>
     wd_data := old @ xs @ drop (length old + length xs) (wd_data (ws_d w)), wd_Data_size := length old + length xs\<rparr>\<rparr>"

lemma ws_readData_stored:
  assumes "ws_quiet old w" and "xs \<noteq> []"
  shows "ws_readData malloc mk xs w =
    (if length old + length xs < 8192 then
       (case ws_loop malloc mk (stored old xs w) of
          None \<Rightarrow> None
        | Some (Inl f) \<Rightarrow> Some (Inl f)
        | Some (Inr (w', Some n)) \<Rightarrow> Some (Inr (w', n))
        | Some (Inr (w', None)) \<Rightarrow> Some (Inr (w', int (length xs))))
     else Some (Inr (w, -1)))"
  using assms by (auto simp: ws_readData_def ws_quiet_def stored_def mem_write_def Let_def)

lemma round_init:
  assumes "ws_quiet old w" and "length old + length (b0 # b1 # rest) < 8192"
    and "s = stored old (b0 # b1 # rest) w"
  shows "ws_round malloc mk s = Some (Inr (at_byte (length old) 2 0 (replicate 4 0) READ_PAYLOAD 0 (wd_data (ws_d s)) s, Ctl_next))"
  using assms
  by (auto simp: ws_round_def parseWsHead_def parse_init_def ws_quiet_def stored_def at_byte_def ws_headSize_def
      ws_base_at_def mem_read_def Let_def)

lemma round_payload:
  assumes "ws_quiet old w" and "length old + length (b0 # b1 # rest) < 8192" and "rest \<noteq> []"
    and "ws_payLoad (b0, b1) < 126" and "s = stored old (b0 # b1 # rest) w"
  shows "ws_round malloc mk (at_byte (length old) 2 0 ks READ_PAYLOAD 0 (wd_data (ws_d s)) s) =
    Some (Inr (at_byte (length old) 2 (of_nat (ws_payLoad (b0, b1))) ks READ_MASK_KEY 0 (wd_data (ws_d s)) s, Ctl_next))"
  using assms
  by (auto simp: ws_round_def parseWsHead_def parse_payload_def ws_quiet_def stored_def at_byte_def
      ws_base_at_def mem_read_def Let_def)

lemma round_mask_key:
  assumes "ws_quiet old w" and "length old + length (b0 # b1 # key @ rest) < 8192" and "length key = 4"
    and "s = stored old (b0 # b1 # key @ rest) w"
  shows "ws_round malloc mk (at_byte (length old) 2 len ks READ_MASK_KEY 0 (wd_data (ws_d s)) s) =
    Some (Inr (at_byte (length old) 6 len key READ_DATA 0 (wd_data (ws_d s)) s, Ctl_next))"
  using assms
  by (auto simp: ws_round_def parseWsHead_def parse_mask_key_def ws_quiet_def stored_def at_byte_def
      ws_base_at_def mem_read_def Let_def)

lemma round_data:
  assumes "ws_quiet old w" and "length old + length (b0 # b1 # key @ body) < 8192" and "length key = 4" and "body \<noteq> []"
    and "0xFF \<notin> set body" and "s = stored old (b0 # b1 # key @ body) w"
    and "s' = at_byte (length old) (6 + length body) (of_nat (length body)) key INIT_HEAD (length body)
      (old @ b0 # b1 # key @ mask_from 0 key body @ drop (length old + (6 + length body)) (wd_data (ws_d w))) s"
  shows "ws_round malloc mk (at_byte (length old) 6 (of_nat (length body)) key READ_DATA 0 (wd_data (ws_d s)) s) =
    (if ws_fin (b0, b1) then ws_frame_done malloc mk (b0, b1) s' else Some (Inr (s', Ctl_next)))"
proof -
  let ?d = "ws_d (at_byte (length old) 6 (of_nat (length body)) key READ_DATA 0 (wd_data (ws_d s)) s)"
  let ?tail = "drop (length old + (6 + length body)) (wd_data (ws_d w))"
  have size: "wd_Data_size ?d = length old + (6 + length body)"
    using assms(3,6) by (simp add: at_byte_def stored_def)
  have data: "wd_data ?d = (old @ b0 # b1 # key) @ body @ ?tail"
    using assms(3,6) by (simp add: at_byte_def stored_def)
  have u: "unmask_loop (length old + 6) (int (length body)) 0 ?d =
      Inr (?d\<lparr>wd_data := (old @ b0 # b1 # key) @ mask_from (wd_parse_Index ?d) (wh_masks (wd_head ?d)) body @ ?tail,
              wd_parse_Index := wd_parse_Index ?d + length body\<rparr>, int (length body))"
    by (rule unmask_loop_bytes[OF _ data]) (use assms in \<open>simp_all add: at_byte_def\<close>)
  have n: "length body \<noteq> 0" using assms(4) by simp
  have "parseWsHead (length old + 6) (int (length body)) ?d = Inr (?d\<lparr>wd_data := (old @ b0 # b1 # key) @ mask_from 0 key body @ ?tail,
              wd_parse_Index := length body, wd_Op := INIT_HEAD\<rparr>, int (length body))"
    using n u by (simp add: parseWsHead_def parse_data_def at_byte_def)
  then show ?thesis
    using assms size n
    by (simp add: ws_round_def Let_def at_byte_def stored_def ws_base_at_def mem_read_def add.assoc)
qed

text \<open>A whole frame: what is left is the treatment of the complete frame.\<close>

lemma loop_frame:
  assumes "ws_quiet old w" and "length old + 6 + length body < 8192" and "length key = 4" and "body \<noteq> []"
    and "0xFF \<notin> set body" and "op < 16" and "length body < 126"
    and s: "s = stored old (frame_head op (length body) @ key @ body) w"
    and s': "s' = at_byte (length old) (6 + length body) (of_nat (length body)) key INIT_HEAD (length body)
      (old @ frame_head op (length body) @ key @ mask_from 0 key body @ drop (length old + (6 + length body)) (wd_data (ws_d w))) s"
  shows "ws_loop malloc mk s =
    (case ws_frame_done malloc mk (or 128 (of_nat op), or 128 (of_nat (length body))) s' of
       None \<Rightarrow> None
     | Some (Inl f) \<Rightarrow> Some (Inl f)
     | Some (Inr (w', Ctl_return n)) \<Rightarrow> Some (Inr (w', Some n))
     | Some (Inr (w', Ctl_break)) \<Rightarrow> Some (Inr (w', None))
     | Some (Inr (w', Ctl_next)) \<Rightarrow>
         if wd_Read_size (ws_d w') < wd_Data_size (ws_d w') then ws_loop malloc mk w' else Some (Inr (w', None)))"
proof -
  define b0 b1 where b: "b0 = (or 128 (of_nat op) :: u8)" "b1 = (or 128 (of_nat (length body)) :: u8)"
  have fr: "frame_head op (length body) @ r = b0 # b1 # r" for r by (simp add: frame_head_def b)
  note s_eq = s[unfolded fr] and s'_eq = s'[unfolded fr]
  have pl: "ws_payLoad (b0, b1) = length body" "ws_payLoad (b0, b1) < 126" and fin: "ws_fin (b0, b1)"
    using assms(6,7) by (simp_all add: b head_payLoad head_fin)
  have fits: "length old + length (b0 # b1 # key @ body) < 8192" using assms(2,3) by simp
  have size: "wd_Data_size (ws_d s) = length old + (6 + length body)" using assms(3) by (simp add: s_eq stored_def)
  note r = round_init[OF assms(1) fits s_eq]
    round_payload[OF assms(1) fits _ pl(2) s_eq]
    round_mask_key[OF assms(1) fits assms(3) s_eq]
    round_data[OF assms(1) fits assms(3-5) s_eq s'_eq]
  have lt: "k \<le> 6 \<Longrightarrow> wd_Read_size (ws_d (at_byte (length old) k l ks op i m s)) <
      wd_Data_size (ws_d (at_byte (length old) k l ks op i m s))" for k l ks op i m
    using size assms(4) by (cases body) (simp_all add: at_byte_def)
  have "key @ body \<noteq> []" using assms(4) by simp
  then have "ws_loop malloc mk s =
      ws_loop malloc mk (at_byte (length old) 6 (of_nat (length body)) key READ_DATA 0 (wd_data (ws_d s)) s)"
    by (simp add: r pl(1) ws_loop_next[of malloc mk] lt)
  with r(4) fin show ?thesis by (subst (asm) (2) ws_loop.simps) (simp add: b)
qed

text \<open>
  A frame without data, or with a masked byte 0xFF, is not taken in: the parser is left waiting for data, and
  nothing is sent.
\<close>

definition frame_unread :: "u8 list \<Rightarrow> bool" where
  "frame_unread body \<longleftrightarrow> body = [] \<or> 0xFF \<in> set body"

lemma loop_frame_unread:
  assumes "ws_quiet old w" and "length old + 6 + length body < 8192" and "length key = 4" and "frame_unread body"
    and "op < 16" and "length body < 126" and s: "s = stored old (frame_head op (length body) @ key @ body) w"
  shows "\<exists>w'. ws_loop malloc mk s = Some (Inr (w', None)) \<and> wd_Op (ws_d w') = READ_DATA \<and> ws_sent w' = ws_sent w \<and> ws_tx w' = ws_tx w"
proof -
  define b0 b1 where b: "b0 = (or 128 (of_nat op) :: u8)" "b1 = (or 128 (of_nat (length body)) :: u8)"
  have fr: "frame_head op (length body) @ r = b0 # b1 # r" for r by (simp add: frame_head_def b)
  note s_eq = s[unfolded fr]
  have pl: "ws_payLoad (b0, b1) = length body" "ws_payLoad (b0, b1) < 126"
    using assms(5,6) by (simp_all add: b head_payLoad)
  have fits: "length old + length (b0 # b1 # key @ body) < 8192" using assms(2,3) by simp
  have size: "wd_Data_size (ws_d s) = length old + (6 + length body)" using assms(3) by (simp add: s_eq stored_def)
  have ne: "key @ body \<noteq> []" using assms(3) by auto
  note r = round_init[OF assms(1) fits s_eq] round_payload[OF assms(1) fits ne pl(2) s_eq]
    round_mask_key[OF assms(1) fits assms(3) s_eq]
  let ?w = "at_byte (length old) 6 (of_nat (length body)) key READ_DATA 0 (wd_data (ws_d s)) s"
  have lt: "k \<le> 2 \<Longrightarrow> wd_Read_size (ws_d (at_byte (length old) k l ks op i m s)) <
      wd_Data_size (ws_d (at_byte (length old) k l ks op i m s))" for k l ks op i m
    using size by (simp add: at_byte_def)
  have keep: "ws_sent ?w = ws_sent w" "ws_tx ?w = ws_tx w" by (simp_all add: at_byte_def s_eq stored_def)
  show ?thesis
  proof (cases "body = []")
    case True
    then have "\<not> wd_Read_size (ws_d ?w) < wd_Data_size (ws_d ?w)" using size by (simp add: at_byte_def)
    then have "ws_loop malloc mk s = Some (Inr (?w, None))"
      by (simp add: r pl(1) ws_loop_next[of malloc mk] lt)
    with keep show ?thesis by (intro exI[of _ ?w]) (simp add: at_byte_def)
  next
    case False
    then have ff: "0xFF \<in> set body" using assms(4) by (simp add: frame_unread_def)
    let ?d = "ws_d ?w"
    have data: "wd_data ?d = (old @ b0 # b1 # key) @ body @ drop (length old + (6 + length body)) (wd_data (ws_d w))"
      using assms(3) by (simp add: at_byte_def s_eq stored_def)
    have "\<exists>m i. unmask_loop (length old + 6) (int (length body)) 0 ?d = Inr (?d\<lparr>wd_data := m, wd_parse_Index := i\<rparr>, -1)"
      by (rule unmask_loop_stops[OF _ data]) (use assms ff in \<open>simp_all add: at_byte_def\<close>)
    then obtain m i where "unmask_loop (length old + 6) (int (length body)) 0 ?d = Inr (?d\<lparr>wd_data := m, wd_parse_Index := i\<rparr>, -1)"
      by blast
    then have "parseWsHead (length old + 6) (int (length body)) ?d = Inr (?d\<lparr>wd_data := m, wd_parse_Index := i\<rparr>, -1)"
      using False by (simp add: parseWsHead_def parse_data_def at_byte_def)
    then have "ws_round malloc mk ?w = Some (Inr (?w\<lparr>ws_d := ?d\<lparr>wd_data := m, wd_parse_Index := i\<rparr>\<rparr>, Ctl_break))"
      using size by (simp add: ws_round_def Let_def at_byte_def)
    then have "ws_loop malloc mk ?w = Some (Inr (?w\<lparr>ws_d := ?d\<lparr>wd_data := m, wd_parse_Index := i\<rparr>\<rparr>, None))"
      by (subst ws_loop.simps) simp
    moreover have "wd_Read_size ?d < wd_Data_size ?d" using size False by (simp add: at_byte_def)
    ultimately have "ws_loop malloc mk s = Some (Inr (?w\<lparr>ws_d := ?d\<lparr>wd_data := m, wd_parse_Index := i\<rparr>\<rparr>, None))"
      by (simp add: r pl(1) ws_loop_next[of malloc mk] lt)
    with keep show ?thesis by (intro exI) (auto simp: at_byte_def)
  qed
qed

text \<open>The same for the bytes of the frame as they come in.\<close>

lemma read_frame_unread:
  assumes "ws_quiet old w" and "length old + (6 + length payload) < 8192" and "length key = 4"
    and "frame_unread (mask_from 0 key payload)" and "op < 16" and "length payload < 126"
  shows "\<exists>w'. ws_readData malloc mk (client_frame op key payload) w = Some (Inr (w', int (6 + length payload))) \<and>
    wd_Op (ws_d w') = READ_DATA \<and> ws_sent w' = ws_sent w \<and> ws_tx w' = ws_tx w"
proof -
  let ?body = "mask_from 0 key payload"
  have frame: "client_frame op key payload = frame_head op (length ?body) @ key @ ?body" "client_frame op key payload \<noteq> []"
    "length (client_frame op key payload) = 6 + length payload"
    using assms(3) by (simp_all add: client_frame_def frame_head_def)
  obtain w' where "ws_loop malloc mk (stored old (client_frame op key payload) w) = Some (Inr (w', None))"
    "wd_Op (ws_d w') = READ_DATA" "ws_sent w' = ws_sent w" "ws_tx w' = ws_tx w"
    using loop_frame_unread[OF assms(1) _ assms(3,4,5), of "stored old (client_frame op key payload) w" malloc mk] assms(2,6)
    unfolding frame(1) by (auto simp: add.assoc)
  with ws_readData_stored[OF assms(1) frame(2), of malloc mk] frame(3) assms(2) show ?thesis by auto
qed

section \<open>Frames to the client\<close>

lemma length_frame_header:
  "length (frame_header type n) = (if n \<le> 125 then 2 else if n < 65535 then 4 else 10)"
  by (simp add: frame_header_def)

lemma send_frame_ok:
  assumes "alloc_ok malloc" and "malloc (length (frame_header type n) + n + 1) = Some r0"
    and "off + n \<le> length mem" and "n < 2 ^ 63"
    and "bs = frame_header type n @ take n (drop off mem) @ [0]"
  shows "sendFrame malloc mem off n type w =
    Inr (w\<lparr>ws_sent := ws_sent w @ [bs], ws_tx := snd (send bs (ws_tx w))\<rparr>, fst (send bs (ws_tx w)))"
proof -
  let ?h = "frame_header type n" and ?b = "take n (drop off mem)"
  have h: "length ?h \<le> 10" by (simp add: length_frame_header)
  have size: "add64 (add64 (length ?h) n) 1 = length ?h + n + 1" using h assms(4) by (simp add: size_t)
  have r: "length r0 = length ?h + n + 1" using assms(1,2) by blast
  have b: "mem_read mem off n = Some ?b" "length ?b = n" using assms(3) by (simp_all add: mem)
  have w1: "mem_write r0 0 ?h = Some (?h @ drop (length ?h) r0)" using r by (simp add: mem_write_def)
  have w2: "mem_write (?h @ drop (length ?h) r0) (length ?h) ?b = Some (?h @ ?b @ drop (length ?h + n) r0)"
    using r b(2) by (simp add: mem_write_def add.commute)
  have w3: "mem_write (?h @ ?b @ drop (length ?h + n) r0) (length ?h + n) [0] = Some bs"
    using r b(2) by (simp add: mem_write_def assms(5))
  have w4: "mem_read bs 0 (n + length ?h + 1) = Some bs" using b(2) by (simp add: mem_read_def assms(5))
  show ?thesis
    by (simp only: sendFrame_def Let_def size assms(2) w1 w2 w3 w4 b(1) option.case) (simp split: prod.split)
qed

text \<open>How RFC 6455 reads a frame of a server: opcode, payload, and the bytes behind the frame.\<close>

definition rfc_split :: "nat \<Rightarrow> u8 list \<Rightarrow> (u8 list \<times> u8 list) option" where
  "rfc_split n bs = (if n \<le> length bs then Some (take n bs, drop n bs) else None)"

definition rfc_decode :: "u8 list \<Rightarrow> (bool \<times> nat \<times> u8 list \<times> u8 list) option" where
  "rfc_decode bs = (case bs of
     b0 # b1 # rest \<Rightarrow>
       (let ext = (if unat b1 = 126 then 2 else if unat b1 = 127 then 8 else 0);
            len = (if ext = 0 then unat b1 else le_value (rev (take ext rest))) in
        if 127 < unat b1 \<or> length rest < ext then None
        else map_option (\<lambda>(p, r). (128 \<le> unat b0, unat b0 mod 16, p, r)) (rfc_split len (drop ext rest)))
   | _ \<Rightarrow> None)"

lemma of_nat_div_bytes: "rev [of_nat (n div 2 ^ 56), of_nat (n div 2 ^ 48), of_nat (n div 2 ^ 40), of_nat (n div 2 ^ 32),
            of_nat (n div 2 ^ 24), of_nat (n div 2 ^ 16), of_nat (n div 2 ^ 8), of_nat n] = le_bytes 8 n"
proof -
  have "[0..<8] = [0, 1, 2, 3, 4, 5, 6, 7 :: nat]" by (simp add: upt_rec)
  then show ?thesis by (simp add: le_bytes_def)
qed

lemma head_byte: "op < 16 \<Longrightarrow> unat (of_nat (or WS_FIN op) :: u8) = 128 + op"
  unfolding less_16 WS_FIN_def by (elim insertE emptyE) simp_all

lemma decode_header:
  assumes "op < 16" and "n < 2 ^ 63"
  shows "rfc_decode (frame_header op n @ rest) = map_option (\<lambda>(p, r). (True, op, p, r)) (rfc_split n rest)"
proof -
  have "(128 + op) mod 16 = op" using assms(1) by presburger
  note h = head_byte[OF assms(1)] this
  consider "n \<le> 125" | "125 < n" "n < 65535" | "65535 \<le> n" by linarith
  then show ?thesis
  proof cases
    case 1
    then have "unat (of_nat n :: u8) = n" by (simp add: unat_of_nat)
    with 1 h assms(1) show ?thesis by (simp add: rfc_decode_def frame_header_def)
  next
    case 2
    have "le_value (rev [of_nat (n div 256), of_nat n]) = n"
      using le_value_bytes[of n 2] 2 by (simp add: le_bytes_def numeral_2_eq_2)
    with 2 h assms(1) show ?thesis by (simp add: rfc_decode_def frame_header_def)
  next
    case 3
    have "n < 256 ^ 8" using assms(2) by simp
    with le_value_bytes[OF this] have l: "le_value (rev [of_nat (n div 2 ^ 56), of_nat (n div 2 ^ 48), of_nat (n div 2 ^ 40), of_nat (n div 2 ^ 32),
            of_nat (n div 2 ^ 24), of_nat (n div 2 ^ 16), of_nat (n div 2 ^ 8), of_nat n]) = n"
      by (simp only: of_nat_div_bytes)
    with 3 h assms(1) show ?thesis
      by (simp add: rfc_decode_def frame_header_def del: rev.simps)
  qed
qed

text \<open>
  C31. What \<open>sendFrame\<close> gives to \<open>send\<close> is read by a client as one final frame with the
  opcode and exactly the payload, for every size of the payload; but one more byte, a NUL,
  follows the frame and starts the next one as the client reads it.
\<close>

theorem send_frame_decodes:
  assumes "alloc_ok malloc" and "\<forall>k. malloc k \<noteq> None" and "op < 16"
    and "off + n \<le> length mem" and "n < 2 ^ 63"
  shows "\<exists>bs. sendFrame malloc mem off n op w =
      Inr (w\<lparr>ws_sent := ws_sent w @ [bs], ws_tx := snd (send bs (ws_tx w))\<rparr>, fst (send bs (ws_tx w))) \<and>
    rfc_decode bs = Some (True, op, take n (drop off mem), [0])"
proof -
  obtain r0 where "malloc (length (frame_header op n) + n + 1) = Some r0" using assms(2) by blast
  from send_frame_ok[OF assms(1) this assms(4,5) refl]
  have "sendFrame malloc mem off n op w = (let bs = frame_header op n @ take n (drop off mem) @ [0] in
      Inr (w\<lparr>ws_sent := ws_sent w @ [bs], ws_tx := snd (send bs (ws_tx w))\<rparr>, fst (send bs (ws_tx w))))"
    by (simp add: Let_def)
  moreover have "rfc_decode (frame_header op n @ take n (drop off mem) @ [0]) = Some (True, op, take n (drop off mem), [0])"
    using assms(4) by (simp add: decode_header[OF assms(3,5)] rfc_split_def)
  ultimately show ?thesis by (auto simp: Let_def)
qed

theorem send_frame_decodes_witness:
  "\<exists>bs. sendFrame zero_alloc [1, 2, 3, 4] 1 2 9 (WsStickyWrap_new 0 [] [] [] []) =
      Inr ((WsStickyWrap_new 0 [] [] [] [])\<lparr>ws_sent := [bs], ws_tx := []\<rparr>, int (length bs)) \<and>
    rfc_decode bs = Some (True, 9, [2, 3], [0])"
  using send_frame_decodes[of zero_alloc 9 1 2 "[1, 2, 3, 4]" "WsStickyWrap_new 0 [] [] [] []"]
  by (simp add: zero_alloc_def WsStickyWrap_new_def take_Cons')

section \<open>Control frames\<close>

text \<open>The state when a frame has been read, with the payload unmasked in place.\<close>

lemma frame_read_state:
  assumes "ws_quiet old w" and "length key = 4"
    and "length old + (6 + length body) < 8192"
    and "all = old @ frame_head op (length body) @ key @ mask_from 0 key body"
    and "s = at_byte (length old) (6 + length body) (of_nat (length body)) key INIT_HEAD (length body)
      (old @ frame_head op (length body) @ key @ mask_from 0 key body @ drop (length old + (6 + length body)) (wd_data (ws_d w)))
      (stored old (frame_head op (length body) @ key @ body) w)"
  shows "ws_quiet all s" and "ws_sent s = ws_sent w" and "ws_tx s = ws_tx w" and "ws_pack s = ws_pack w"
    and "wh_len (wd_head (ws_d s)) = of_nat (length body)"
  using assms by (auto simp: ws_quiet_def at_byte_def stored_def frame_head_def)

lemma ws_quiet_upd [simp]: "ws_quiet all (w\<lparr>ws_sent := x, ws_tx := y\<rparr>) = ws_quiet all w"
  by (simp add: ws_quiet_def)

lemma word_diff: "a \<le> b \<Longrightarrow> b < 2 ^ 63 \<Longrightarrow> unat (word_of_int (int b - int a) :: u64) = b - a"
proof -
  assume "a \<le> b" "b < 2 ^ 63"
  then have "word_of_int (int b - int a) = (of_nat (b - a) :: u64)" by (simp add: of_nat_diff)
  then show ?thesis using \<open>b < 2 ^ 63\<close> by (simp only: unat_of_nat) simp
qed

lemma answer_frame:
  assumes "alloc_ok malloc" and "\<forall>k. malloc k \<noteq> None" and "ws_quiet all s" and "6 \<le> length all"
    and "ws_tx s = []" and "op < 16"
  shows "\<exists>bs. ws_answer malloc 6 op s = Inr (s\<lparr>ws_sent := ws_sent s @ [bs], ws_tx := []\<rparr>, Ctl_next) \<and>
    rfc_decode bs = Some (True, op, drop 6 all, [0])"
proof -
  from assms(3) obtain tail where q: "wd_Data_size (ws_d s) = length all" "wd_data (ws_d s) = all @ tail"
    "length all + length tail = 8192" by (auto simp: ws_quiet_def)
  let ?bs = "frame_header op (length all - 6) @ take (length all - 6) (drop 6 (all @ tail)) @ [0]"
  obtain r0 where r0: "malloc (length (frame_header op (length all - 6)) + (length all - 6) + 1) = Some r0"
    using assms(2) by blast
  have b: "6 + (length all - 6) \<le> length (all @ tail)" "length all - 6 < 2 ^ 63" using q(3) assms(4) by simp_all
  have n: "unat (word_of_int (int (length all) - int 6) :: u64) = length all - 6"
    using word_diff[OF assms(4)] q(3) by simp
  have "ws_answer malloc 6 op s = Inr (s\<lparr>ws_sent := ws_sent s @ [?bs], ws_tx := []\<rparr>, Ctl_next)"
    using send_frame_ok[OF assms(1) r0 b refl, of s]
    unfolding ws_answer_def q n assms(5) by simp
  moreover have "rfc_decode ?bs = Some (True, op, drop 6 all, [0])"
    using assms(4) by (simp add: decode_header[OF assms(6) b(2)] rfc_split_def)
  ultimately show ?thesis by blast
qed

lemma head_size: "n < 126 \<Longrightarrow> CalFrameHeadSize (c, or 128 (of_nat n)) = 6"
  by (simp add: CalFrameHeadSize_def head_payLoad)

lemma frame_done_cases:
  assumes "op < 16" and "n < 126"
  shows "ws_frame_done malloc mk (or 128 (of_nat op), or 128 (of_nat n)) w =
    (if op = 8 \<or> op = 9 then Some (ws_answer malloc 6 op w)
     else if op = 10 \<or> op = 15 then Some (Inr (w, Ctl_next)) else ws_data_frame mk 6 w)"
  by (simp only: ws_frame_done_def Let_def head_size[OF assms(2)] head_opcod[OF assms(1)] WS_FR_OP_CLSE_def
      WS_FR_OP_PING_def WS_FR_OP_PONG_def WS_FR_OP_UNSUPPORTED_def) simp

text \<open>The answer to a control frame, when the whole frame has been stored.\<close>

lemma control_frame_done:
  assumes "alloc_ok malloc" and "\<forall>k. malloc k \<noteq> None" and "ws_quiet all s" and "ws_tx s = []"
    and "op \<in> {8, 9, 10, 15}" and "n < 126" and "6 \<le> length all" and "length all < 8192"
  shows "\<exists>w'. ws_frame_done malloc mk (or 128 (of_nat op), or 128 (of_nat n)) s = Some (Inr (w', Ctl_next)) \<and>
    ws_quiet all w' \<and> ws_tx w' = [] \<and>
    (if op \<in> {8, 9} then \<exists>bs. ws_sent w' = ws_sent s @ [bs] \<and> rfc_decode bs = Some (True, op, drop 6 all, [0])
     else ws_sent w' = ws_sent s)"
proof -
  have op: "op < 16" using assms(5) by auto
  show ?thesis
  proof (cases "op \<in> {8, 9}")
    case True
    from answer_frame[OF assms(1-3) _ assms(4) op] assms(7,8) obtain bs where
      "ws_answer malloc 6 op s = Inr (s\<lparr>ws_sent := ws_sent s @ [bs], ws_tx := []\<rparr>, Ctl_next)"
      "rfc_decode bs = Some (True, op, drop 6 all, [0])" by auto
    with True assms(3) frame_done_cases[OF op assms(6)] show ?thesis by auto
  next
    case False
    with assms(3-5) frame_done_cases[OF op assms(6)] show ?thesis by auto
  qed
qed

lemma control_frame_run:
  assumes "alloc_ok malloc" and "\<forall>k. malloc k \<noteq> None" and "ws_quiet old w" and "ws_tx w = []"
    and "op \<in> {8, 9, 10, 15}" and "length key = 4" and "payload \<noteq> []" and "length payload < 126"
    and "0xFF \<notin> set (mask_from 0 key payload)"
    and "all = old @ frame_head op (length payload) @ key @ payload"
  shows "if length all < 8192
    then \<exists>w'. ws_readData malloc mk (client_frame op key payload) w = Some (Inr (w', int (6 + length payload))) \<and>
      ws_quiet all w' \<and> ws_tx w' = [] \<and>
      (if op \<in> {8, 9} then \<exists>bs. ws_sent w' = ws_sent w @ [bs] \<and> rfc_decode bs = Some (True, op, drop 6 all, [0])
       else ws_sent w' = ws_sent w)
    else ws_readData malloc mk (client_frame op key payload) w = Some (Inr (w, -1))"
proof -
  let ?body = "mask_from 0 key payload"
  have frame: "client_frame op key payload = frame_head op (length ?body) @ key @ ?body" "client_frame op key payload \<noteq> []"
    by (simp_all add: client_frame_def frame_head_def)
  have len: "length (client_frame op key payload) = 6 + length payload" "length all = length old + (6 + length payload)"
    using assms(6,10) by (simp_all add: client_frame_def frame_head_def)
  show ?thesis
  proof (cases "length all < 8192")
    case True
    let ?s = "stored old (client_frame op key payload) w"
    define s where "s = at_byte (length old) (6 + length ?body) (of_nat (length ?body)) key INIT_HEAD (length ?body)
      (old @ frame_head op (length ?body) @ key @ mask_from 0 key ?body @ drop (length old + (6 + length ?body)) (wd_data (ws_d w))) ?s"
    have op: "op < 16" using assms(5) by auto
    have body: "?body \<noteq> []" using assms(7) by (cases payload) simp_all
    note st = frame_read_state[OF assms(3,6) _ _ s_def[unfolded frame(1)], of all]
    have q: "ws_quiet all s" "ws_sent s = ws_sent w" "ws_tx s = []"
      using st assms(4,10) len True by simp_all
    have "length ?body < 126" "6 \<le> length all" using assms(8) len by simp_all
    from control_frame_done[OF assms(1,2) q(1,3) assms(5) this True, of mk]
    obtain w' where w': "ws_frame_done malloc mk (or 128 (of_nat op), or 128 (of_nat (length ?body))) s = Some (Inr (w', Ctl_next))"
      "ws_quiet all w'" "ws_tx w' = []"
      "if op \<in> {8, 9} then \<exists>bs. ws_sent w' = ws_sent w @ [bs] \<and> rfc_decode bs = Some (True, op, drop 6 all, [0])
       else ws_sent w' = ws_sent w" unfolding q(2) by blast
    have fits: "length old + 6 + length ?body < 8192" "length ?body < 126" using True len assms(8) by simp_all
    have "ws_loop malloc mk ?s = Some (Inr (w', None))"
      using loop_frame[OF assms(3) fits(1) assms(6) body assms(9) op fits(2) _ s_def, of malloc mk] w'(1,2)
      by (simp add: frame(1) ws_quiet_def)
    with ws_readData_stored[OF assms(3) frame(2)] w' True len show ?thesis by auto
  next
    case False
    with ws_readData_stored[OF assms(3) frame(2)] len show ?thesis by simp
  qed
qed

text \<open>
  C14. A control frame of less than 126 bytes of data that arrives whole on a connection between frames, when every
  send succeeds. With at least one byte of data and no masked byte 0xFF it is taken in full: a close or ping frame
  is answered with a frame of the same opcode, whose payload is everything the memory holds behind its first 6 bytes,
  which for the first frame of a connection is the unmasked payload. A frame without data, or with a masked byte 0xFF, is
  not answered, and the parser is left in the state \<open>READ_DATA\<close>. The memory is never emptied, so that once a frame
  would bring it to 8192 bytes, -1 is returned.
\<close>

theorem ws_control_frames:
  assumes "alloc_ok malloc" and "\<forall>k. malloc k \<noteq> None" and "ws_quiet old w" and "ws_tx w = []"
    and "op \<in> {8, 9, 10, 15}" and "length key = 4" and "length payload < 126"
    and "all = old @ frame_head op (length payload) @ key @ payload"
  shows "if 8192 \<le> length all then ws_readData malloc mk (client_frame op key payload) w = Some (Inr (w, -1))
    else if payload = [] \<or> 0xFF \<in> set (mask_from 0 key payload)
    then \<exists>w'. ws_readData malloc mk (client_frame op key payload) w = Some (Inr (w', int (6 + length payload))) \<and>
      wd_Op (ws_d w') = READ_DATA \<and> ws_sent w' = ws_sent w
    else \<exists>w'. ws_readData malloc mk (client_frame op key payload) w = Some (Inr (w', int (6 + length payload))) \<and>
      ws_quiet all w' \<and> ws_tx w' = [] \<and>
      (if op \<in> {8, 9} then \<exists>bs. ws_sent w' = ws_sent w @ [bs] \<and> rfc_decode bs = Some (True, op, drop 6 all, [0])
       else ws_sent w' = ws_sent w)"
proof -
  have len: "length all = length old + (6 + length payload)" using assms(6,8) by (simp add: frame_head_def)
  have op: "op < 16" using assms(5) by auto
  show ?thesis
  proof (cases "8192 \<le> length all")
    case True
    have "client_frame op key payload \<noteq> []" "length (client_frame op key payload) = 6 + length payload"
      using assms(6) by (simp_all add: client_frame_def frame_head_def)
    with True len ws_readData_stored[OF assms(3)] show ?thesis by simp
  next
    case False
    have nil: "mask_from 0 key payload = [] \<longleftrightarrow> payload = []" by (cases payload) simp_all
    show ?thesis
    proof (cases "payload = [] \<or> 0xFF \<in> set (mask_from 0 key payload)")
      case True
      then have "frame_unread (mask_from 0 key payload)" by (simp add: frame_unread_def nil)
      with read_frame_unread[OF assms(3) _ assms(6) _ op assms(7), of malloc mk] True False len show ?thesis by auto
    next
      case ok: False
      with False control_frame_run[OF assms(1-6) _ assms(7) _ assms(8), of mk] show ?thesis by simp
    qed
  qed
qed

theorem ws_control_frames_witness:
  "\<exists>w'. ws_readData zero_alloc (ServerPack 7) (client_frame 9 [1, 2, 3, 4] [104, 105])
      (WsStickyWrap_new 0 [] (replicate 8192 0) [] []) = Some (Inr (w', 8)) \<and>
    (\<exists>bs. ws_sent w' = [bs] \<and> rfc_decode bs = Some (True, 9, [104, 105], [0]))"
proof -
  let ?w = "WsStickyWrap_new 0 [] (replicate 8192 0) [] []"
  have "\<forall>k. zero_alloc k \<noteq> None" by (simp add: zero_alloc_def)
  moreover have "ws_quiet [] ?w" by (rule ws_quiet_new) simp
  moreover have "ws_tx ?w = []" "ws_sent ?w = []" by (simp_all add: WsStickyWrap_new_def)
  ultimately show ?thesis
    using ws_control_frames[of zero_alloc "[]" ?w 9 "[1, 2, 3, 4]" "[104, 105]" _ "ServerPack 7", OF alloc_ok_zero _ _ _ _ _ _ refl]
    by (auto simp: frame_head_def)
qed

section \<open>Incomplete heads\<close>

text \<open>A round that changes nothing is repeated for ever.\<close>

lemma ws_loop_stuck:
  assumes "ws_round malloc mk w = Some (Inr (w, Ctl_next))" and "wd_Read_size (ws_d w) < wd_Data_size (ws_d w)"
  shows "ws_loop malloc mk w = None"
proof (cases "ws_loop malloc mk w")
  case (Some y)
  have "\<not> (ws_round m k v = Some (Inr (v, Ctl_next)) \<and> wd_Read_size (ws_d v) < wd_Data_size (ws_d v))"
    if "ws_loop m k v = Some z" for m k v z
    using that by (rule ws_loop.raw_induct[rotated]) (auto split: option.splits sum.splits prod.splits ctl.splits if_splits)
  with Some assms show ?thesis by blast
qed

text \<open>The bytes between the first two of a frame's head and its masking key, which has four.\<close>

definition ext_size :: "nat \<Rightarrow> nat" where
  "ext_size n = (if n < 126 then 0 else if n = 126 then 2 else 8)"

lemma round_extended:
  assumes "ws_quiet old w" and "length old + length (b0 # b1 # part) < 8192" and "126 \<le> ws_payLoad (b0, b1)"
    and "ws_payLoad (b0, b1) < 128" and "ext_size (ws_payLoad (b0, b1)) \<le> length part" and "s = stored old (b0 # b1 # part) w"
  shows "\<exists>l. ws_round malloc mk (at_byte (length old) 2 0 ks READ_PAYLOAD 0 (wd_data (ws_d s)) s) =
    Some (Inr (at_byte (length old) (2 + ext_size (ws_payLoad (b0, b1))) l ks READ_MASK_KEY 0 (wd_data (ws_d s)) s, Ctl_next))"
proof (cases "ws_payLoad (b0, b1) = 126")
  case True
  with assms show ?thesis
    by (intro exI[of _ "or_shifted 0 (take 2 part)"])
       (auto simp: ws_round_def parseWsHead_def parse_payload_def ws_quiet_def stored_def at_byte_def ext_size_def
         ws_base_at_def mem_read_def Let_def simp del: or_shifted.simps)
next
  case False
  with assms show ?thesis
    by (intro exI[of _ "or_shifted 0 (take 8 part)"])
       (auto simp: ws_round_def parseWsHead_def parse_payload_def ws_quiet_def stored_def at_byte_def ext_size_def
         ws_base_at_def mem_read_def Let_def simp del: or_shifted.simps)
qed

lemma payLoad_less: "ws_payLoad b < 128"
  by (cases b) (simp add: ws_payLoad_def take_bit_eq_mod unat_mod)

lemma partial_head_run:
  assumes "ws_quiet old w" and e: "e = ext_size (ws_payLoad (b0, b1))"
    and part: "0 < length part \<and> length part < e \<or> e < length part \<and> length part < e + 4"
    and fits: "length old + length (b0 # b1 # part) < 8192"
  shows "ws_readData malloc mk (b0 # b1 # part) w = None"
proof -
  define s where "s = stored old (b0 # b1 # part) w"
  have ne: "part \<noteq> []" using part by auto
  have lt: "k < 2 + length part \<Longrightarrow> wd_Read_size (ws_d (at_byte (length old) k l ks op i m s)) <
      wd_Data_size (ws_d (at_byte (length old) k l ks op i m s))" for k l ks op i m
    by (simp add: at_byte_def s_def stored_def)
  let ?s1 = "at_byte (length old) 2 0 (replicate 4 0) READ_PAYLOAD 0 (wd_data (ws_d s)) s"
  have "0 < length part" using part by auto
  then have l1: "ws_loop malloc mk s = ws_loop malloc mk ?s1"
    using ws_loop_next[OF round_init[OF assms(1) fits s_def]] lt[of 2] by simp
  have key: "ws_loop malloc mk (at_byte (length old) (2 + e) l ks READ_MASK_KEY 0 (wd_data (ws_d s)) s) = None"
    if "e < length part" for l ks
  proof (rule ws_loop_stuck)
    show "ws_round malloc mk (at_byte (length old) (2 + e) l ks READ_MASK_KEY 0 (wd_data (ws_d s)) s) =
        Some (Inr (at_byte (length old) (2 + e) l ks READ_MASK_KEY 0 (wd_data (ws_d s)) s, Ctl_next))"
      using assms(1) that part fits
      by (auto simp: ws_round_def parseWsHead_def parse_mask_key_def ws_quiet_def at_byte_def s_def stored_def
          ws_base_at_def mem_read_def Let_def)
  qed (rule lt, use that in simp)
  have "ws_loop malloc mk s = None"
  proof (cases "e < length part")
    case True
    show ?thesis
    proof (cases "ws_payLoad (b0, b1) < 126")
      case small: True
      then have "e = 0" by (simp add: e ext_size_def)
      then have "ws_loop malloc mk ?s1 =
          ws_loop malloc mk (at_byte (length old) (2 + e) (of_nat (ws_payLoad (b0, b1))) (replicate 4 0) READ_MASK_KEY 0 (wd_data (ws_d s)) s)"
        using ws_loop_next[OF round_payload[OF assms(1) fits ne small s_def]] lt[of 2] True by simp
      with l1 key[OF True] show ?thesis by simp
    next
      case False
      then have "126 \<le> ws_payLoad (b0, b1)" "ext_size (ws_payLoad (b0, b1)) \<le> length part" using True by (simp_all add: e)
      then obtain l where "ws_round malloc mk ?s1 =
          Some (Inr (at_byte (length old) (2 + e) l (replicate 4 0) READ_MASK_KEY 0 (wd_data (ws_d s)) s, Ctl_next))"
        using round_extended[OF assms(1) fits _ payLoad_less _ s_def, of malloc mk "replicate 4 0"] unfolding e by blast
      from ws_loop_next[OF this] lt[of "2 + e"] True l1 key[OF True] show ?thesis by simp
    qed
  next
    case False
    then have p: "0 < length part" "length part < e" using part by auto
    then have "126 \<le> ws_payLoad (b0, b1)" by (auto simp: e ext_size_def split: if_splits)
    then have "ws_round malloc mk ?s1 = Some (Inr (?s1, Ctl_next))"
      using assms(1) p fits payLoad_less[of "(b0, b1)"]
      by (auto simp: ws_round_def parseWsHead_def parse_payload_def ws_quiet_def at_byte_def s_def stored_def
          ws_base_at_def mem_read_def e ext_size_def Let_def split: if_splits)
    then show ?thesis using l1 ws_loop_stuck lt[of 2] p by simp
  qed
  with ws_readData_stored[OF assms(1), of "b0 # b1 # part" malloc mk] fits show ?thesis by (simp add: s_def)
qed

text \<open>
  C29. When the bytes of a frame at hand go beyond the two bytes of its head but end inside its extended
  length (of two or eight bytes, if there is one) or inside its masking key, \<open>readData\<close> does not return: the parser
  waits for bytes that only a later read could bring.
\<close>

theorem ws_partial_head_hangs:
  assumes "ws_quiet old w" and "e = ext_size (ws_payLoad (b0, b1))"
    and "0 < length part \<and> length part < e \<or> e < length part \<and> length part < e + 4"
    and "length old + length (b0 # b1 # part) < 8192"
  shows "ws_readData malloc mk (b0 # b1 # part) w = None"
  using assms by (rule partial_head_run)

theorem ws_partial_head_hangs_witness:
  "ws_readData zero_alloc (ServerPack 7) [0x81, 0x85, 1, 2] (WsStickyWrap_new 0 [] (replicate 8192 0) [] []) = None \<and>
   ws_readData zero_alloc (ServerPack 7) [0x81, 0xFE, 1, 0, 9] (WsStickyWrap_new 0 [] (replicate 8192 0) [] []) = None"
proof -
  have "ws_quiet [] (WsStickyWrap_new 0 [] (replicate 8192 0) [] [])" by (rule ws_quiet_new) simp
  then show ?thesis
    using ws_partial_head_hangs[of "[]" _ 0 "0x81" "0x85" "[1, 2]"] ws_partial_head_hangs[of "[]" _ 2 "0x81" "0xFE" "[1, 0, 9]"]
    by (simp add: ext_size_def ws_payLoad_def)
qed

section \<open>Data frames\<close>

lemma finishParse_no_head:
  assumes "pk_head (ws_pack w) = None"
  shows "finishParse mk off n w = Some (Inl Undef)"
proof -
  have "finish_round mk off n w = Inl Undef"
    using assms
    by (auto simp: finish_round_def finish_head_def copy_bytes_def head_len_def head_field_def Let_def
        split: option.splits)
  then show ?thesis by (subst finishParse.simps) simp
qed

lemma data_frame_run:
  assumes "ws_quiet old w" and "pk_head (ws_pack w) = None"
    and "op < 16" and "op \<notin> {8, 9, 10, 15}" and "length key = 4" and "payload \<noteq> []" and "length payload < 126"
    and "0xFF \<notin> set (mask_from 0 key payload)" and "length old + (6 + length payload) < 8192"
  shows "if old = [] then ws_readData malloc mk (client_frame op key payload) w = Some (Inl Undef)
    else \<exists>w'. ws_readData malloc mk (client_frame op key payload) w = Some (Inr (w', -1))"
proof -
  let ?body = "mask_from 0 key payload"
  have frame: "client_frame op key payload = frame_head op (length ?body) @ key @ ?body" "client_frame op key payload \<noteq> []"
    by (simp_all add: client_frame_def frame_head_def)
  have len: "length (client_frame op key payload) = 6 + length payload"
    using assms(5) by (simp add: client_frame_def frame_head_def)
  let ?s = "stored old (client_frame op key payload) w"
  define s where "s = at_byte (length old) (6 + length ?body) (of_nat (length ?body)) key INIT_HEAD (length ?body)
      (old @ frame_head op (length ?body) @ key @ mask_from 0 key ?body @ drop (length old + (6 + length ?body)) (wd_data (ws_d w))) ?s"
  have body: "?body \<noteq> []" using assms(6) by (cases payload) simp_all
  note st = frame_read_state[OF assms(1,5) _ refl s_def[unfolded frame(1)]]
  have size: "wd_Data_size (ws_d s) = length old + (6 + length payload)"
    using st(1) assms(5,9) by (simp add: ws_quiet_def frame_head_def)
  have word: "unat (word_of_int (int (wd_Data_size (ws_d s)) - int 6) :: u64) = length old + length payload"
    "unat (of_nat (length payload) :: u64) = length payload"
    using word_diff[of 6 "length old + (6 + length payload)"] assms(9) size
    by (simp_all add: unat_of_nat)
  have done_s: "ws_frame_done malloc mk (or 128 (of_nat op), or 128 (of_nat (length ?body))) s =
      (if old = [] then Some (Inl Undef) else Some (Inr (s, Ctl_return (-1))))"
    using frame_done_cases[OF assms(3), of "length ?body"] assms(2,4,7,9) st(4,5) word finishParse_no_head[of s]
    by (simp add: ws_data_frame_def Let_def word_le_nat_alt)
  have fits: "length old + 6 + length ?body < 8192" "length ?body < 126" using assms(7,9) by simp_all
  have "ws_loop malloc mk ?s = (if old = [] then Some (Inl Undef) else Some (Inr (s, Some (-1))))"
    using loop_frame[OF assms(1) fits(1) assms(5) body assms(8,3) fits(2) _ s_def, of malloc mk] done_s
    by (simp add: frame(1))
  with ws_readData_stored[OF assms(1) frame(2), of malloc mk] assms(9) len show ?thesis by auto
qed



section \<open>The parser stays within its bytes\<close>

definition ws_wf :: "ws_deal \<Rightarrow> bool" where
  "ws_wf d \<longleftrightarrow> length (wd_data d) = 8192 \<and> wd_Read_size d \<le> wd_Data_size d \<and> wd_Data_size d \<le> 8192 \<and>
     wd_parse_Index d < 65536 \<and> wd_Op d \<noteq> READ_MASK \<and>
     (wd_Op d \<noteq> INIT_HEAD \<longrightarrow> (\<exists>p. wh_wbs (wd_head d) = Some p \<and> p + 2 \<le> 8192)) \<and>
     (wd_Op d = READ_DATA \<longrightarrow> length (wh_masks (wd_head d)) = 4)"

definition same_outside :: "nat \<Rightarrow> nat \<Rightarrow> u8 list \<Rightarrow> u8 list \<Rightarrow> bool" where
  "same_outside a b xs ys \<longleftrightarrow> length xs = length ys \<and> (\<forall>i. i < a \<or> b \<le> i \<longrightarrow> xs ! i = ys ! i)"

lemma same_outside_refl [simp]: "same_outside a b xs xs"
  by (simp add: same_outside_def)

lemma same_outside_upd: "a \<le> i \<Longrightarrow> i < b \<Longrightarrow> same_outside a b xs ys \<Longrightarrow> same_outside a b xs (ys[i := v])"
  by (auto simp: same_outside_def)

lemma unmask_loop_safe:
  "int p + (len - readlen) \<le> int b \<Longrightarrow> b \<le> length (wd_data d) \<Longrightarrow> a \<le> p \<Longrightarrow> 0 \<le> readlen \<Longrightarrow> readlen \<le> len \<Longrightarrow>
   wd_parse_Index d < 65536 \<Longrightarrow>
   \<exists>m i n. unmask_loop p len readlen d = Inr (d\<lparr>wd_data := m, wd_parse_Index := i\<rparr>, n) \<and>
     same_outside a b (wd_data d) m \<and> i < 65536 \<and> -1 \<le> n \<and> n \<le> len"
proof (induction p len readlen d rule: unmask_loop.induct)
  case (1 p len readlen d)
  show ?case
  proof (cases "of_nat (wd_parse_Index d) < wh_len (wd_head d) \<and> readlen < len")
    case False
    then have "unmask_loop p len readlen d = Inr (d\<lparr>wd_data := wd_data d, wd_parse_Index := wd_parse_Index d\<rparr>, readlen)"
      by (subst unmask_loop.simps) auto
    with 1(5-7) show ?thesis using same_outside_refl by fastforce
  next
    case True
    then have p: "p < b" "p < length (wd_data d)" using 1(2,3) by linarith+
    show ?thesis
    proof (cases "wd_data d ! p = 0xFF")
      case ff: True
      then have "unmask_loop p len readlen d = Inr (d\<lparr>wd_data := wd_data d, wd_parse_Index := wd_parse_Index d\<rparr>, -1)"
        using True p by (subst unmask_loop.simps) simp
      with 1(5-7) show ?thesis using same_outside_refl by fastforce
    next
      case False
      let ?v = "xor (wd_data d ! p) (wh_masks (wd_head d) ! (wd_parse_Index d mod 4))"
      let ?d = "d\<lparr>wd_data := (wd_data d)[p := ?v], wd_parse_Index := (wd_parse_Index d + 1) mod 65536\<rparr>"
      have "unmask_loop p len readlen d = unmask_loop (Suc p) len (readlen + 1) ?d"
        using True p False by (subst unmask_loop.simps) simp
      moreover from 1(1)[OF True p(2) False] 1(2-6) True obtain m i n where
        "unmask_loop (Suc p) len (readlen + 1) ?d = Inr (?d\<lparr>wd_data := m, wd_parse_Index := i\<rparr>, n)"
        "same_outside a b ((wd_data d)[p := ?v]) m" "i < 65536" "-1 \<le> n" "n \<le> len" by auto
      moreover from this(2) have "same_outside a b (wd_data d) m"
        using p 1(4) by (auto simp: same_outside_def nth_list_update)
      ultimately show ?thesis by auto
    qed
  qed
qed

definition parse_ok :: "ws_deal \<Rightarrow> fault + (ws_deal \<times> int) \<Rightarrow> bool" where
  "parse_ok d res \<longleftrightarrow> (case res of
     Inl f \<Rightarrow> False
   | Inr (d', n) \<Rightarrow> -1 \<le> n \<and> int (wd_Read_size d) + n \<le> int (wd_Data_size d) \<and>
       same_outside (wd_Read_size d) (wd_Data_size d) (wd_data d) (wd_data d') \<and>
       wd_Read_size d' = wd_Read_size d \<and> wd_Data_size d' = wd_Data_size d \<and>
       (wd_Op d \<le> wd_Op d' \<or> wd_Op d = READ_DATA \<and> wd_Op d' = INIT_HEAD) \<and>
       ws_wf (d'\<lparr>wd_Read_size := wd_Read_size d + nat n\<rparr>))"

lemma wf_base: "ws_wf d \<Longrightarrow> wd_Op d \<noteq> INIT_HEAD \<Longrightarrow> \<exists>b. ws_base_at d = Some b"
  by (auto simp: ws_wf_def ws_base_at_def mem_read_def)

lemma parse_data_ok:
  assumes "ws_wf d" and "wd_Op d = READ_DATA"
  shows "parse_ok d (parse_data (wd_Read_size d) (int (wd_Data_size d) - int (wd_Read_size d)) d)"
proof -
  have wf: "length (wd_data d) = 8192" "wd_Read_size d \<le> wd_Data_size d" "wd_Data_size d \<le> 8192"
    "wd_parse_Index d < 65536" using assms(1) by (simp_all add: ws_wf_def)
  from unmask_loop_safe[of "wd_Read_size d" "int (wd_Data_size d) - int (wd_Read_size d)" 0 "wd_Data_size d" d "wd_Read_size d"]
  obtain m i n where
    u: "unmask_loop (wd_Read_size d) (int (wd_Data_size d) - int (wd_Read_size d)) 0 d =
        Inr (d\<lparr>wd_data := m, wd_parse_Index := i\<rparr>, n)"
      "same_outside (wd_Read_size d) (wd_Data_size d) (wd_data d) m" "i < 65536" "-1 \<le> n"
      "n \<le> int (wd_Data_size d) - int (wd_Read_size d)"
    using wf by auto
  have "length m = 8192" using u(2) wf(1) by (simp add: same_outside_def)
  with u wf assms show ?thesis
    by (auto simp: parse_ok_def parse_data_def ws_wf_def)
qed

lemma parseWsHead_ok:
  assumes "ws_wf d"
  shows "parse_ok d (parseWsHead (wd_Read_size d) (int (wd_Data_size d) - int (wd_Read_size d)) d)"
proof (cases "wd_Op d")
  case READ_PAYLOAD
  with wf_base[OF assms] obtain b where b: "ws_base_at d = Some b" by auto
  show ?thesis
    using assms READ_PAYLOAD b
    by (auto simp: parseWsHead_def parse_payload_def parse_ok_def ws_wf_def Let_def mem_read_def less_eq_op_state_def)
next
  case READ_DATA
  have "wd_Read_size d \<le> wd_Data_size d" using assms by (simp add: ws_wf_def)
  with READ_DATA parse_data_ok[OF assms] assms show ?thesis
    by (cases "wd_Read_size d = wd_Data_size d") (auto simp: parseWsHead_def parse_ok_def ws_wf_def)
qed (use assms in \<open>auto simp: parseWsHead_def parse_init_def parse_mask_key_def parse_ok_def ws_wf_def ws_headSize_def mem_read_def less_eq_op_state_def\<close>)

text \<open>
  C28. Whatever the client sends, the parser touches only the bytes that are pending: it never
  faults, it consumes at most what is there, it leaves the memory before and behind unchanged, it goes
  forward through its states until the data are read, and the state it leaves is again well-formed.
\<close>

theorem ws_parse_type:
  assumes "ws_wf d"
  shows "\<exists>d' n. parseWsHead (wd_Read_size d) (int (wd_Data_size d) - int (wd_Read_size d)) d = Inr (d', n) \<and>
    -1 \<le> n \<and> int (wd_Read_size d) + n \<le> int (wd_Data_size d) \<and>
    same_outside (wd_Read_size d) (wd_Data_size d) (wd_data d) (wd_data d') \<and>
    (wd_Op d \<le> wd_Op d' \<or> wd_Op d = READ_DATA \<and> wd_Op d' = INIT_HEAD) \<and>
    ws_wf (d'\<lparr>wd_Read_size := wd_Read_size d + nat n\<rparr>)"
  using parseWsHead_ok[OF assms] by (auto simp: parse_ok_def split: sum.splits)

theorem ws_parse_type_witness:
  "\<exists>d' n. parseWsHead 0 3 ((WsDealWith_new 0 [] (replicate 8192 7))\<lparr>wd_Data_size := 3\<rparr>) = Inr (d', n) \<and> n \<le> 3"
proof -
  let ?d = "(WsDealWith_new 0 [] (replicate 8192 7))\<lparr>wd_Data_size := 3\<rparr>"
  have "ws_wf ?d" by (simp add: ws_wf_def WsDealWith_new_def)
  from ws_parse_type[OF this] show ?thesis by (auto simp: WsDealWith_new_def)
qed

section \<open>Extended lengths\<close>

text \<open>A \<open>char\<close> of at least 0x80 sets every higher bit of the length.\<close>

lemma bit_char_u64: "bit (char_u64 b) n \<longleftrightarrow> n < 64 \<and> bit b (min 7 n)"
proof -
  have "char_u64 b = signed b" by (simp add: char_u64_def)
  then show ?thesis by (simp add: bit_signed_iff)
qed

lemma top_bit: "bit (b :: u8) 7 \<longleftrightarrow> 128 \<le> unat b"
proof -
  have "unat b < 2 ^ LENGTH(8)" by (rule unsigned_less)
  then have "unat b < 256" by simp
  then have "unat b div 128 = (if 128 \<le> unat b then 1 else 0)" by (auto simp: div_nat_eqI)
  moreover have "bit b 7 = bit (unat b) 7" by (simp add: bit_unsigned_iff)
  ultimately show ?thesis by (simp add: bit_iff_odd)
qed

lemma char_u64_small: "unat b < 128 \<Longrightarrow> char_u64 b = of_nat (unat b)"
proof -
  assume "unat b < 128"
  then have 7: "\<not> bit b 7" by (simp add: top_bit)
  have "char_u64 b = ucast b"
  proof (rule bit_word_eqI)
    fix n assume n: "n < LENGTH(64)"
    have "\<not> bit b n" if "7 \<le> n" using that 7 bit_imp_le_length[of b n] by (cases "n = 7") auto
    with n 7 show "bit (char_u64 b) n = bit (ucast b :: u64) n"
      by (cases "n < 7") (simp_all add: bit_char_u64 bit_unsigned_iff min_def)
  qed
  then show ?thesis by simp
qed

lemma two_bytes:
  "if unat x < 128 \<and> unat y < 128 then unat (or_shifted 0 [x, y]) = 256 * unat x + unat y
   else 2 ^ 63 \<le> unat (or_shifted 0 [x, y])"
proof (cases "unat x < 128 \<and> unat y < 128")
  case True
  have "or (push_bit 8 (of_nat (unat x))) (of_nat (unat y)) = push_bit 8 (of_nat (unat x)) + (of_nat (unat y) :: u64)"
  proof (rule disjunctive_add_eq_or[symmetric, OF bit_word_eqI])
    fix n assume "n < LENGTH(64)"
    have "\<not> bit (unat y) n" if "8 \<le> n" using that bit_imp_le_length[of y n] by (auto simp: bit_unsigned_iff)
    then show "bit (and (push_bit 8 (of_nat (unat x))) (of_nat (unat y) :: u64)) n = bit 0 n"
      by (cases "8 \<le> n") (simp_all add: bit_and_iff bit_push_bit_iff bit_unsigned_iff)
  qed
  also have "\<dots> = of_nat (256 * unat x + unat y)" by (simp add: push_bit_eq_mult)
  finally have "or_shifted 0 [x, y] = of_nat (256 * unat x + unat y)"
    using True by (simp add: char_u64_small)
  then have "unat (or_shifted 0 [x, y]) = take_bit 64 (256 * unat x + unat y)"
    by (simp only: unat_of_nat) (simp add: take_bit_eq_mod)
  also have "\<dots> = 256 * unat x + unat y" using True by (simp add: take_bit_nat_eq_self)
  finally show ?thesis using True by simp
next
  case False
  then have "bit (or_shifted 0 [x, y]) 63"
    by (auto simp: bit_or_iff bit_push_bit_iff bit_char_u64 top_bit)
  then have "bit (unat (or_shifted 0 [x, y])) 63" by (simp add: bit_unsigned_iff)
  then have "2 ^ 63 \<le> unat (or_shifted 0 [x, y])"
    by (metis bit_nat_iff bit_take_bit_iff less_irrefl not_le take_bit_nat_eq_self_iff)
  with False show ?thesis by auto
qed
text \<open>
  C37. The 16-bit length of a frame is read correctly when both its bytes are below 0x80; any other
  length, such as 200, becomes at least \<open>2^63\<close>, and the frame never ends.
\<close>

theorem ws_extended_length:
  assumes "wd_Op d = READ_PAYLOAD" and "ws_base_at d = Some b" and "ws_payLoad b = 126"
    and "mem_read (wd_data d) p 2 = Some [x, y]" and "2 \<le> len"
  shows "\<exists>d'. parseWsHead p len d = Inr (d', 2) \<and> wd_Op d' = READ_MASK_KEY \<and>
    (if unat x < 128 \<and> unat y < 128 then unat (wh_len (wd_head d')) = 256 * unat x + unat y
     else 2 ^ 63 \<le> unat (wh_len (wd_head d')))"
proof -
  have "parseWsHead p len d = Inr (d\<lparr>wd_head := (wd_head d)\<lparr>wh_len := or_shifted 0 [x, y]\<rparr>, wd_Op := READ_MASK_KEY\<rparr>, 2)"
    using assms by (simp add: parseWsHead_def parse_payload_def Let_def del: or_shifted.simps)
  with two_bytes[of x y] show ?thesis
    by (cases "unat x < 128 \<and> unat y < 128") (simp_all del: or_shifted.simps)
qed

theorem ws_extended_length_witness:
  "\<exists>d'. parseWsHead 2 6 ((WsDealWith_new 0 [] [0x89, 0xFE, 0, 200, 1, 2, 3, 4])\<lparr>
      wd_head := \<lparr>wh_wbs = Some 0, wh_len = 0, wh_masks = [0, 0, 0, 0]\<rparr>, wd_Op := READ_PAYLOAD\<rparr>) = Inr (d', 2) \<and>
    2 ^ 63 \<le> unat (wh_len (wd_head d'))"
  using ws_extended_length[of "(WsDealWith_new 0 [] [0x89, 0xFE, 0, 200, 1, 2, 3, 4])\<lparr>
      wd_head := \<lparr>wh_wbs = Some 0, wh_len = 0, wh_masks = [0, 0, 0, 0]\<rparr>, wd_Op := READ_PAYLOAD\<rparr>" "(0x89, 0xFE)" 2 0 200 6]
  by (auto simp: WsDealWith_new_def ws_base_at_def mem_read_def ws_payLoad_def take_Cons')

end
