(* ===== verification/WsSession.thy ===== *)
theory WsSession
  imports Service WsSticky_Correct
begin

text \<open>
  A WebSocket connection from its first byte: the handshake and the control frames behind it, each in
  a piece of its own, through the receive buffer, the handshake and the frame parser together.
\<close>

section \<open>The receive buffer in its first node\<close>

lemma new_is_filled: "memoryBuff_new 2 = filled [] 0"
  by (simp add: filled_def new_buff set_node_def ListNode_new_def fun_upd_twist)

lemma filled_write:
  assumes "ys \<noteq> []" and "length xs + length ys < 4096"
  shows "fd_read_loop (filled xs r) [Rx_data ys] = Inr (filled (xs @ ys) r, [], ys, Fd_notify)"
proof -
  have "mem_write (xs @ replicate (4096 - length xs) 0) (length xs) ys =
      Some ((xs @ ys) @ replicate (4096 - length (xs @ ys)) 0)"
    using assms(2) by (simp add: mem_write_def)
  moreover have "length ys < 4096 - length xs" using assms(2) by simp
  ultimately show ?thesis
    using assms
    by (subst fd_read_loop.simps)
       (simp add: GetWriteBuff_def mb_store_def AdjustWriteSize_def new_buff ListNode_new_def set_node_def
         filled_def Let_def)
qed

lemma filled_offer:
  assumes "ys \<noteq> []" and "length xs + length ys < 4096"
  shows "GetReadBuff (filled (xs @ ys) (length xs)) = Inr (Some ((0, length xs), length ys))"
    and "mb_load (0, length xs) (length ys) (filled (xs @ ys) (length xs)) = Inr ys"
    and "AdjustReadSize (length ys) (filled (xs @ ys) (length xs)) = Inr (filled (xs @ ys) (length (xs @ ys)))"
    and "GetReadBuff (filled xs (length xs)) = Inr None"
  using assms
  by (simp_all add: GetReadBuff_def mb_load_def AdjustReadSize_def node_at_def mem_read_def filled_def new_buff
      set_node_def ListNode_new_def Let_def)

lemma frames_read:
  assumes "wc_buff c = filled xs (length xs)" and "wc_shook c" and "ys \<noteq> []" and "length xs + length ys < 4096"
    and "ws_readData malloc (ws_MakeServerMsg c) ys (wc_ws c) = Some (Inr (w, int (length ys)))"
  shows "ws_conn_read malloc ctx c [Rx_data ys] =
    Some (Inr (c\<lparr>wc_ws := w, wc_buff := filled (xs @ ys) (length (xs @ ys))\<rparr>, int (length ys)))"
proof -
  let ?c = "c\<lparr>wc_buff := filled (xs @ ys) (length xs)\<rparr>"
  let ?c' = "c\<lparr>wc_ws := w, wc_buff := filled (xs @ ys) (length (xs @ ys))\<rparr>"
  have msg: "ws_MakeServerMsg ?c = ws_MakeServerMsg c" by (simp add: ws_MakeServerMsg_def fun_eq_iff)
  have fr: "wc_frames malloc (0, length xs) (length ys) ?c = Some (Inr (?c', int (length ys)))"
    using assms(4,5) filled_offer(2,3)[OF assms(3,4)]
    by (simp add: wc_frames_def msg)
  have stop: "GetReadBuff (wc_buff ?c') = Inr None"
    using filled_offer(4)[of "[0]" "[]"] assms(4)
    by (simp add: GetReadBuff_def node_at_def filled_def new_buff set_node_def)
  have "wc_readData malloc ctx 0 ?c = Some (Inr (?c', int (length ys)))"
    using filled_offer(1)[OF assms(3,4)] fr stop assms(2,4)
    by (subst wc_readData.simps) (simp, subst wc_readData.simps, simp)
  with filled_write[OF assms(3,4), of "length xs"] show ?thesis
    by (simp add: ws_conn_read_def conn_result_def wc_read_def fd_read_def assms(1))
qed

section \<open>Sessions\<close>

text \<open>Pieces that come one after the other, as long as the connection is not closed.\<close>

fun ws_reads :: "allocator \<Rightarrow> sha1_context \<Rightarrow> ws_conn \<Rightarrow> u8 list list \<Rightarrow> (fault + (ws_conn \<times> bool)) option" where
  "ws_reads malloc ctx c [] = Some (Inr (c, True))"
| "ws_reads malloc ctx c (xs # xss) = (case ws_conn_read malloc ctx c [Rx_data xs] of
     None \<Rightarrow> None
   | Some (Inl f) \<Rightarrow> Some (Inl f)
   | Some (Inr (c', ret)) \<Rightarrow> if ret < 0 then Some (Inr (c', False)) else ws_reads malloc ctx c' xss)"

type_synonym frame = "nat \<times> u8 list \<times> u8 list"

definition control_frame :: "frame \<Rightarrow> bool" where
  "control_frame f = (case f of (op, key, payload) \<Rightarrow> op \<in> {8, 9, 10, 15} \<and> length key = 4 \<and> payload \<noteq> [] \<and>
     length payload < 126 \<and> 0xFF \<notin> set (mask_from 0 key payload))"

definition frame_bytes :: "frame \<Rightarrow> u8 list" where
  "frame_bytes f = (case f of (op, key, payload) \<Rightarrow> client_frame op key payload)"

text \<open>What the server answers to frames when its memory holds \<open>old\<close>.\<close>

fun answers :: "u8 list \<Rightarrow> frame list \<Rightarrow> u8 list list \<Rightarrow> bool" where
  "answers old [] bs = (bs = [])"
| "answers old ((op, key, payload) # fs) bs =
     (let all = old @ frame_head op (length payload) @ key @ payload in
      if op \<in> {8, 9}
      then (\<exists>b bs'. bs = b # bs' \<and> rfc_decode b = Some (True, op, drop 6 all, [0]) \<and> answers all fs bs')
      else answers all fs bs)"

lemma length_frame_bytes: "control_frame f \<Longrightarrow> f = (op, key, payload) \<Longrightarrow> length (frame_bytes f) = 6 + length payload"
  by (simp add: control_frame_def frame_bytes_def client_frame_def frame_head_def)

lemma frames_session:
  assumes "alloc_ok malloc" and "\<forall>k. malloc k \<noteq> None"
  shows "list_all control_frame fs \<Longrightarrow> wc_buff c = filled xs (length xs) \<Longrightarrow> wc_shook c \<Longrightarrow>
    ws_quiet old (wc_ws c) \<Longrightarrow> ws_tx (wc_ws c) = [] \<Longrightarrow> length old \<le> length xs \<Longrightarrow>
    length xs + length (concat (map frame_bytes fs)) < 4096 \<Longrightarrow>
    \<exists>c' bs. ws_reads malloc ctx c (map frame_bytes fs) = Some (Inr (c', True)) \<and>
      ws_sent (wc_ws c') = ws_sent (wc_ws c) @ bs \<and> answers old fs bs"
proof (induction fs arbitrary: c xs old)
  case (Cons f fs)
  obtain op key payload where f: "f = (op, key, payload)" by (cases f)
  let ?ys = "frame_bytes f"
  define all where "all = old @ frame_head op (length payload) @ key @ payload"
  have cf: "control_frame f" using Cons.prems(1) by simp
  have op: "op \<in> {8, 9, 10, 15}" and key: "length key = 4" and pl: "payload \<noteq> []" "length payload < 126"
    "0xFF \<notin> set (mask_from 0 key payload)" using cf f by (simp_all add: control_frame_def)
  have len: "length ?ys = 6 + length payload" "length all = length old + length ?ys"
    using length_frame_bytes[OF cf f] key by (simp_all add: all_def frame_head_def)
  have fits: "length xs + length ?ys < 4096" "length all < 8192" using Cons.prems(6,7) len by simp_all
  from control_frame_run[OF assms Cons.prems(4,5) op key pl all_def, of "ws_MakeServerMsg c"] fits(2)
  obtain w where w: "ws_readData malloc (ws_MakeServerMsg c) ?ys (wc_ws c) = Some (Inr (w, int (length ?ys)))"
    "ws_quiet all w" "ws_tx w = []"
    "if op \<in> {8, 9} then \<exists>bs. ws_sent w = ws_sent (wc_ws c) @ [bs] \<and> rfc_decode bs = Some (True, op, drop 6 all, [0])
     else ws_sent w = ws_sent (wc_ws c)"
    unfolding len(1) by (auto simp: f frame_bytes_def)
  have ne: "?ys \<noteq> []" using len(1) by auto
  let ?c = "c\<lparr>wc_ws := w, wc_buff := filled (xs @ ?ys) (length (xs @ ?ys))\<rparr>"
  have rd: "ws_conn_read malloc ctx c [Rx_data ?ys] = Some (Inr (?c, int (length ?ys)))"
    by (rule frames_read[OF Cons.prems(2,3) ne fits(1) w(1)])
  have "\<exists>c' bs. ws_reads malloc ctx ?c (map frame_bytes fs) = Some (Inr (c', True)) \<and>
      ws_sent (wc_ws c') = ws_sent (wc_ws ?c) @ bs \<and> answers all fs bs"
    by (rule Cons.IH[of ?c "xs @ ?ys" all]) (use Cons.prems w len in simp_all)
  then obtain c' bs where c': "ws_reads malloc ctx ?c (map frame_bytes fs) = Some (Inr (c', True))"
      "ws_sent (wc_ws c') = ws_sent w @ bs" "answers all fs bs" by auto
  show ?case
  proof (cases "op \<in> {8, 9}")
    case True
    with w(4) obtain b where "ws_sent w = ws_sent (wc_ws c) @ [b]" "rfc_decode b = Some (True, op, drop 6 all, [0])" by auto
    with True c' rd show ?thesis by (auto simp: f all_def Let_def)
  next
    case False
    with w(4) c' rd show ?thesis by (auto simp: f all_def Let_def)
  qed
qed simp

text \<open>
  C5. From its first byte: a new connection stays open, and sends the response of RFC 6455 followed by one answer for
  every close or ping frame, if it receives a request with a key of 24 characters on a line \<open>Sec-WebSocket-Key: \<close> in
  just this form, and then control frames of 1 to 125 bytes of data without a masked byte 0xFF, the request and each
  frame in a piece of its own and less than 4096 bytes in all, and if every send succeeds. An answer has the opcode of its
  frame, and its payload is everything the memory holds behind its first 6 bytes. (What becomes of frames without
  data or with a masked 0xFF, which are not answered, is C14.)
\<close>

theorem ws_session:
  assumes "alloc_ok malloc" and "\<forall>n. malloc n \<noteq> None" and "length (Message_Block ctx) = 64"
    and "\<forall>l \<in> set ls. plain_line l \<and> \<not> strstr l WS_HS_REQ"
    and "length key = 24" and "set key \<inter> {0, 10, 13, 32} = {}"
    and "req = ws_request ls key rest" and "0 \<notin> set req" and "strstr req (CRLF @ CRLF)"
    and "list_all control_frame fs" and "length (concat (req # map frame_bytes fs)) < 4096"
    and "length mem = 8192"
  shows "\<exists>c bs. ws_reads malloc ctx (WsConnect_new (WsStickyWrap_new len0 masks0 mem pmem []) i) (req # map frame_bytes fs) =
      Some (Inr (c, True)) \<and> ws_sent (wc_ws c) = ws_response key # bs \<and> answers [] fs bs"
proof -
  let ?w = "WsStickyWrap_new len0 masks0 mem pmem []"
  let ?c = "\<lparr>wc_buff = filled req (length req), wc_ws = ?w\<lparr>ws_sent := ws_sent ?w @ [ws_response key], ws_tx := []\<rparr>,
     wc_shook = True, wc_id = i\<rparr>"
  have w: "ws_tx ?w = []" "ws_sent ?w = []" by (simp_all add: WsStickyWrap_new_def)
  have len: "length req < 4096" "length req + length (concat (map frame_bytes fs)) < 4096" using assms(11) by simp_all
  have "ws_conn_read malloc ctx (WsConnect_new ?w i) [Rx_data req] = Some (Inr (?c, int (length req)))"
    by (simp add: ws_conn_read_def conn_result_def handshake_run[OF assms(1-8) len(1) w(1) assms(9)])
  moreover have "\<exists>c bs. ws_reads malloc ctx ?c (map frame_bytes fs) = Some (Inr (c, True)) \<and>
      ws_sent (wc_ws c) = ws_sent (wc_ws ?c) @ bs \<and> answers [] fs bs"
    by (rule frames_session[OF assms(1,2,10)]) (use len assms(12) in \<open>simp_all add: ws_quiet_new\<close>)
  ultimately show ?thesis using w(2) by auto
qed

theorem ws_session_witness:
  "\<exists>c b. ws_reads zero_alloc raw_context (WsConnect_new (WsStickyWrap_new 0 [] (replicate 8192 0) [] []) 1)
      [ws_request [bytes ''GET / HTTP/1.1''] (bytes ''dGhlIHNhbXBsZSBub25jZQ=='') CRLF, client_frame 9 [1, 2, 3, 4] [104, 105]] =
        Some (Inr (c, True)) \<and>
    ws_sent (wc_ws c) = [ws_response (bytes ''dGhlIHNhbXBsZSBub25jZQ==''), b] \<and> rfc_decode b = Some (True, 9, [104, 105], [0])"
proof -
  let ?l = "bytes ''GET / HTTP/1.1''" and ?k = "bytes ''dGhlIHNhbXBsZSBub25jZQ==''"
  let ?r = "ws_request [?l] ?k CRLF" and ?f = "(9, [1, 2, 3, 4], [104, 105]) :: frame"
  have "\<forall>n. zero_alloc n \<noteq> None" "length (Message_Block raw_context) = 64" "length ?k = 24"
    "set ?k \<inter> {0, 10, 13, 32} = {}" "plain_line ?l" "\<not> strstr ?l WS_HS_REQ"
    by (simp_all add: zero_alloc_def raw_context_def bytes_def plain_line_def WS_HS_REQ_def)
  moreover have "length ?r = 63" "0 \<notin> set ?r" "strstr ?r (CRLF @ CRLF)"
    by (simp_all add: ws_request_def bytes_def WS_HS_REQ_def CRLF_def)
  moreover have "control_frame ?f" "length (frame_bytes ?f) = 8"
    by (simp_all add: control_frame_def frame_bytes_def client_frame_def frame_head_def)
  ultimately show ?thesis
    using ws_session[of zero_alloc raw_context "[?l]" ?k ?r CRLF "[?f]" "replicate 8192 0" 0 "[]" "[]" 1]
    by (auto simp: frame_bytes_def frame_head_def)
qed

end
