(* ===== verification/Gate.thy ===== *)
theory Gate
  imports Service
begin

text \<open>
  ExtNet/Gate/GateServer.cpp: the thread that \<open>OpenServer\<close> starts takes the packets of the WebSocket
  service until \<open>OnStopServer\<close> resets \<open>IsRun\<close> and joins it. The flag is taken to be read and
  written atomically; the steps of the two threads interleave.
\<close>

section \<open>State\<close>

text \<open>The thread of \<open>MainThread\<close>: before \<open>IsRun = true\<close>, before the test, before \<open>Swap\<close>, returned.\<close>

datatype gate_pc = Gt_start | Gt_test | Gt_body | Gt_done

text \<open>The thread that calls \<open>OnStopServer\<close>: before it, in \<open>join\<close>, behind it.\<close>

datatype stop_pc = Gm_running | Gm_joining | Gm_joined

record gate =
  g_run :: bool
  g_thread :: gate_pc
  g_main :: stop_pc
  g_service :: ws_service
  g_dropped :: "u8 list list"

text \<open>The server when \<open>OpenServer\<close> has started the thread; \<open>IsRun\<close> is not initialised.\<close>

definition gate_opened :: "bool \<Rightarrow> ws_service \<Rightarrow> gate" where
  "gate_opened r s = \<lparr>g_run = r, g_thread = Gt_start, g_main = Gm_running, g_service = s, g_dropped = []\<rparr>"

definition gate_begin :: "gate \<Rightarrow> gate" where
  "gate_begin g = g\<lparr>g_run := True, g_thread := Gt_test\<rparr>"

definition gate_test :: "gate \<Rightarrow> gate" where
  "gate_test g = g\<lparr>g_thread := if g_run g then Gt_body else Gt_done\<rparr>"

text \<open>The list that \<open>Swap\<close> fills is destroyed with its pointers; the packets are not deleted.\<close>

definition gate_swap :: "gate \<Rightarrow> gate" where
  "gate_swap g = (case Swap [] (g_service g) of
     (s, list) \<Rightarrow> g\<lparr>g_service := s, g_dropped := g_dropped g @ list, g_thread := Gt_test\<rparr>)"

definition gate_stop :: "gate \<Rightarrow> gate" where
  "gate_stop g = g\<lparr>g_run := False, g_main := Gm_joining\<rparr>"

inductive gate_step :: "gate \<Rightarrow> gate \<Rightarrow> bool" where
  gs_begin: "g_thread g = Gt_start \<Longrightarrow> gate_step g (gate_begin g)"
| gs_test: "g_thread g = Gt_test \<Longrightarrow> gate_step g (gate_test g)"
| gs_swap: "g_thread g = Gt_body \<Longrightarrow> gate_step g (gate_swap g)"
| gs_add: "g_main g = Gm_running \<Longrightarrow> gate_step g (g\<lparr>g_service := AddPack msg (g_service g)\<rparr>)"
| gs_stop: "g_main g = Gm_running \<Longrightarrow> gate_step g (gate_stop g)"
| gs_join: "g_main g = Gm_joining \<Longrightarrow> g_thread g = Gt_done \<Longrightarrow> gate_step g (g\<lparr>g_main := Gm_joined\<rparr>)"

inductive_cases gate_stepE: "gate_step g h"

lemmas gate_defs = gate_opened_def gate_begin_def gate_test_def gate_swap_def gate_stop_def Swap_def

section \<open>Stopping\<close>

text \<open>\<open>OnStopServer\<close> came before the thread had set the flag: the thread never ends.\<close>

definition gate_late :: "gate \<Rightarrow> bool" where
  "gate_late g \<longleftrightarrow> g_main g = Gm_joining \<and> (g_thread g = Gt_start \<or> g_run g \<and> g_thread g \<noteq> Gt_done)"

text \<open>The flag is reset for good, and the thread past its start.\<close>

definition gate_ending :: "gate \<Rightarrow> bool" where
  "gate_ending g \<longleftrightarrow> g_main g \<noteq> Gm_running \<and> \<not> g_run g \<and> g_thread g \<noteq> Gt_start"

definition gate_left :: "gate \<Rightarrow> nat" where
  "gate_left g = (case g_thread g of Gt_body \<Rightarrow> 3 | Gt_test \<Rightarrow> 2 | _ \<Rightarrow> 1) + (if g_main g = Gm_joined then 0 else 1)"

interpretation late: step_invariant gate_step gate_late
  by unfold_locales (auto elim!: gate_stepE simp: gate_late_def gate_defs)

interpretation ending: measured_step gate_step gate_ending gate_left
  by unfold_locales (auto elim!: gate_stepE simp: gate_ending_def gate_left_def gate_defs)

text \<open>The invariant of every reachable state: in \<open>join\<close> one of the two holds.\<close>

definition gate_inv :: "gate \<Rightarrow> bool" where
  "gate_inv g \<longleftrightarrow> (g_main g = Gm_running \<and> g_thread g \<noteq> Gt_done \<and> (g_thread g \<noteq> Gt_start \<longrightarrow> g_run g)) \<or>
     gate_late g \<or> gate_ending g"

interpretation reach: step_invariant gate_step gate_inv
proof
  show "gate_inv h" if "gate_inv g" "gate_step g h" for g h
    using that(2,1)
    by cases (auto simp: gate_inv_def gate_late_def gate_ending_def gate_defs split: if_splits)
qed

lemma gate_end_joined:
  assumes "gate_ending g" and "\<forall>h. \<not> gate_step g h"
  shows "g_main g = Gm_joined"
proof (rule ccontr)
  assume "g_main g \<noteq> Gm_joined"
  then have "g_main g = Gm_joining" using assms(1) by (cases "g_main g") (auto simp: gate_ending_def)
  with assms show False
    by (cases "g_thread g") (auto simp: gate_ending_def intro: gate_step.intros)
qed

text \<open>
  C22. When \<open>OnStopServer\<close> is in \<open>join\<close>, what decides is whether the thread had set \<open>IsRun\<close> before it
  was reset. If it had, the thread is left within four steps and \<open>OnStopServer\<close> returns; if it had not, the
  thread sets the flag again and \<open>OnStopServer\<close> never returns, whatever happens.
\<close>

theorem gate_stop_returns:
  assumes "gate_step\<^sup>*\<^sup>* (gate_opened r s) g" and "g_main g = Gm_joining"
  shows "if gate_late g then \<forall>h. gate_step\<^sup>*\<^sup>* g h \<longrightarrow> g_main h = Gm_joining
    else (\<forall>n h. (gate_step ^^ n) g h \<longrightarrow> n \<le> 4) \<and>
      (\<forall>h. gate_step\<^sup>*\<^sup>* g h \<and> (\<forall>k. \<not> gate_step h k) \<longrightarrow> g_main h = Gm_joined) \<and>
      (\<exists>h. gate_step\<^sup>*\<^sup>* g h \<and> g_main h = Gm_joined)"
proof (cases "gate_late g")
  case True
  then show ?thesis using late.inv_run by (auto simp: gate_late_def)
next
  case False
  have "gate_inv (gate_opened r s)" by (simp add: gate_inv_def gate_defs)
  from reach.inv_run[OF assms(1) this] False assms(2) have e: "gate_ending g" by (simp add: gate_inv_def)
  have "gate_left g \<le> 4" by (auto simp: gate_left_def split: gate_pc.split)
  then have "n \<le> 4" if "(gate_step ^^ n) g h" for n h using ending.run_bound[OF that e] by simp
  moreover have "g_main h = Gm_joined" if "gate_step\<^sup>*\<^sup>* g h" "\<forall>k. \<not> gate_step h k" for h
    using ending.inv_run[OF that(1) e] gate_end_joined that(2) by blast
  ultimately show ?thesis using False ending.reaches_end[OF e] by auto
qed

theorem gate_stop_returns_witness:
  "(\<exists>g. gate_step\<^sup>*\<^sup>* (gate_opened False WsService_new) g \<and> gate_late g \<and>
     (\<forall>h. gate_step\<^sup>*\<^sup>* g h \<longrightarrow> g_main h = Gm_joining)) \<and>
   (\<exists>g. gate_step\<^sup>*\<^sup>* (gate_opened False WsService_new) g \<and> (\<exists>h. gate_step\<^sup>*\<^sup>* g h \<and> g_main h = Gm_joined))"
proof -
  let ?g = "gate_opened False WsService_new"
  have "gate_step ?g (gate_stop ?g)" by (rule gs_stop) (simp add: gate_opened_def)
  then have 1: "gate_step\<^sup>*\<^sup>* ?g (gate_stop ?g)" "g_main (gate_stop ?g) = Gm_joining" "gate_late (gate_stop ?g)"
    by (auto simp: gate_defs gate_late_def)
  have b: "gate_step ?g (gate_begin ?g)" by (rule gs_begin) (simp add: gate_opened_def)
  have s: "gate_step (gate_begin ?g) (gate_stop (gate_begin ?g))" by (rule gs_stop) (simp add: gate_opened_def gate_begin_def)
  have 2: "gate_step\<^sup>*\<^sup>* ?g (gate_stop (gate_begin ?g))" using b s by (meson converse_rtranclp_into_rtranclp r_into_rtranclp)
  have 3: "g_main (gate_stop (gate_begin ?g)) = Gm_joining" "\<not> gate_late (gate_stop (gate_begin ?g))"
    by (simp_all add: gate_defs gate_late_def)
  show ?thesis
    using gate_stop_returns[OF 1(1,2)] 1 gate_stop_returns[OF 2 3(1)] 2 3(2) by auto
qed

end
