(* ===== verification/Console.thy ===== *)
theory Console
  imports Lifetime Handshake_Correct
begin

text \<open>
  The main functions of the second library, src/Net.cc and ExtNet/Gate/Gate.cpp: a service is started, lines are
  read from standard input until one is \<open>exit\<close>, and the service is stopped. Standard input is a stream of the
  bytes to come up to its end, with the error state of \<open>std::cin\<close>.
\<close>

section \<open>Standard input\<close>

record istream =
  is_rest :: "u8 list"
  is_good :: bool

text \<open>
  \<open>getline\<close> of at most \<open>n\<close> characters, as the C++ standard orders its tests: the end of the input sets
  \<open>eofbit\<close>, a newline is taken and not stored, and where a character is left that no longer fits \<open>failbit\<close> is set.
\<close>

fun getline_chars :: "nat \<Rightarrow> u8 list \<Rightarrow> u8 list \<times> istream" where
  "getline_chars n [] = ([], \<lparr>is_rest = [], is_good = False\<rparr>)"
| "getline_chars n (c # cs) =
     (if c = 10 then ([], \<lparr>is_rest = cs, is_good = True\<rparr>)
      else if n = 0 then ([], \<lparr>is_rest = c # cs, is_good = False\<rparr>)
      else (case getline_chars (n - 1) cs of (xs, s) \<Rightarrow> (c # xs, s)))"

text \<open>\<open>char cmdbuf[128] = {0}; std::cin.getline(cmdbuf, sizeof(cmdbuf))\<close>: on a bad stream nothing is read.\<close>

definition getline_buf :: "istream \<Rightarrow> u8 list \<times> istream" where
  "getline_buf s = (if \<not> is_good s then (replicate 128 0, s)
     else (case getline_chars 127 (is_rest s) of (xs, s') \<Rightarrow> (xs @ replicate (128 - length xs) 0, s')))"

definition exit_word :: "u8 list" where
  "exit_word = [101, 120, 105, 116]"

text \<open>
  The loop over the lines, with what it prints: the text of the buffer up to a NUL. \<open>sleep(0.5)\<close> is
  \<open>sleep(0)\<close>, since the argument is an integer.
\<close>

partial_function (option) console_loop :: "u8 list list \<Rightarrow> istream \<Rightarrow> (u8 list list \<times> istream) option" where
  "console_loop out s =
     (let cmdbuf = fst (getline_buf s); s' = snd (getline_buf s); text = takeWhile (\<lambda>b. b \<noteq> 0) cmdbuf in
      if text = exit_word then Some (out @ [text], s') else console_loop (out @ [text]) s')"

declare console_loop.simps [code]

section \<open>Net.cc\<close>

definition net_service_new :: net_service where
  "net_service_new = \<lparr>nv_addr = [], nv_port = 0, nv_listenfd = 0, nv_ev = False, nv_handle = False\<rparr>"

text \<open>
  \<open>main\<close> runs beside the thread of the service: while it is in the loop over the lines only that thread takes steps,
  and the loop, which touches nothing of the service, ends if and when \<open>console_loop\<close> does; in \<open>OnStop\<close> the steps of the
  two threads interleave. \<open>OnStop\<close> empties the list of packets behind \<open>join\<close>. When the service has not been started
  \<open>main\<close> returns.
\<close>

datatype net_pc = Mp_console | Mp_stop | Mp_returned

record net_main =
  np_pc :: net_pc
  np_service :: net_service
  np_life :: "ws_service life"

definition net_main_new :: "os \<Rightarrow> net_main" where
  "net_main_new os = (case fst (run_state (ws_OnStart os (SetAddrAndPort ''0.0.0.0'' 10086 net_service_new)) []) of
     (nv, started) \<Rightarrow> \<lparr>np_pc = if started then Mp_console else Mp_returned, np_service = nv,
        np_life = life_new (nv_listenfd nv) WsService_new\<rparr>)"

inductive net_main_step :: "allocator \<Rightarrow> sha1_context \<Rightarrow> u8 list \<Rightarrow> net_main \<Rightarrow> fault + net_main \<Rightarrow> bool" for malloc ctx input where
  np_serve: "np_pc p = Mp_console \<Longrightarrow> ws_life_step malloc ctx (np_life p) r \<Longrightarrow> \<forall>t. r = Inr t \<longrightarrow> lf_stop t = Stop_none \<Longrightarrow>
    net_main_step malloc ctx input p (map_sum id (\<lambda>t. p\<lparr>np_life := t\<rparr>) r)"
| np_exit: "np_pc p = Mp_console \<Longrightarrow> console_loop [] \<lparr>is_rest = input, is_good = True\<rparr> = Some out \<Longrightarrow>
    net_main_step malloc ctx input p (Inr (p\<lparr>np_pc := Mp_stop\<rparr>))"
| np_stop: "np_pc p = Mp_stop \<Longrightarrow> ws_life_step malloc ctx (np_life p) r \<Longrightarrow>
    net_main_step malloc ctx input p (map_sum id (\<lambda>t. p\<lparr>np_life := t\<rparr>) r)"
| np_return: "np_pc p = Mp_stop \<Longrightarrow> lf_stop (np_life p) = Stop_done \<Longrightarrow>
    net_main_step malloc ctx input p (Inr (p\<lparr>np_pc := Mp_returned,
      np_life := (np_life p)\<lparr>lf_sv := (lf_sv (np_life p))\<lparr>sv_packs := []\<rparr>\<rparr>\<rparr>))"

inductive_cases net_main_stepE: "net_main_step malloc ctx input p r"

section \<open>Gate.cpp\<close>

text \<open>
  \<open>OnStopServer\<close> in a state in which \<open>OpenServer\<close> may have failed: the last argument says whether \<open>_handle\<close>
  has been set. How a thread that has been started is joined is modelled in Gate.
\<close>

abbreviation ws_OnStop :: "allocator \<Rightarrow> sha1_context \<Rightarrow> net_service \<Rightarrow> ws_service life \<Rightarrow> fault + ws_service life \<Rightarrow> bool" where
  "ws_OnStop malloc ctx \<equiv> net_OnStop wc_id ws_clear (range WsConnect_new) (ws_conn_read malloc ctx)"

abbreviation tcp_OnStop :: "net_service \<Rightarrow> tcp_conn service life \<Rightarrow> fault + tcp_conn service life \<Rightarrow> bool" where
  "tcp_OnStop \<equiv> net_OnStop tc_id tcp_clear (range TcpConnect_new) tcp_conn_read"

inductive gate_OnStopServer ::
  "allocator \<Rightarrow> sha1_context \<Rightarrow> net_service \<times> ws_service life \<Rightarrow> net_service \<times> tcp_conn service life \<Rightarrow> bool \<Rightarrow>
   fault + unit \<Rightarrow> bool" for malloc ctx ws tcp handle where
  gst_ws: "ws_OnStop malloc ctx (fst ws) (snd ws) (Inl f) \<Longrightarrow> gate_OnStopServer malloc ctx ws tcp handle (Inl f)"
| gst_tcp: "ws_OnStop malloc ctx (fst ws) (snd ws) (Inr s) \<Longrightarrow> tcp_OnStop (fst tcp) (snd tcp) (Inl f) \<Longrightarrow>
    gate_OnStopServer malloc ctx ws tcp handle (Inl f)"
| gst_join: "ws_OnStop malloc ctx (fst ws) (snd ws) (Inr s) \<Longrightarrow> tcp_OnStop (fst tcp) (snd tcp) (Inr t) \<Longrightarrow>
    gate_OnStopServer malloc ctx ws tcp handle (if handle then Inr () else Inl Undef)"

text \<open>\<open>s\<close> and \<open>t\<close> are what the threads of the services have made of their connections when \<open>OnStopServer\<close> is called.\<close>

inductive gate_main ::
  "allocator \<Rightarrow> sha1_context \<Rightarrow> os \<Rightarrow> os \<Rightarrow> ws_service life \<Rightarrow> tcp_conn service life \<Rightarrow> u8 list \<Rightarrow> fault + unit \<Rightarrow> bool"
  for malloc ctx ws_os tcp_os s t input where
  gm_open: "fst (run_state (OpenServer ws_os tcp_os net_service_new net_service_new) []) = (ws, tcp, Inl f) \<Longrightarrow>
    gate_main malloc ctx ws_os tcp_os s t input (Inl f)"
| gm_stop: "fst (run_state (OpenServer ws_os tcp_os net_service_new net_service_new) []) = (ws, tcp, Inr n) \<Longrightarrow>
    console_loop [] \<lparr>is_rest = input, is_good = True\<rparr> = Some out \<Longrightarrow>
    gate_OnStopServer malloc ctx (ws, s) (tcp, t) False r \<Longrightarrow> gate_main malloc ctx ws_os tcp_os s t input r"

section \<open>When the loop ends\<close>

text \<open>A line whose text, up to a NUL, is \<open>exit\<close>, behind lines that are not and fit into the buffer.\<close>

definition says_exit :: "u8 list \<Rightarrow> bool" where
  "says_exit l \<longleftrightarrow> takeWhile (\<lambda>b. b \<noteq> 0) l = exit_word"

definition console_exits :: "u8 list \<Rightarrow> bool" where
  "console_exits input \<longleftrightarrow> (\<exists>ls l rest. input = concat (map (\<lambda>m. m @ [10]) ls) @ l @ rest \<and>
     (rest = [] \<or> hd rest = 10) \<and> 10 \<notin> set l \<and> says_exit l \<and>
     (\<forall>m \<in> set ls. 10 \<notin> set m \<and> length m \<le> 127 \<and> \<not> says_exit m))"

lemma getline_line: "10 \<notin> set l \<Longrightarrow> length l \<le> n \<Longrightarrow> getline_chars n (l @ 10 # rest) = (l, \<lparr>is_rest = rest, is_good = True\<rparr>)"
  by (induction l arbitrary: n) auto

lemma getline_end: "10 \<notin> set l \<Longrightarrow> length l \<le> n \<Longrightarrow> getline_chars n l = (l, \<lparr>is_rest = [], is_good = False\<rparr>)"
  by (induction l arbitrary: n) auto

lemma getline_long: "10 \<notin> set l \<Longrightarrow> n < length l \<Longrightarrow>
    getline_chars n (l @ rest) = (take n l, \<lparr>is_rest = drop n l @ rest, is_good = False\<rparr>)"
proof (induction l arbitrary: n)
  case (Cons c l)
  then show ?case by (cases n) auto
qed simp

text \<open>What one round reads, by the first line of the input.\<close>

definition first_line :: "u8 list \<Rightarrow> u8 list" where
  "first_line input = takeWhile (\<lambda>b. b \<noteq> 10) input"

definition later_lines :: "u8 list \<Rightarrow> u8 list" where
  "later_lines input = dropWhile (\<lambda>b. b \<noteq> 10) input"

lemma lines_split: "input = first_line input @ later_lines input" "10 \<notin> set (first_line input)"
  "later_lines input = [] \<or> (\<exists>rest. later_lines input = 10 # rest)"
proof -
  show "input = first_line input @ later_lines input" by (simp add: first_line_def later_lines_def)
  show "10 \<notin> set (first_line input)" by (auto simp: first_line_def dest: set_takeWhileD)
  show "later_lines input = [] \<or> (\<exists>rest. later_lines input = 10 # rest)"
    by (cases "later_lines input") (auto simp: later_lines_def dest: dropWhile_eq_Cons_conv[THEN iffD1])
qed

lemma text_cut: "takeWhile (\<lambda>b. b \<noteq> 0) (take 127 l) = exit_word \<longleftrightarrow> says_exit l"
proof (cases "length l \<le> 127")
  case False
  obtain a b where l: "l = a @ b" "length a = 127" "take 127 l = a"
    using False by (metis append_take_drop_id length_take min.absorb2 nat_le_linear)
  show ?thesis
  proof (cases "0 \<in> set a")
    case True
    then have "takeWhile (\<lambda>b. b \<noteq> 0) (a @ b) = takeWhile (\<lambda>b. b \<noteq> 0) a"
      by (intro takeWhile_append1[of 0]) simp_all
    then show ?thesis using l by (simp only: says_exit_def)
  next
    case False
    then have "takeWhile (\<lambda>b. b \<noteq> 0) (a @ x) = a @ takeWhile (\<lambda>b. b \<noteq> 0) x" for x
      by (intro takeWhile_append2) auto
    from this[of "[]"] this[of b] have "takeWhile (\<lambda>b. b \<noteq> 0) a = a"
      "takeWhile (\<lambda>b. b \<noteq> 0) l = a @ takeWhile (\<lambda>b. b \<noteq> 0) b" by (simp_all only: l takeWhile.simps append_Nil2)
    moreover have "a @ x \<noteq> exit_word" for x
    proof
      assume "a @ x = exit_word"
      then have "length (a @ x) = length exit_word" by simp
      with l(2) show False by (simp add: exit_word_def)
    qed
    from this[of "[]"] this have "a \<noteq> exit_word" "\<And>x. a @ x \<noteq> exit_word" by simp_all
    ultimately show ?thesis by (simp only: says_exit_def l(3))
  qed
qed (simp add: says_exit_def)

lemma round_reads:
  assumes "is_good s"
  shows "takeWhile (\<lambda>b. b \<noteq> 0) (fst (getline_buf s)) = exit_word \<longleftrightarrow> says_exit (first_line (is_rest s))"
    and "is_good (snd (getline_buf s)) \<longleftrightarrow> length (first_line (is_rest s)) \<le> 127 \<and> later_lines (is_rest s) \<noteq> []"
    and "is_good (snd (getline_buf s)) \<Longrightarrow> later_lines (is_rest s) = 10 # is_rest (snd (getline_buf s))"
proof -
  let ?l = "first_line (is_rest s)" and ?t = "later_lines (is_rest s)"
  have i: "is_rest s = ?l @ ?t" using lines_split by blast
  consider (long) "127 < length ?l" | (last) "length ?l \<le> 127" "?t = []" | (line) r where "length ?l \<le> 127" "?t = 10 # r"
    using lines_split(3)[of "is_rest s"] by fastforce
  then obtain s' where s': "getline_chars 127 (is_rest s) = (take 127 ?l, s')"
    "is_good s' \<longleftrightarrow> length ?l \<le> 127 \<and> ?t \<noteq> []" "is_good s' \<Longrightarrow> ?t = 10 # is_rest s'"
  proof cases
    case long
    then have "getline_chars 127 (is_rest s) = (take 127 ?l, \<lparr>is_rest = drop 127 ?l @ ?t, is_good = False\<rparr>)"
      using getline_long[of ?l 127 ?t] lines_split(2)[of "is_rest s"] i by simp
    with long that show ?thesis by simp
  next
    case last
    then have "getline_chars 127 (is_rest s) = (take 127 ?l, \<lparr>is_rest = [], is_good = False\<rparr>)"
      using getline_end[of ?l 127] lines_split(2)[of "is_rest s"] i by simp
    with last that show ?thesis by simp
  next
    case line
    then have "getline_chars 127 (is_rest s) = (take 127 ?l, \<lparr>is_rest = r, is_good = True\<rparr>)"
      using getline_line[of ?l 127 r] lines_split(2)[of "is_rest s"] i by simp
    with line that[of "\<lparr>is_rest = r, is_good = True\<rparr>"] show ?thesis by simp
  qed
  have "128 - length (take 127 ?l) \<noteq> 0" by simp
  from text_padded[OF this] s'(1) assms
  show "takeWhile (\<lambda>b. b \<noteq> 0) (fst (getline_buf s)) = exit_word \<longleftrightarrow> says_exit ?l"
    by (simp only: getline_buf_def text_cut prod.case fst_conv simp_thms if_False)
  from s' assms show "is_good (snd (getline_buf s)) \<longleftrightarrow> length ?l \<le> 127 \<and> ?t \<noteq> []"
    "is_good (snd (getline_buf s)) \<Longrightarrow> ?t = 10 # is_rest (snd (getline_buf s))"
    by (simp_all add: getline_buf_def)
qed

lemma first_line_append: "10 \<notin> set l \<Longrightarrow> rest = [] \<or> hd rest = 10 \<Longrightarrow> first_line (l @ rest) = l \<and> later_lines (l @ rest) = rest"
  by (cases rest) (auto simp: first_line_def later_lines_def takeWhile_append dropWhile_append)

lemma console_exits_step:
  "console_exits input \<longleftrightarrow> says_exit (first_line input) \<or>
     length (first_line input) \<le> 127 \<and> (\<exists>r. later_lines input = 10 # r \<and> console_exits r)"
proof
  assume "console_exits input"
  then obtain ls l rest where d: "input = concat (map (\<lambda>m. m @ [10]) ls) @ l @ rest" "rest = [] \<or> hd rest = 10"
    "10 \<notin> set l" "says_exit l" "\<And>m. m \<in> set ls \<Longrightarrow> 10 \<notin> set m \<and> length m \<le> 127 \<and> \<not> says_exit m"
    unfolding console_exits_def by blast
  show "says_exit (first_line input) \<or> length (first_line input) \<le> 127 \<and> (\<exists>r. later_lines input = 10 # r \<and> console_exits r)"
  proof (cases ls)
    case Nil
    with d first_line_append[of l rest] show ?thesis by simp
  next
    case (Cons m ms)
    let ?r = "concat (map (\<lambda>m. m @ [10]) ms) @ l @ rest"
    have "input = m @ 10 # ?r" using d(1) Cons by simp
    with first_line_append[of m "10 # ?r"] d(5)[of m] Cons
    have "first_line input = m" "later_lines input = 10 # ?r" "length m \<le> 127" by simp_all
    moreover have "console_exits ?r" unfolding console_exits_def using d(2-5) Cons by (metis list.set_intros(2))
    ultimately show ?thesis by blast
  qed
next
  assume r: "says_exit (first_line input) \<or> length (first_line input) \<le> 127 \<and> (\<exists>r. later_lines input = 10 # r \<and> console_exits r)"
  show "console_exits input"
  proof (cases "says_exit (first_line input)")
    case True
    moreover have "later_lines input = [] \<or> hd (later_lines input) = 10" using lines_split(3)[of input] by auto
    ultimately show ?thesis unfolding console_exits_def using lines_split(1,2)[of input]
      by (intro exI[of _ "[]"] exI[of _ "first_line input"] exI[of _ "later_lines input"]) simp
  next
    case False
    with r obtain ls l rest where d: "later_lines input = 10 # concat (map (\<lambda>m. m @ [10]) ls) @ l @ rest"
      "rest = [] \<or> hd rest = 10" "10 \<notin> set l" "says_exit l" "length (first_line input) \<le> 127"
      "\<forall>m \<in> set ls. 10 \<notin> set m \<and> length m \<le> 127 \<and> \<not> says_exit m"
      unfolding console_exits_def by blast
    then have "input = concat (map (\<lambda>m. m @ [10]) (first_line input # ls)) @ l @ rest"
      using lines_split(1)[of input] by simp
    moreover have "\<forall>m \<in> set (first_line input # ls). 10 \<notin> set m \<and> length m \<le> 127 \<and> \<not> says_exit m"
      using d(5,6) False lines_split(2)[of input] by simp
    ultimately show ?thesis unfolding console_exits_def using d(2-4) by blast
  qed
qed

text \<open>A stream that is not good is never good again, and nothing more is read from it.\<close>

lemma console_bad: "\<not> is_good s \<Longrightarrow> console_loop out s = None"
proof -
  have "is_good s" if "console_loop out s = Some r" for r
    using that
    by (rule console_loop.raw_induct[rotated])
       (auto simp: getline_buf_def exit_word_def Let_def split: if_splits)
  then show "\<not> is_good s \<Longrightarrow> console_loop out s = None" by (cases "console_loop out s") auto
qed

lemma console_returns: "is_good s \<Longrightarrow> console_loop out s \<noteq> None \<longleftrightarrow> console_exits (is_rest s)"
proof (induction "length (is_rest s)" arbitrary: s out rule: less_induct)
  case less
  let ?s = "snd (getline_buf s)"
  note rr = round_reads[OF less.prems] and step = console_exits_step[of "is_rest s"]
  show ?case
  proof (cases "says_exit (first_line (is_rest s))")
    case True
    with rr(1) step show ?thesis by (subst console_loop.simps) (simp add: Let_def)
  next
    case False
    with rr(1) have eq: "console_loop out s = console_loop (out @ [takeWhile (\<lambda>b. b \<noteq> 0) (fst (getline_buf s))]) ?s"
      by (subst console_loop.simps) (simp add: Let_def)
    show ?thesis
    proof (cases "is_good ?s")
      case True
      with rr have "later_lines (is_rest s) = 10 # is_rest ?s" "length (first_line (is_rest s)) \<le> 127" by simp_all
      moreover from this have "length (is_rest ?s) < length (is_rest s)"
        using arg_cong[OF lines_split(1)[of "is_rest s"], of length] by simp
      ultimately show ?thesis using less.hyps[OF _ True] step False by (simp add: eq)
    next
      case bad: False
      with rr(2) step False have "\<not> console_exits (is_rest s)" by auto
      with bad show ?thesis by (simp add: eq console_bad)
    qed
  qed
qed

section \<open>Properties\<close>

definition net_service_at :: "int \<Rightarrow> net_service" where
  "net_service_at port = SetAddrAndPort ''0.0.0.0'' port net_service_new"

lemma not_started: "\<not> nv_ev (net_service_at port)" "\<not> nv_handle (net_service_at port)"
  by (simp_all add: net_service_at_def SetAddrAndPort_def net_service_new_def)

lemma net_main_opens:
  assumes "plan = service_plan ws_listen_cb (net_service_at 10086)"
  shows "np_pc (net_main_new os) = (if all_ok os plan then Mp_console else Mp_returned)"
    and "np_life (net_main_new os) = life_new (os Sys_socket) WsService_new"
    and "nv_ev (np_service (net_main_new os)) \<longleftrightarrow> all_ok os plan" "nv_handle (np_service (net_main_new os)) \<longleftrightarrow> all_ok os plan"
  using OnStart_run[of ws_listen_cb os "net_service_at 10086" "[]"] not_started[of 10086]
  by (simp_all add: net_main_new_def ws_OnStart_def assms net_service_at_def[symmetric])

text \<open>Where \<open>main\<close> is, the service is a reachable state of Lifetime.\<close>

definition main_inv :: "allocator \<Rightarrow> sha1_context \<Rightarrow> int \<Rightarrow> u8 list \<Rightarrow> net_main \<Rightarrow> bool" where
  "main_inv malloc ctx fd input p \<longleftrightarrow> (np_pc p \<noteq> Mp_console \<longrightarrow> console_exits input) \<and>
     (np_pc p = Mp_console \<longrightarrow> lf_stop (np_life p) = Stop_none) \<and>
     (\<exists>s. (\<lambda>s t. ws_life_step malloc ctx s (Inr t))\<^sup>*\<^sup>* (life_new fd WsService_new) s \<and>
       (if np_pc p = Mp_returned then lf_stop s = Stop_done \<and> np_life p = s\<lparr>lf_sv := (lf_sv s)\<lparr>sv_packs := []\<rparr>\<rparr> else np_life p = s))"

lemma main_life:
  assumes "main_inv malloc ctx fd input p" and "np_pc p \<noteq> Mp_returned" and "ws_life_step malloc ctx (np_life p) (Inr t)"
    and "np_pc p = Mp_console \<Longrightarrow> lf_stop t = Stop_none"
  shows "main_inv malloc ctx fd input (p\<lparr>np_life := t\<rparr>)"
  using assms rtranclp.rtrancl_into_rtrancl[of "\<lambda>s t. ws_life_step malloc ctx s (Inr t)" "life_new fd WsService_new" "np_life p" t]
  by (auto simp: main_inv_def)

lemma exits_loop: "console_loop [] \<lparr>is_rest = input, is_good = True\<rparr> \<noteq> None \<longleftrightarrow> console_exits input"
  using console_returns[of "\<lparr>is_rest = input, is_good = True\<rparr>"] by simp

lemma main_step:
  assumes "main_inv malloc ctx fd input p" and "net_main_step malloc ctx input p (Inr q)"
  shows "main_inv malloc ctx fd input q"
  using assms(2)
proof (rule net_main_stepE)
  fix r assume "Inr q = map_sum id (\<lambda>t. p\<lparr>np_life := t\<rparr>) r" "np_pc p = Mp_console" "ws_life_step malloc ctx (np_life p) r"
    "\<forall>t. r = Inr t \<longrightarrow> lf_stop t = Stop_none"
  then show ?thesis using main_life[OF assms(1)] by (cases r) auto
next
  fix r assume "Inr q = map_sum id (\<lambda>t. p\<lparr>np_life := t\<rparr>) r" "np_pc p = Mp_stop" "ws_life_step malloc ctx (np_life p) r"
  then show ?thesis using main_life[OF assms(1)] by (cases r) auto
qed (use assms(1) exits_loop[of input] in \<open>auto simp: main_inv_def\<close>)

interpretation program: step_invariant "\<lambda>p q. net_main_step malloc ctx input p (Inr q)" "main_inv malloc ctx fd input" for malloc ctx fd input
  by unfold_locales (rule main_step)

lemma returned_for_good:
  "(\<lambda>p q. net_main_step malloc ctx input p (Inr q))\<^sup>*\<^sup>* p q \<Longrightarrow> np_pc p = Mp_returned \<Longrightarrow> q = p"
  by (induction rule: rtranclp_induct) (auto elim: net_main_stepE)

lemma main_run:
  assumes "(\<lambda>p q. net_main_step malloc ctx input p (Inr q))\<^sup>*\<^sup>* (net_main_new os) p"
    and "all_ok os (service_plan ws_listen_cb (net_service_at 10086))"
  shows "main_inv malloc ctx (os Sys_socket) input p"
proof -
  have "main_inv malloc ctx (os Sys_socket) input (net_main_new os)"
    using net_main_opens(1,2)[OF refl, of os] assms(2) by (simp add: main_inv_def life_new_def)
  then show ?thesis by (rule program.inv_run[OF assms(1)])
qed

text \<open>A service thread that is stuck keeps \<open>main\<close> in \<open>OnStop\<close>.\<close>

definition main_stuck :: "net_main \<Rightarrow> bool" where
  "main_stuck p \<longleftrightarrow> np_pc p \<noteq> Mp_returned \<and> (\<exists>a. lf_loop (np_life p) = Loop_stuck a) \<and> lf_stop (np_life p) \<noteq> Stop_done"

interpretation stuck: step_invariant "\<lambda>p q. net_main_step malloc ctx input p (Inr q)" main_stuck for malloc ctx input
proof
  fix p q assume p: "main_stuck p" and "net_main_step malloc ctx input p (Inr q)"
  then obtain a where a: "lf_loop (np_life p) = Loop_stuck a" by (auto simp: main_stuck_def)
  from \<open>net_main_step malloc ctx input p (Inr q)\<close> show "main_stuck q"
  proof (rule net_main_stepE)
    fix r assume "Inr q = map_sum id (\<lambda>t. p\<lparr>np_life := t\<rparr>) r" "ws_life_step malloc ctx (np_life p) r"
    then show ?thesis using p ws.stuck_step[OF a] by (cases r) (auto simp: main_stuck_def)
  next
    fix r assume "Inr q = map_sum id (\<lambda>t. p\<lparr>np_life := t\<rparr>) r" "ws_life_step malloc ctx (np_life p) r"
    then show ?thesis using p ws.stuck_step[OF a] by (cases r) (auto simp: main_stuck_def)
  qed (use p in \<open>auto simp: main_stuck_def\<close>)
qed

lemma stopping_runs:
  "(\<lambda>s t. ws_life_step malloc ctx s (Inr t))\<^sup>*\<^sup>* (np_life p) t \<Longrightarrow> np_pc p = Mp_stop \<Longrightarrow>
   (\<lambda>p q. net_main_step malloc ctx input p (Inr q))\<^sup>*\<^sup>* p (p\<lparr>np_life := t\<rparr>)"
proof (induction rule: rtranclp_induct)
  case (step t u)
  have "net_main_step malloc ctx input (p\<lparr>np_life := t\<rparr>) (map_sum id (\<lambda>u. (p\<lparr>np_life := t\<rparr>)\<lparr>np_life := u\<rparr>) (Inr u))"
    by (rule np_stop) (use step.hyps(2) step.prems in simp_all)
  with step.IH[OF step.prems] show ?case by (simp add: rtranclp.rtrancl_into_rtrancl)
qed simp

lemma main_can_return:
  assumes "main_inv malloc ctx fd input p" and "sv_fresh (lf_sv (np_life p)) \<le> 2 ^ 32" and "np_pc p = Mp_console"
    and "lf_loop (np_life p) = Loop_poll" and "console_exits input"
  shows "\<exists>q. (\<lambda>p q. net_main_step malloc ctx input p (Inr q))\<^sup>*\<^sup>* p q \<and> np_pc q = Mp_returned"
proof -
  let ?s = "np_life p" and ?step = "\<lambda>p q. net_main_step malloc ctx input p (Inr q)"
  obtain out where "console_loop [] \<lparr>is_rest = input, is_good = True\<rparr> = Some out" using assms(5) exits_loop by blast
  then have ex: "net_main_step malloc ctx input p (Inr (p\<lparr>np_pc := Mp_stop\<rparr>))" by (rule np_exit[OF assms(3)])
  have run: "(\<lambda>s t. ws_life_step malloc ctx s (Inr t))\<^sup>*\<^sup>* (life_new fd WsService_new) ?s"
    using assms(1,3) by (auto simp: main_inv_def)
  have ok: "life_ok wc_id 0 ?s" by (rule ws_resources[OF run assms(2)])
  have none: "lf_stop ?s = Stop_none" using assms(1,3) by (simp add: main_inv_def)
  then have gone: "\<not> lf_gone ?s" using ok by (simp add: life_ok_def)
  define t where "t = ?s\<lparr>lf_ev := False, lf_stop := Stop_iter (sv_map (lf_sv ?s))\<rparr>"
  have n: "stop_next ws_clear ?s = Some (Inr t)" using none by (simp add: stop_next_def t_def)
  have "life_ok wc_id 0 t" using ws.life_stopping[of 0 ?s ws_clear t] ok n assms(2) by (simp add: life_inv_def t_def)
  then obtain u where u: "(\<lambda>s t. ws_life_step malloc ctx s (Inr t))\<^sup>*\<^sup>* t u" "lf_stop u = Stop_done"
    using ws.stop_finishes[of 0 t "sv_map (lf_sv ?s)" ws_clear malloc ctx] gone assms(2,4) by (auto simp: t_def)
  have "(\<lambda>s t. ws_life_step malloc ctx s (Inr t))\<^sup>*\<^sup>* ?s u" using stop_run[OF n u(1)] .
  then have "?step\<^sup>*\<^sup>* (p\<lparr>np_pc := Mp_stop\<rparr>) (p\<lparr>np_pc := Mp_stop, np_life := u\<rparr>)"
    using stopping_runs[of malloc ctx "p\<lparr>np_pc := Mp_stop\<rparr>" u input] by simp
  then have to_done: "?step\<^sup>*\<^sup>* p (p\<lparr>np_pc := Mp_stop, np_life := u\<rparr>)"
    using ex by (meson converse_rtranclp_into_rtranclp)
  moreover have "\<exists>q. ?step (p\<lparr>np_pc := Mp_stop, np_life := u\<rparr>) q \<and> np_pc q = Mp_returned"
    using np_return[of "p\<lparr>np_pc := Mp_stop, np_life := u\<rparr>" malloc ctx input] u(2) by fastforce
  ultimately show ?thesis by (meson rtranclp.rtrancl_into_rtrancl)
qed


text \<open>Two lines, the second of which says \<open>exit\<close>.\<close>

lemma sample_exits: "console_exits [104, 105, 10, 101, 120, 105, 116, 10, 120]"
  by (rule console_exits_step[THEN iffD2], rule disjI2)
     (simp add: first_line_def later_lines_def, rule console_exits_step[THEN iffD2],
      simp add: first_line_def says_exit_def exit_word_def)


text \<open>
  The gate program has no defined way to return: when both services start, \<open>OpenServer\<close> runs off its
  end; when one does not, \<open>main\<close> goes on all the same and \<open>OnStopServer\<close> stops what has not been started.
\<close>

theorem gate_main_undefined:
  assumes "gate_main malloc ctx ws_os tcp_os s t input r"
  shows "\<exists>f. r = Inl f"
  using assms by cases (auto elim: gate_OnStopServer.cases)

lemma gate_main_example:
  "gate_main zero_alloc raw_context (\<lambda>_. -1) (\<lambda>_. -1) s t exit_word (Inl Undef) \<and>
   (\<exists>f. (Inl Undef :: fault + unit) = Inl f)"
proof
  let ?ws = "(SetAddrAndPort ''0.0.0.0'' 10086 net_service_new)\<lparr>nv_listenfd := -1\<rparr>"
  have open_fails: "fst (run_state (OpenServer (\<lambda>_. -1) (\<lambda>_. -1) net_service_new net_service_new) []) = (?ws, net_service_new, Inr (-1))"
    by (simp add: OpenServer_def ws_OnStart_def OnStart_def openLister_def Let_def net_service_new_def SetAddrAndPort_def)
  have "console_exits exit_word"
    by (rule console_exits_step[THEN iffD2]) (simp add: first_line_def says_exit_def exit_word_def)
  then obtain out where out: "console_loop [] \<lparr>is_rest = exit_word, is_good = True\<rparr> = Some out" using exits_loop by blast
  have "gate_OnStopServer zero_alloc raw_context (?ws, s) (net_service_new, t) False (Inl Undef)"
    by (rule gst_ws) (simp add: net_OnStop.simps net_service_new_def SetAddrAndPort_def)
  then show main: "gate_main zero_alloc raw_context (\<lambda>_. -1) (\<lambda>_. -1) s t exit_word (Inl Undef)"
    by (rule gm_stop[OF open_fails out])
  show "\<exists>f. (Inl Undef :: fault + unit) = Inl f" by (rule gate_main_undefined[OF main])
qed

end
