(* ===== verification/Client.thy ===== *)
theory Client
  imports BaseType Handshake
begin

text \<open>
  src/client.cc: the terminal client. The bufferevent of libevent is its two buffers: received bytes are appended to its
  input before \<open>read_cb\<close> is called, \<open>bufferevent_read\<close> takes from the front, and what \<open>bufferevent_write\<close> is given is
  appended to its output. What is printed of received bytes is a value.
\<close>

section \<open>What is made of a line\<close>

text \<open>
  \<open>len\<close> is what \<open>read\<close> returned, with the bytes it stored; -1 is its failure, and the size given to \<open>memcpy\<close> is
  then huge. The result is what \<open>bufferevent_write\<close> is given.
\<close>

definition read_terminal :: "int \<Rightarrow> u8 list \<Rightarrow> fault + u8 list" where
  "read_terminal len input =
     (let buff = input @ replicate (1024 - length input) 0;
          send0 = le_bytes 2 (nat ((4 + len) mod 65536)) @ le_bytes 2 100 @ replicate 1020 0 in
      case copy_bytes send0 4 buff 0 len of
        Inl f \<Rightarrow> Inl f
      | Inr sendbuff \<Rightarrow>
          (case mem_read sendbuff 0 (nat (len + 4)) of None \<Rightarrow> Inl Undef | Some bs \<Rightarrow> Inr bs))"

text \<open>What a server reads from a packet: its length, its message id and the rest.\<close>

definition packet_of :: "u8 list \<Rightarrow> nat \<times> nat \<times> u8 list" where
  "packet_of bs = (le_value (take 2 bs), le_value (take 2 (drop 2 bs)), drop 4 bs)"

definition packet_for :: "u8 list \<Rightarrow> u8 list" where
  "packet_for input = le_bytes 2 (length input + 4) @ le_bytes 2 100 @ input"

lemma line_packet:
  assumes "length input \<le> 1020"
  shows "read_terminal (int (length input)) input = Inr (packet_for input)"
proof -
  have n: "nat (4 + int (length input)) = length input + 4" "nat (int (length input) + 4) = length input + 4" by simp_all
  show ?thesis
    using assms by (simp add: read_terminal_def packet_for_def n Let_def copy_bytes_def mem_read_def mem_write_def)
qed

lemma packet_for_head:
  assumes "length input \<le> 1020"
  shows "packet_of (packet_for input) = (length input + 4, 100, input)"
proof -
  have "le_value (le_bytes 2 (length input + 4)) = length input + 4" "le_value (le_bytes 2 100) = 100"
    using assms le_value_bytes[of _ 2] by simp_all
  then show ?thesis by (simp add: packet_of_def packet_for_def)
qed

text \<open>
  A line of up to 1020 bytes becomes a packet with its whole length, the message id 100 and the
  line; for a line of 1021 to 1024 bytes, and when \<open>read\<close> fails, the copy overflows the buffer.
\<close>

theorem client_packet:
  assumes "len = int (length input) \<or> len = -1 \<and> input = []" and "length input \<le> 1024"
  shows "if 0 \<le> len \<and> len \<le> 1020
    then \<exists>bs. read_terminal len input = Inr bs \<and> length bs = length input + 4 \<and>
      packet_of bs = (length bs, 100, input)
    else read_terminal len input = Inl Undef"
proof (cases "0 \<le> len \<and> len \<le> 1020")
  case True
  then have len: "len = int (length input)" "length input \<le> 1020" using assms(1) by auto
  with True line_packet[OF len(2)] packet_for_head[OF len(2)] show ?thesis by (simp add: packet_for_def)
next
  case False
  with assms have "read_terminal len input = Inl Undef"
    by (auto simp: read_terminal_def Let_def copy_bytes_def mem_read_def mem_write_def)
  with False show ?thesis by auto
qed

theorem client_packet_witness:
  "\<exists>bs. read_terminal 2 [104, 105] = Inr bs \<and> packet_of bs = (6, 100, [104, 105])"
  using client_packet[of 2 "[104, 105]"] by auto

section \<open>The callbacks\<close>

record client =
  cl_bev :: bool
  cl_input :: "u8 list"
  cl_output :: "u8 list"
  cl_shown :: "u8 list list"

definition client_new :: client where
  "client_new = \<lparr>cl_bev = True, cl_input = [], cl_output = [], cl_shown = []\<rparr>"

text \<open>The buffer of \<open>read_cb\<close> has no room for a NUL behind 1024 bytes.\<close>

definition cl_read_cb :: "client \<Rightarrow> fault + client" where
  "cl_read_cb c =
     (let got = take 1024 (cl_input c); buff = got @ replicate (1024 - length got) 0 in
      case c_string buff of
        None \<Rightarrow> Inl Undef
      | Some text \<Rightarrow> Inr (c\<lparr>cl_input := drop 1024 (cl_input c), cl_shown := cl_shown c @ [text]\<rparr>))"

text \<open>Called when the output has been written; it takes input all the same, and drops it.\<close>

definition cl_write_cb :: "client \<Rightarrow> client" where
  "cl_write_cb c = c\<lparr>cl_input := drop 1024 (cl_input c)\<rparr>"

definition BEV_EVENT_EOF :: nat where "BEV_EVENT_EOF = 16"
definition BEV_EVENT_ERROR :: nat where "BEV_EVENT_ERROR = 32"
definition BEV_EVENT_CONNECTED :: nat where "BEV_EVENT_CONNECTED = 128"

definition cl_event_cb :: "nat \<Rightarrow> client \<Rightarrow> client" where
  "cl_event_cb events c =
     (if and events BEV_EVENT_EOF \<noteq> 0 then c\<lparr>cl_bev := False\<rparr>
      else if and events BEV_EVENT_ERROR \<noteq> 0 then c\<lparr>cl_bev := False\<rparr>
      else if and events BEV_EVENT_CONNECTED \<noteq> 0 then c
      else c\<lparr>cl_bev := False\<rparr>)"

text \<open>
  What the loop of \<open>main\<close> calls: bytes received, output written, an event of the connection, and \<open>read\<close> from the
  terminal with its result. The bufferevent calls nothing once it is freed; the event of the terminal stays.
\<close>

datatype cl_call = Cl_received "u8 list" | Cl_written | Cl_events nat | Cl_terminal int "u8 list"

fun client_step :: "cl_call \<Rightarrow> client \<Rightarrow> fault + client" where
  "client_step (Cl_received xs) c = (if cl_bev c then cl_read_cb (c\<lparr>cl_input := cl_input c @ xs\<rparr>) else Inr c)"
| "client_step Cl_written c = Inr (if cl_bev c then cl_write_cb c else c)"
| "client_step (Cl_events e) c = Inr (if cl_bev c then cl_event_cb e c else c)"
| "client_step (Cl_terminal len input) c = (case read_terminal len input of
     Inl f \<Rightarrow> Inl f
   | Inr bs \<Rightarrow> if cl_bev c then Inr (c\<lparr>cl_output := cl_output c @ bs\<rparr>) else Inl Undef)"

fun client_run :: "cl_call list \<Rightarrow> client \<Rightarrow> fault + client" where
  "client_run [] c = Inr c"
| "client_run (x # xs) c = (case client_step x c of Inl f \<Rightarrow> Inl f | Inr c' \<Rightarrow> client_run xs c')"

section \<open>A session\<close>

text \<open>Calls without surprises, and what they typed and received.\<close>

definition closing :: "nat \<Rightarrow> bool" where
  "closing e \<longleftrightarrow> and e BEV_EVENT_EOF \<noteq> 0 \<or> and e BEV_EVENT_ERROR \<noteq> 0 \<or> and e BEV_EVENT_CONNECTED = 0"

fun calm :: "cl_call \<Rightarrow> bool" where
  "calm (Cl_received xs) \<longleftrightarrow> length xs < 1024"
| "calm Cl_written \<longleftrightarrow> True"
| "calm (Cl_events e) \<longleftrightarrow> \<not> closing e"
| "calm (Cl_terminal len input) \<longleftrightarrow> len = int (length input) \<and> length input \<le> 1020"

fun typed :: "cl_call list \<Rightarrow> u8 list list" where
  "typed [] = []"
| "typed (Cl_terminal len input # xs) = input # typed xs"
| "typed (_ # xs) = typed xs"

fun received :: "cl_call list \<Rightarrow> u8 list list" where
  "received [] = []"
| "received (Cl_received bs # xs) = takeWhile (\<lambda>b. b \<noteq> 0) bs # received xs"
| "received (_ # xs) = received xs"

text \<open>What a server that reads packet after packet makes of a stream.\<close>

function split_packets :: "u8 list \<Rightarrow> (nat \<times> u8 list) list option" where
  "split_packets bs =
     (if bs = [] then Some []
      else (let n = le_value (take 2 bs) in
        if n < 4 \<or> length bs < n then None
        else map_option (\<lambda>ps. (le_value (take 2 (drop 2 bs)), take (n - 4) (drop 4 bs)) # ps) (split_packets (drop n bs))))"
  by pat_completeness auto
termination by (relation "measure length") auto

declare split_packets.simps [simp del]

lemma split_packet_for:
  assumes "length input \<le> 1020"
  shows "split_packets (packet_for input @ bs) = map_option (\<lambda>ps. (100, input) # ps) (split_packets bs)"
proof -
  have "le_value (le_bytes 2 (length input + 4)) = length input + 4" "le_value (le_bytes 2 100) = 100"
    using assms le_value_bytes[of _ 2] by simp_all
  moreover have "le_bytes 2 x \<noteq> []" for x by (simp add: le_bytes_def)
  ultimately show ?thesis
    by (subst split_packets.simps) (simp add: packet_for_def Let_def)
qed

lemma split_lines:
  "\<forall>l \<in> set ls. length l \<le> 1020 \<Longrightarrow> split_packets (concat (map packet_for ls)) = Some (map (Pair 100) ls)"
proof (induction ls)
  case Nil
  show ?case by (subst split_packets.simps) simp
qed (simp add: split_packet_for)

lemma received_text:
  assumes "length xs < 1024" and "cl_input c = []"
  shows "cl_read_cb (c\<lparr>cl_input := xs\<rparr>) = Inr (c\<lparr>cl_shown := cl_shown c @ [takeWhile (\<lambda>b. b \<noteq> 0) xs]\<rparr>)"
proof -
  have "takeWhile (\<lambda>b. b \<noteq> 0) (xs @ replicate (1024 - length xs) 0) = takeWhile (\<lambda>b. b \<noteq> 0) xs"
    using assms(1) by (intro text_padded) simp
  with assms show ?thesis by (simp add: cl_read_cb_def c_string_def Let_def)
qed

lemma calm_run:
  "\<lbrakk>\<forall>x \<in> set xs. calm x; cl_bev c; cl_input c = []\<rbrakk> \<Longrightarrow>
   client_run xs c = Inr (c\<lparr>cl_output := cl_output c @ concat (map packet_for (typed xs)), cl_shown := cl_shown c @ received xs\<rparr>)"
proof (induction xs arbitrary: c)
  case (Cons x xs)
  show ?case
  proof (cases x)
    case (Cl_received bs)
    with Cons received_text[of bs c] show ?thesis by simp
  next
    case Cl_written
    have "cl_write_cb c = c" using Cons.prems(3) by (simp add: cl_write_cb_def)
    with Cl_written Cons show ?thesis by simp
  next
    case (Cl_events e)
    then have "cl_event_cb e c = c" using Cons.prems(1) by (simp add: cl_event_cb_def closing_def)
    with Cl_events Cons show ?thesis by simp
  next
    case (Cl_terminal len input)
    with Cons line_packet[of input] show ?thesis by simp
  qed
qed simp

lemma client_run_append:
  "client_run (xs @ ys) c = (case client_run xs c of Inl f \<Rightarrow> Inl f | Inr c' \<Rightarrow> client_run ys c')"
  by (induction xs arbitrary: c) (auto split: sum.split)

text \<open>
  C32. A session of the client: as long as the reads of the terminal succeed and return at most 1020 bytes, less than
  1024 bytes come from the server at a time and the connection stays open, a server that splits the output into packets
  finds exactly what each read of the terminal returned, each under the message id 100. That is one packet for a line, and
  an empty one for each read at the end of the input. Of each piece received the text up to a NUL is shown. Once the
  connection has been closed, the next read of at most 1020 bytes uses the freed bufferevent.
\<close>

theorem client_session:
  assumes "\<forall>x \<in> set xs. calm x" and "closing e" and "length line \<le> 1020"
  shows "\<exists>c. client_run xs client_new = Inr c \<and> split_packets (cl_output c) = Some (map (Pair 100) (typed xs)) \<and>
    cl_shown c = received xs \<and>
    client_run (xs @ [Cl_events e, Cl_terminal (int (length line)) line]) client_new = Inl Undef"
proof -
  note run = calm_run[OF assms(1), of client_new]
  have "\<forall>l \<in> set (typed xs). length l \<le> 1020" using assms(1) by (induction xs rule: typed.induct) auto
  moreover have "\<not> cl_bev (cl_event_cb e c)" for c using assms(2) by (auto simp: cl_event_cb_def closing_def)
  ultimately show ?thesis
    using run line_packet[OF assms(3)] split_lines[of "typed xs"]
    by (simp add: client_run_append client_new_def)
qed

theorem client_session_witness:
  "\<exists>c. client_run [Cl_events 128, Cl_terminal 2 [104, 105], Cl_received [111, 107, 0, 1], Cl_terminal 0 []] client_new = Inr c \<and>
    split_packets (cl_output c) = Some [(100, [104, 105]), (100, [])] \<and> cl_shown c = [[111, 107]]"
proof -
  let ?xs = "[Cl_events 128, Cl_terminal 2 [104, 105], Cl_received [111, 107, 0, 1], Cl_terminal 0 []]"
  have "and (128::nat) 16 = 0" "and (128::nat) 32 = 0" by simp_all
  then have "\<forall>x \<in> set ?xs. calm x" "closing 16"
    by (simp_all add: closing_def BEV_EVENT_EOF_def BEV_EVENT_ERROR_def BEV_EVENT_CONNECTED_def)
  from client_session[OF this, of "[]"] show ?thesis by (simp del: client_run.simps) blast
qed

end
