(* ===== verification/StickyWrap.thy ===== *)
theory StickyWrap
  imports WsConnect WsSticky_Correct
begin

text \<open>
  ExtNet/memoryBuff/stickyWrap.h and stickyWrap.cpp: an abstract class that does the handshake, parses a frame
  and assembles a packet in one function. Its memory is that of a \<open>pack_deal\<close> whose head pointer is set.
  \<open>MakeServerMsg\<close> is pure virtual: its calls are recorded with the bytes they are given. The head of the
  frame is local to \<open>parseWsHead\<close>, which never reads it again.
\<close>

section \<open>State\<close>

record sticky =
  st_buff :: memory_buff
  st_pack :: pack_deal
  st_shook :: bool
  st_sent :: "u8 list list"
  st_tx :: "int list"
  st_msgs :: "u8 list list"

definition StickyWrap_new :: "memory_buff \<Rightarrow> int list \<Rightarrow> sticky" where
  "StickyWrap_new b txs = \<lparr>st_buff = b,
     st_pack = \<lparr>pk_head = Some 0, pk_data = replicate 4096 0, pk_size = 0, pk_cap = 4096\<rparr>,
     st_shook = False, st_sent = [], st_tx = txs, st_msgs = []\<rparr>"

section \<open>do\_handshake\<close>

definition st_do_handshake :: "allocator \<Rightarrow> sha1_context \<Rightarrow> u8 list \<Rightarrow> sticky \<Rightarrow> fault + (sticky \<times> int)" where
  "st_do_handshake malloc ctx mem s = (case c_string mem of
     None \<Rightarrow> Inl Undef
   | Some buff \<Rightarrow>
       if \<not> strstr buff (CRLF @ CRLF) then Inr (s, -1)
       else
         (case get_handshake_response malloc ctx buff of
            Inl f \<Rightarrow> Inl f
          | Inr (ret, response) \<Rightarrow>
              if ret < 0 then Inr (s, -1)
              else
                (case Option.bind response c_string of
                   None \<Rightarrow> Inl Undef
                 | Some text \<Rightarrow>
                     (case send text (st_tx s) of
                        (n, txs) \<Rightarrow> Inr (s\<lparr>st_sent := st_sent s @ [text], st_tx := txs\<rparr>, if n < 0 then -1 else 0)))))"

section \<open>parseWsHead\<close>

text \<open>
  \<open>mem\<close> is the memory from the given pointer to the end of its block. The payload is unmasked for as many bytes
  as the frame says, however many have been received; a byte 0xFF ends the function with -1.
\<close>

fun st_unmask :: "u8 list \<Rightarrow> nat \<Rightarrow> nat \<Rightarrow> nat \<Rightarrow> u8 list \<Rightarrow> fault + (u8 list \<times> bool)" where
  "st_unmask masks 0 i off mem = Inr (mem, True)"
| "st_unmask masks (Suc k) i off mem =
     (if off + i < length mem then
        (if mem ! (off + i) = 0xFF then Inr (mem, False)
         else st_unmask masks k (Suc i) off (mem[off + i := xor (mem ! (off + i)) (masks ! (i mod 4))]))
      else Inl Undef)"

definition st_parseWsHead :: "u8 list \<Rightarrow> nat \<Rightarrow> fault + (u8 list \<times> int)" where
  "st_parseWsHead mem len =
     (if \<not> 2 < len then Inr (mem, 0)
      else
        (case mem_read mem 0 2 of
           None \<Rightarrow> Inl Undef
         | Some wbs \<Rightarrow>
             (let payLoad = ws_payLoad (wbs ! 0, wbs ! 1);
                  ext = (if payLoad < 126 then 0 else if payLoad = 126 then 2 else 8) in
              case mem_read mem 2 ext of
                None \<Rightarrow> Inl Undef
              | Some xs \<Rightarrow>
                  (let n = (if payLoad < 126 then of_nat payLoad else or_shifted 0 xs) in
                   if 65536 < n then Inr (mem, -1)
                   else
                     (case mem_read mem (2 + ext) 4 of
                        None \<Rightarrow> Inl Undef
                      | Some masks \<Rightarrow>
                          (case st_unmask masks (unat n) 0 (6 + ext) mem of
                             Inl f \<Rightarrow> Inl f
                           | Inr (mem', complete) \<Rightarrow> Inr (mem', if complete then int (6 + ext) else -1)))))))"

section \<open>readData\<close>

text \<open>\<open>src\<close> is the memory at \<open>pReadBuff\<close>. First the head of the packet, then its body, copied from the same place.\<close>

definition st_head :: "u8 list \<Rightarrow> nat \<Rightarrow> pack_deal \<Rightarrow> fault + (pack_deal \<times> nat)" where
  "st_head src len pk =
     (if pk_size pk < pk_headSize then
        (let need = pk_headSize - pk_size pk; cpsize = (if len > need then need else len) in
         case copy_bytes (pk_data pk) (int (pk_size pk)) src 0 (int cpsize) of
           Inl f \<Rightarrow> Inl f
         | Inr m \<Rightarrow> Inr (pk\<lparr>pk_data := m, pk_size := pk_size pk + cpsize\<rparr>, cpsize))
      else Inr (pk, 0))"

definition st_body :: "u8 list \<Rightarrow> nat \<Rightarrow> nat \<Rightarrow> nat \<Rightarrow> pack_deal \<Rightarrow> fault + (pack_deal \<times> nat)" where
  "st_body src len hl readlen pk =
     (let rest = int len - int readlen in
      if int (pk_size pk) + rest \<le> int hl then
        (case copy_bytes (pk_data pk) (int (pk_size pk)) src 0 rest of
           Inl f \<Rightarrow> Inl f
         | Inr m \<Rightarrow> Inr (pk\<lparr>pk_data := m, pk_size := (pk_size pk + nat rest) mod 65536\<rparr>, len))
      else
        (let k = int hl - int (pk_size pk) in
         case copy_bytes (pk_data pk) (int (pk_size pk)) src 0 k of
           Inl f \<Rightarrow> Inl f
         | Inr m \<Rightarrow> Inr (pk\<lparr>pk_data := m, pk_size := hl\<rparr>, nat k mod 65536)))"

text \<open>
  The rest of the round. When everything at hand has been taken the loop is left, and the function, which
  returns \<open>int\<close>, ends without a return statement.
\<close>

definition st_message :: "nat \<Rightarrow> sticky \<Rightarrow> sticky" where
  "st_message hl s =
     (if pk_headSize < pk_size (st_pack s) \<and> hl = pk_size (st_pack s)
      then s\<lparr>st_msgs := st_msgs s @ [take hl (pk_data (st_pack s))], st_pack := (st_pack s)\<lparr>pk_size := 0\<rparr>\<rparr>
      else s)"

definition st_assemble :: "u8 list \<Rightarrow> nat \<Rightarrow> sticky \<Rightarrow> fault + (sticky \<times> int)" where
  "st_assemble src len s = (case st_head src len (st_pack s) of
     Inl f \<Rightarrow> Inl f
   | Inr (pk1, readlen) \<Rightarrow>
       (case head_len pk1 of
          None \<Rightarrow> Inl Undef
        | Some hl \<Rightarrow>
            if pk_headSize \<le> pk_size pk1 \<and> pk_cap pk1 < hl then Inr (s\<lparr>st_pack := pk1\<rparr>, -1)
            else
              (case st_body src len hl readlen pk1 of
                 Inl f \<Rightarrow> Inl f
               | Inr (pk2, readlen') \<Rightarrow>
                   (case AdjustReadSize readlen' (st_buff s) of
                      Inl f \<Rightarrow> Inl f
                    | Inr b \<Rightarrow>
                        if len \<le> readlen' then Inl Undef
                        else Inr (st_message hl (s\<lparr>st_buff := b, st_pack := pk2\<rparr>), int readlen')))))"

definition st_frame :: "nat \<times> nat \<Rightarrow> nat \<Rightarrow> sticky \<Rightarrow> fault + (sticky \<times> int)" where
  "st_frame p len s = (case st_parseWsHead (mem_from p (st_buff s)) len of
     Inl f \<Rightarrow> Inl f
   | Inr (mem, readsize) \<Rightarrow>
       (case mb_store p mem (st_buff s) of
          Inl f \<Rightarrow> Inl f
        | Inr b0 \<Rightarrow>
            if readsize < 0 then Inr (s\<lparr>st_buff := b0\<rparr>, readsize)
            else
              (case AdjustReadSize (nat readsize) b0 of
                 Inl f \<Rightarrow> Inl f
               | Inr b1 \<Rightarrow>
                   (let len' = nat ((int len - readsize) mod 65536); src = drop (nat readsize) mem in
                    if c_string src = None then Inl Undef
                    else if \<not> 0 < len' then Inl Undef
                    else st_assemble src len' (s\<lparr>st_buff := b1\<rparr>)))))"

definition st_readData :: "allocator \<Rightarrow> sha1_context \<Rightarrow> sticky \<Rightarrow> fault + (sticky \<times> int)" where
  "st_readData malloc ctx s = (case GetReadBuff (st_buff s) of
     Inl f \<Rightarrow> Inl f
   | Inr None \<Rightarrow> Inl Undef
   | Inr (Some (p, len)) \<Rightarrow>
       if \<not> st_shook s then
         (case st_do_handshake malloc ctx (mem_from p (st_buff s)) s of
            Inl f \<Rightarrow> Inl f
          | Inr (s1, _) \<Rightarrow>
              (case AdjustReadSize len (st_buff s1) of
                 Inl f \<Rightarrow> Inl f
               | Inr b \<Rightarrow> Inr (s1\<lparr>st_buff := b, st_shook := True\<rparr>, int len)))
       else st_frame p len s)"

section \<open>What readData makes of its bytes\<close>

lemma st_unmask_bytes:
  "0xFF \<notin> set xs \<Longrightarrow> length pre = off + i \<Longrightarrow>
   st_unmask key (length xs) i off (pre @ xs @ post) = Inr (pre @ mask_from i key xs @ post, True)"
proof (induction xs arbitrary: pre i)
  case (Cons x xs)
  then have "st_unmask key (length xs) (Suc i) off ((pre @ [xor x (key ! (i mod 4))]) @ xs @ post) =
      Inr ((pre @ [xor x (key ! (i mod 4))]) @ mask_from (Suc i) key xs @ post, True)"
    by (intro Cons.IH) simp_all
  with Cons.prems show ?case by (simp add: nth_append list_update_append)
qed simp

lemma filled_adjust:
  assumes "r + k \<le> length xs" and "length xs < 4096"
  shows "AdjustReadSize k (filled xs r) = Inr (filled xs (r + k))"
  using assms by (simp add: AdjustReadSize_def filled_def new_buff set_node_def ListNode_new_def Let_def)

lemma filled_store:
  assumes "length ys = length xs" and "length xs < 4096"
  shows "mb_store (0, 0) (ys @ replicate (4096 - length xs) 0) (filled xs 0) = Inr (filled ys 0)"
  using assms by (simp add: mb_store_def filled_def new_buff set_node_def mem_write_def fun_eq_iff)

lemma parse_client_frame:
  assumes "length key = 4" and "length payload < 126" and "0xFF \<notin> set (mask_from 0 key payload)" and "payload \<noteq> []"
  shows "st_parseWsHead (client_frame op key payload @ tail) (length (client_frame op key payload)) =
    Inr (frame_head op (length payload) @ key @ payload @ tail, 6)"
proof -
  let ?n = "length payload"
  obtain b0 b1 where h: "frame_head op ?n = [b0, b1]" "ws_payLoad (b0, b1) = ?n"
    using head_payLoad[of ?n] assms(2) by (simp add: frame_head_def)
  let ?m = "b0 # b1 # key @ mask_from 0 key payload @ tail"
  have "st_unmask key (length (mask_from 0 key payload)) 0 6 ((b0 # b1 # key) @ mask_from 0 key payload @ tail) =
      Inr ((b0 # b1 # key) @ mask_from 0 key (mask_from 0 key payload) @ tail, True)"
    by (rule st_unmask_bytes) (use assms in simp_all)
  then have u: "st_unmask key ?n 0 6 ?m = Inr (b0 # b1 # key @ payload @ tail, True)" by simp
  have "unat (of_nat ?n :: u64) = ?n" "\<not> 65536 < (of_nat ?n :: u64)"
    using assms(2) by (simp_all add: unat_of_nat word_less_nat_alt)
  moreover have "mem_read ?m 0 2 = Some [b0, b1]" "mem_read ?m 2 4 = Some key" "mem_read ?m 2 0 = Some []"
    using assms(1) by (simp_all add: mem_read_def)
  ultimately show ?thesis
    using assms(2,4) h u by (simp add: st_parseWsHead_def client_frame_def Let_def)
qed

text \<open>A packet that is complete with bytes behind it, into empty packet memory.\<close>

definition st_fresh :: "pack_deal \<Rightarrow> bool" where
  "st_fresh pk \<longleftrightarrow> pk_head pk = Some 0 \<and> length (pk_data pk) = 4096 \<and> pk_size pk = 0 \<and> pk_cap pk = 4096"

lemma assemble_one:
  assumes "st_fresh (st_pack s)" and "hl = le_value (take 2 payload)" and "4 < hl" and "hl < length payload"
    and "length payload < 4096" and "AdjustReadSize (hl - 4) (st_buff s) = Inr b"
  shows "\<exists>s'. st_assemble (payload @ tail) (length payload) s = Inr (s', int (hl - 4)) \<and>
    st_msgs s' = st_msgs s @ [take 4 payload @ take (hl - 4) payload] \<and> st_buff s' = b \<and>
    pk_size (st_pack s') = 0 \<and> st_shook s' = st_shook s \<and> st_sent s' = st_sent s"
proof -
  let ?pk = "st_pack s"
  let ?pk1 = "?pk\<lparr>pk_data := take 4 payload @ drop 4 (pk_data ?pk), pk_size := 4\<rparr>"
  let ?pk2 = "?pk1\<lparr>pk_data := take 4 payload @ take (hl - 4) payload @ drop hl (pk_data ?pk), pk_size := hl\<rparr>"
  have f: "pk_head ?pk = Some 0" "length (pk_data ?pk) = 4096" "pk_size ?pk = 0" "pk_cap ?pk = 4096"
    using assms(1) by (simp_all add: st_fresh_def)
  have len: "4 < length payload" "hl - 4 < length payload" using assms(3,4) by simp_all
  have head: "st_head (payload @ tail) (length payload) ?pk = Inr (?pk1, 4)"
    using len(1) f by (simp add: st_head_def pk_headSize_def copy_bytes_def mem_read_def mem_write_def Let_def)
  have hl: "head_len ?pk1 = Some hl"
    using len(1) f by (simp add: head_len_def head_field_def mem_read_def assms(2) take_append min_absorb1)
  have d: "drop (4 + (hl - 4)) (take 4 payload @ drop 4 (pk_data ?pk)) = drop hl (pk_data ?pk)"
    using assms(3) len(1) by (simp add: drop_append)
  have "nat (int hl - 4) = hl - 4" by simp
  then have body: "st_body (payload @ tail) (length payload) hl 4 ?pk1 = Inr (?pk2, hl - 4)"
    using len f d assms(3-5)
    by (simp add: st_body_def copy_bytes_def mem_read_def mem_write_def Let_def min_absorb1 min_absorb2)
  have "take hl (pk_data ?pk2) = take 4 payload @ take (hl - 4) payload"
    using assms(3,4) len(1) by (simp add: take_append min_absorb1 min_absorb2)
  then show ?thesis
    using head hl body assms(3-6) f
    by (simp add: st_assemble_def st_message_def pk_headSize_def)
qed

text \<open>
  The handshake is not required: a first piece without the end of a request is consumed without an answer, and the
  connection counts as shaken.
\<close>

theorem sticky_skips_handshake:
  assumes "xs \<noteq> []" and "length xs < 4096" and "0 \<notin> set xs" and "\<not> strstr xs (CRLF @ CRLF)"
  shows "st_readData malloc ctx (StickyWrap_new (filled xs 0) txs) =
    Inr ((StickyWrap_new (filled xs (length xs)) txs)\<lparr>st_shook := True\<rparr>, int (length xs))"
  using filled_read[OF assms(1,2)] c_string_prefix[OF assms(3)] assms(4)
  by (simp add: st_readData_def st_do_handshake_def StickyWrap_new_def)

theorem sticky_skips_handshake_witness:
  "st_readData zero_alloc raw_context (StickyWrap_new (filled [71, 69, 84] 0) []) =
    Inr ((StickyWrap_new (filled [71, 69, 84] 3) [])\<lparr>st_shook := True\<rparr>, 3)"
  using sticky_skips_handshake[of "[71, 69, 84]" zero_alloc raw_context "[]"] by (simp add: CRLF_def numeral_3_eq_3)

text \<open>
  C36. After the handshake and with nothing of a packet at hand, one frame of less than 126 bytes without a masked byte
  0xFF is received at the start of the first node. A packet of more than 4 bytes at the start of its data, with bytes
  behind it, is unmasked and its end found, but its message has
  the head of the packet again in the place of its body, and the four bytes of the head are not counted: of the packet's
  \<open>hl\<close> bytes only \<open>hl - 4\<close> are taken from the buffer.
\<close>

theorem sticky_packet:
  assumes "length key = 4" and "length payload < 126" and "0xFF \<notin> set (mask_from 0 key payload)"
    and "hl = le_value (take 2 payload)" and "4 < hl" and "hl < length payload"
    and "frame = client_frame op key payload" and "st_buff s = filled frame 0" and "st_fresh (st_pack s)" and "st_shook s"
  shows "\<exists>s'. st_readData malloc ctx s = Inr (s', int (hl - 4)) \<and>
    st_msgs s' = st_msgs s @ [take 4 payload @ take (hl - 4) payload] \<and>
    st_buff s' = filled (frame_head op (length payload) @ key @ payload) (6 + (hl - 4))"
proof -
  let ?n = "length payload" and ?plain = "frame_head op (length payload) @ key @ payload"
  let ?tail = "replicate (4096 - length frame) (0::u8)"
  have len: "length frame = 6 + ?n" "length ?plain = length frame" "length frame < 4096" "frame \<noteq> []"
    using assms(1,2) by (simp_all add: assms(7) client_frame_def frame_head_def)
  note fr = filled_read(1,2)[OF len(4,3)]
  have mem: "mem_from (0, 0) (filled frame 0) = frame @ ?tail"
    using len(3) by (simp add: mem_from_def filled_def set_node_def)
  have ne: "payload \<noteq> []" using assms(5,6) by auto
  have parse: "st_parseWsHead (frame @ ?tail) (length frame) = Inr (?plain @ ?tail, 6)"
    using parse_client_frame[OF assms(1-3) ne, of op ?tail] by (simp add: assms(7))
  have store: "mb_store (0, 0) (?plain @ ?tail) (filled frame 0) = Inr (filled ?plain 0)"
    by (rule filled_store) (use len in simp_all)
  have adj: "AdjustReadSize 6 (filled ?plain 0) = Inr (filled ?plain 6)"
    using filled_adjust[of 0 6 ?plain] len by simp
  have src: "drop 6 (?plain @ ?tail) = payload @ ?tail" using assms(1) by (simp add: frame_head_def)
  have "0 \<in> set (payload @ ?tail)" using len(3) by simp
  then have nul: "c_string (payload @ ?tail) \<noteq> None" by (simp only: c_string_def) simp
  have adj': "AdjustReadSize (hl - 4) (filled ?plain 6) = Inr (filled ?plain (6 + (hl - 4)))"
    by (rule filled_adjust) (use len assms(5,6) in simp_all)
  have n: "nat ((int (length frame) - 6) mod 65536) = ?n" "0 < ?n" using len(1) assms(2) ne by simp_all
  from assemble_one[of "s\<lparr>st_buff := filled ?plain 6\<rparr>" hl payload "filled ?plain (6 + (hl - 4))" ?tail] assms(2,4-6,9) adj'
  obtain s' where s': "st_assemble (payload @ ?tail) ?n (s\<lparr>st_buff := filled ?plain 6\<rparr>) = Inr (s', int (hl - 4))"
    "st_msgs s' = st_msgs s @ [take 4 payload @ take (hl - 4) payload]" "st_buff s' = filled ?plain (6 + (hl - 4))"
    by auto
  have "st_frame (0, 0) (length frame) s = Inr (s', int (hl - 4))"
    using nul n s'(1)
    by (simp add: st_frame_def assms(8) mem parse store adj src Let_def del: append_assoc drop_append)
  with fr assms(8,10) s' show ?thesis by (simp add: st_readData_def)
qed

text \<open>The packet 6, 0, 1, 0, 8, 9 with two bytes behind it, in a frame with the key 0: its message is 6, 0, 1, 0, 6, 0.\<close>

theorem sticky_packet_witness:
  "\<exists>s'. st_readData zero_alloc raw_context
      ((StickyWrap_new (filled (client_frame 2 [0, 0, 0, 0] [6, 0, 1, 0, 8, 9, 7, 7]) 0) [])\<lparr>st_shook := True\<rparr>) = Inr (s', 2) \<and>
    st_msgs s' = [[6, 0, 1, 0, 6, 0]]"
proof -
  let ?p = "[6, 0, 1, 0, 8, 9, 7, 7] :: u8 list" and ?k = "[0, 0, 0, 0] :: u8 list"
  let ?s = "(StickyWrap_new (filled (client_frame 2 ?k ?p) 0) [])\<lparr>st_shook := True\<rparr>"
  have "st_fresh (st_pack ?s)" "st_shook ?s" "st_buff ?s = filled (client_frame 2 ?k ?p) 0"
    by (simp_all add: StickyWrap_new_def st_fresh_def)
  note s = this
  have "\<exists>s'. st_readData zero_alloc raw_context ?s = Inr (s', int (6 - 4)) \<and>
      st_msgs s' = st_msgs ?s @ [take 4 ?p @ take (6 - 4) ?p] \<and>
      st_buff s' = filled (frame_head 2 (length ?p) @ ?k @ ?p) (6 + (6 - 4))"
    by (rule sticky_packet[OF _ _ _ _ _ _ refl s(3,1,2)]) simp_all
  then obtain s' where r: "st_readData zero_alloc raw_context ?s = Inr (s', int (6 - 4))"
    "st_msgs s' = st_msgs ?s @ [take 4 ?p @ take (6 - 4) ?p]" by blast
  have "int (6 - 4) = 2" "st_msgs ?s = []" "take 4 ?p @ take (6 - 4) ?p = [6, 0, 1, 0, 6, 0]"
    by (simp_all add: StickyWrap_new_def)
  with r show ?thesis by (intro exI[of _ s']) (simp only: append_Nil simp_thms)
qed

end
