(* ===== verification/Singleton.thy ===== *)
theory Singleton
  imports Prelude
begin

text \<open>
  ExtNet/common/Singleton.h: the instance is made on first use. Each thread that calls \<open>GetIns\<close> makes its
  three accesses to \<open>_ins\<close> as steps of their own, since nothing synchronises them; instances are addresses.
\<close>

text \<open>A thread of \<open>GetIns\<close>: before the test, in the branch that makes the instance, before the return.\<close>

datatype getins_pc = Gi_test | Gi_make | Gi_return

record singleton =
  sg_ins :: "nat option"
  sg_fresh :: nat
  sg_threads :: "getins_pc list"
  sg_results :: "nat option list"

definition singleton_new :: "nat \<Rightarrow> singleton" where
  "singleton_new n = \<lparr>sg_ins = None, sg_fresh = 0, sg_threads = replicate n Gi_test, sg_results = []\<rparr>"

definition GetIns_access :: "nat \<Rightarrow> singleton \<Rightarrow> singleton" where
  "GetIns_access i s = (case sg_threads s ! i of
     Gi_test \<Rightarrow> s\<lparr>sg_threads := (sg_threads s)[i := if sg_ins s = None then Gi_make else Gi_return]\<rparr>
   | Gi_make \<Rightarrow> s\<lparr>sg_ins := Some (sg_fresh s), sg_fresh := Suc (sg_fresh s), sg_threads := (sg_threads s)[i := Gi_return]\<rparr>
   | Gi_return \<Rightarrow> s\<lparr>sg_threads := (sg_threads s)[i := Gi_test], sg_results := sg_results s @ [sg_ins s]\<rparr>)"

inductive singleton_step :: "singleton \<Rightarrow> singleton \<Rightarrow> bool" where
  access: "i < length (sg_threads s) \<Longrightarrow> singleton_step s (GetIns_access i s)"

text \<open>One thread, in every state it can reach: the one instance is the result of every call.\<close>

definition one_instance :: "singleton \<Rightarrow> bool" where
  "one_instance s \<longleftrightarrow> (\<exists>pc. sg_threads s = [pc] \<and>
     (sg_ins s = None \<and> sg_fresh s = 0 \<and> sg_results s = [] \<and> pc \<noteq> Gi_return \<or>
      sg_ins s = Some 0 \<and> set (sg_results s) \<subseteq> {Some 0} \<and> pc \<noteq> Gi_make))"

interpretation single: step_invariant singleton_step one_instance
  by unfold_locales
     (auto elim!: singleton_step.cases simp: one_instance_def GetIns_access_def split: getins_pc.splits)

text \<open>
  With one caller every call returns the same instance. With two callers an interleaving of their first calls hands out
  two different ones.
\<close>

theorem singleton_instances:
  "(\<forall>s. singleton_step\<^sup>*\<^sup>* (singleton_new 1) s \<longrightarrow> set (sg_results s) \<subseteq> {Some 0}) \<and>
   (\<exists>s. singleton_step\<^sup>*\<^sup>* (singleton_new 2) s \<and> sg_results s = [Some 0, Some 1])"
proof
  have "one_instance (singleton_new 1)" by (simp add: one_instance_def singleton_new_def)
  then show "\<forall>s. singleton_step\<^sup>*\<^sup>* (singleton_new 1) s \<longrightarrow> set (sg_results s) \<subseteq> {Some 0}"
    using single.inv_run unfolding one_instance_def by fastforce
  have run: "singleton_step\<^sup>*\<^sup>* s (GetIns_access i t)" if "singleton_step\<^sup>*\<^sup>* s t" "i < length (sg_threads t)" for s t i
    using that by (meson access rtranclp.rtrancl_into_rtrancl)
  let ?s = "GetIns_access 1 (GetIns_access 1 (GetIns_access 0 (GetIns_access 0 (GetIns_access 1 (GetIns_access 0 (singleton_new 2))))))"
  have "singleton_step\<^sup>*\<^sup>* (singleton_new 2) ?s"
    by (intro run rtranclp.rtrancl_refl) (simp_all add: GetIns_access_def singleton_new_def numeral_2_eq_2)
  moreover have "sg_results ?s = [Some 0, Some 1]"
    by (simp add: GetIns_access_def singleton_new_def numeral_2_eq_2)
  ultimately show "\<exists>s. singleton_step\<^sup>*\<^sup>* (singleton_new 2) s \<and> sg_results s = [Some 0, Some 1]" by blast
qed

end
