(* ===== verification/Buffer_Tests.thy ===== *)
theory Buffer_Tests
  imports Buffer_Correct
begin

text \<open>
  tests/buffer\_test.cc on the model: each test is a function that makes the calls of the test and yields whether
  all its assertions hold; undefined behaviour, an exception or a call that does not return is a failure.
  The test \<open>push\_drain\<close> draws its input at random; what it draws is an argument.
\<close>

section \<open>Calls and assertions\<close>

definition test_digits :: "u8 list" where
  "test_digits = [48, 49, 50, 51, 52, 53, 54, 55, 56, 57]"

definition sized :: "nat \<Rightarrow> buffer" where
  "sized n = set_default_chunk_size n new_buffer"

definition pushed :: "u8 list \<Rightarrow> buffer \<Rightarrow> buffer" where
  "pushed xs b = fst (push zero_alloc xs b)"

definition drained :: "nat \<Rightarrow> buffer \<Rightarrow> buffer" where
  "drained n b = fst (drain n b)"

text \<open>\<open>b[i]\<close>, and the assertions that give \<open>size()\<close> and every byte.\<close>

definition elem :: "buffer \<Rightarrow> nat \<Rightarrow> u8 option" where
  "elem b i = (case index b i of Inl _ \<Rightarrow> None | Inr l \<Rightarrow> load 0 b l)"

definition reads :: "buffer \<Rightarrow> u8 list \<Rightarrow> bool" where
  "reads b xs \<longleftrightarrow> size_buffer b = length xs \<and> map (elem b) [0..<length xs] = map Some xs"

text \<open>\<open>space\<close> or \<open>spaceChunk\<close>, the bytes written through the pointer, and \<open>spaceHaveSeted\<close>.\<close>

definition filled_space :: "nat \<Rightarrow> u8 list \<Rightarrow> buffer \<Rightarrow> buffer option" where
  "filled_space n xs b = (case space zero_alloc n b of (b', Inr q) \<Rightarrow> write_commit q xs b' | _ \<Rightarrow> None)"

definition filled_chunk :: "nat \<Rightarrow> u8 list \<Rightarrow> buffer \<Rightarrow> buffer option" where
  "filled_chunk len xs b = (case spaceChunk zero_alloc b of
     (b', Inr (q, n)) \<Rightarrow> if n = len then write_commit q xs b' else None
   | _ \<Rightarrow> None)"

section \<open>The tests\<close>

definition test_push :: bool where
  "test_push =
     (let b0 = sized 2; b1 = pushed [49] b0; b2 = pushed [50] b1; b3 = pushed [51] b2; b4 = pushed (drop 4 test_digits) b3 in
      reads b0 [] \<and> reads b1 [49] \<and> reads b2 [49, 50] \<and> reads b3 [49, 50, 51] \<and> reads b4 (tl test_digits))"

definition test_drain :: bool where
  "test_drain =
     (let b0 = pushed test_digits (sized 2); b1 = drained 1 b0; b2 = drained 3 b1; b3 = pushed test_digits b2;
          b4 = drained 7 b3; b5 = drained (size_buffer b4) b4 in
      reads b0 test_digits \<and> reads b1 (drop 1 test_digits) \<and> reads b2 (drop 4 test_digits) \<and> reads b3 (drop 4 test_digits @ test_digits) \<and>
      reads b4 (drop 7 (drop 4 test_digits @ test_digits)) \<and> size_buffer b5 = 0)"

text \<open>\<open>data\<close> for \<open>n\<close> bytes: the bytes at the pointer are the first of \<open>xs\<close>, and the buffer reads as before.\<close>

definition data_reads :: "nat \<Rightarrow> u8 list \<Rightarrow> buffer \<Rightarrow> buffer option" where
  "data_reads n xs b = (case data zero_alloc n b of
     Some (b', Inr (Some q)) \<Rightarrow> if read_ptr b' q n = Some (take n xs) \<and> reads b' xs then Some b' else None
   | _ \<Rightarrow> None)"

fun data_rounds :: "nat list \<Rightarrow> u8 list \<Rightarrow> buffer \<Rightarrow> buffer option" where
  "data_rounds [] xs b = Some b"
| "data_rounds (n # ns) xs b = (case data_reads n xs b of None \<Rightarrow> None | Some b' \<Rightarrow> data_rounds ns xs b')"

definition test_data :: bool where
  "test_data = (case data_rounds [1..<10] test_digits (pushed test_digits (sized 2)) of
     None \<Rightarrow> False
   | Some b \<Rightarrow>
       (let b1 = foldl (\<lambda>b c. pushed [c] b) (drained (size_buffer b) b) test_digits in
        reads b1 test_digits \<and> (case data_reads 5 test_digits b1 of None \<Rightarrow> False | Some _ \<Rightarrow> True)))"

fun drain_rounds :: "nat list \<Rightarrow> buffer \<Rightarrow> bool" where
  "drain_rounds [] b \<longleftrightarrow> True"
| "drain_rounds (i # is) b \<longleftrightarrow> (case drain 1 b of (b', n) \<Rightarrow> n = 1 \<and> reads b' (drop i test_digits) \<and> drain_rounds is b')"

definition test_dataChunk :: bool where
  "test_dataChunk = drain_rounds [1..<10] (foldl (\<lambda>b c. pushed [c] b) (sized 2) test_digits)"

definition test_space :: bool where
  "test_space = (case filled_space 1 [48] (sized 2) of
     None \<Rightarrow> False
   | Some b1 \<Rightarrow> reads b1 [48] \<and>
       (case filled_space 10 [49, 50] b1 of None \<Rightarrow> False | Some b2 \<Rightarrow> reads b2 [48, 49, 50]))"

definition test_spaceChunk :: bool where
  "test_spaceChunk = (case filled_chunk 2 [48] (sized 2) of
     None \<Rightarrow> False
   | Some b1 \<Rightarrow> reads b1 [48] \<and>
       (case filled_chunk 1 [49] b1 of
          None \<Rightarrow> False
        | Some b2 \<Rightarrow> reads b2 [48, 49] \<and>
            (case Option.bind (filled_chunk 2 [50, 51] b2) (filled_chunk 2 [52]) of
               None \<Rightarrow> False
             | Some b3 \<Rightarrow> reads b3 (take 5 test_digits))))"

definition test_swap :: bool where
  "test_swap =
     (let d2 = [97, 98, 99, 100, 101, 102, 103, 104, 105, 106, 107, 108, 109, 110];
          (b1, b2) = swap (pushed test_digits (sized 2)) (pushed d2 (sized 3)) in
      reads b1 d2 \<and> reads b2 test_digits)"

text \<open>
  \<open>push\_drain\<close>: a round pushes bytes, reads the buffer as the end of all that has been pushed, and, when
  a number is drawn, takes that many bytes modulo the size, plus one. \<open>None\<close> is a failed assertion
  or a fault.
\<close>

definition taken :: "nat \<Rightarrow> buffer \<Rightarrow> (u8 list \<times> buffer) option" where
  "taken n b = (case data zero_alloc n b of
     Some (b', Inr (Some q)) \<Rightarrow> map_option (\<lambda>xs. (xs, drained n b')) (read_ptr b' q n)
   | _ \<Rightarrow> None)"

definition pd_round :: "u8 list \<times> nat option \<Rightarrow> u8 list \<times> u8 list \<times> buffer \<Rightarrow> (u8 list \<times> u8 list \<times> buffer) option" where
  "pd_round d s = (case (d, s) of ((xs, r), (inp0, out, b0)) \<Rightarrow>
     (let inp = inp0 @ xs; b = pushed xs b0; n = size_buffer b in
      if length xs \<le> n \<and> map (elem b) [n - length xs..<n] = map Some xs \<and>
         n \<le> length inp \<and> map (elem b) [0..<n] = map Some (drop (length inp - n) inp)
      then
        (case r of
           None \<Rightarrow> Some (inp, out, b)
         | Some k \<Rightarrow>
             if n = 0 then Some (inp, out, b)
             else map_option (\<lambda>(ys, b'). (inp, out @ ys, b')) (taken (k mod n + 1) b))
      else None))"

fun pd_rounds :: "(u8 list \<times> nat option) list \<Rightarrow> u8 list \<times> u8 list \<times> buffer \<Rightarrow> (u8 list \<times> u8 list \<times> buffer) option" where
  "pd_rounds [] s = Some s"
| "pd_rounds (d # ds) s = Option.bind (pd_round d s) (pd_rounds ds)"

definition test_push_drain :: "(u8 list \<times> nat option) list \<Rightarrow> bool" where
  "test_push_drain ds = (case pd_rounds ds ([], [], sized 20) of
     None \<Rightarrow> False
   | Some (inp, out, b) \<Rightarrow>
       (case taken (size_buffer b) b of
          None \<Rightarrow> False
        | Some (ys, _) \<Rightarrow> length inp = length (out @ ys) \<and> inp = out @ ys))"

section \<open>They pass\<close>

lemma test_push_passes: "test_push" by code_simp
lemma test_drain_passes: "test_drain" by code_simp
lemma test_data_passes: "test_data" by code_simp
lemma test_dataChunk_passes: "test_dataChunk" by code_simp
lemma test_space_passes: "test_space" by code_simp
lemma test_spaceChunk_passes: "test_spaceChunk" by code_simp
lemma test_swap_passes: "test_swap" by code_simp

text \<open>
  The tests of the repository pass on the model.
\<close>

theorem buffer_tests:
  "test_push \<and> test_drain \<and> test_data \<and> test_dataChunk \<and> test_space \<and> test_spaceChunk \<and> test_swap"
  by (intro conjI test_push_passes test_drain_passes test_data_passes test_dataChunk_passes test_space_passes
      test_spaceChunk_passes test_swap_passes)

section \<open>push\_drain passes, whatever it draws\<close>

lemma elem_correct: "wf_buffer b \<Longrightarrow> i < length (contents b) \<Longrightarrow> elem b i = Some (contents b ! i)"
  using index_correct[of b i 0] wf_bufferD[of b] by (auto simp: elem_def)

lemma elems_correct:
  assumes "wf_buffer b" and "j \<le> length (contents b)"
  shows "map (elem b) [j..<length (contents b)] = map Some (drop j (contents b))"
  using assms by (intro nth_equalityI) (simp_all add: elem_correct)

lemma pushed_correct:
  assumes "wf_buffer b" and "length (contents b) + length xs < 2 ^ 64"
  shows "wf_buffer (pushed xs b) \<and> contents (pushed xs b) = contents b @ xs"
proof -
  obtain b' r where p: "push zero_alloc xs b = (b', r)" by fastforce
  with push_correct[OF assms(1) alloc_ok_zero assms(2) p] alloc_total_no_throw(1)[OF alloc_total_zero, of xs b]
  show ?thesis by (auto simp: pushed_def)
qed

lemma taken_correct:
  assumes "wf_buffer b" and "0 < n" and "n \<le> length (contents b)"
  shows "\<exists>b'. taken n b = Some (take n (contents b), b') \<and> wf_buffer b' \<and> contents b' = drop n (contents b)"
proof -
  have "zero_alloc n \<noteq> None" by (simp add: zero_alloc_def)
  with data_correct[OF assms(1) alloc_ok_zero assms(2,3)] obtain b1 q where
    d: "data zero_alloc n b = Some (b1, Inr (Some q))" "wf_buffer b1" "contents b1 = contents b"
      "read_ptr b1 q n = Some (take n (contents b))" by auto
  obtain b2 m where "drain n b1 = (b2, m)" by fastforce
  with drain_correct[OF d(2) this] d show ?thesis by (simp add: taken_def drained_def)
qed

text \<open>What is left in the buffer behind the rounds.\<close>

fun pd_left :: "(u8 list \<times> nat option) list \<Rightarrow> nat \<Rightarrow> nat" where
  "pd_left [] n = n"
| "pd_left ((xs, r) # ds) n =
     (let m = n + length xs in pd_left ds (case r of None \<Rightarrow> m | Some k \<Rightarrow> m - (if m = 0 then 0 else k mod m + 1)))"

lemma pd_round_correct:
  assumes "wf_buffer b" and "inp = out @ contents b" and "length inp + length xs < 2 ^ 64"
  shows "\<exists>out' b'. pd_round (xs, r) (inp, out, b) = Some (inp @ xs, out', b') \<and> wf_buffer b' \<and>
    inp @ xs = out' @ contents b' \<and>
    length (contents b') = (let m = length (contents b) + length xs in
      case r of None \<Rightarrow> m | Some k \<Rightarrow> m - (if m = 0 then 0 else k mod m + 1))"
proof -
  let ?b = "pushed xs b" and ?n = "length (contents b) + length xs"
  have p: "wf_buffer ?b" "contents ?b = contents b @ xs" using pushed_correct[OF assms(1), of xs] assms(2,3) by simp_all
  have n: "size_buffer ?b = ?n" using wf_bufferD(2)[OF p(1)] by (simp add: size_buffer_def p(2))
  have a: "map (elem ?b) [?n - length xs..<?n] = map Some xs" "map (elem ?b) [0..<?n] = map Some (contents b @ xs)"
    using elems_correct[OF p(1), of "length (contents b)"] elems_correct[OF p(1), of 0] by (simp_all add: p(2))
  show ?thesis
  proof (cases "r = None \<or> ?n = 0")
    case True
    with p n a assms(2) show ?thesis by (auto simp: pd_round_def Let_def split: option.split)
  next
    case False
    then obtain k where k: "r = Some k" "0 < ?n" by auto
    have "0 < Suc (k mod ?n)" "Suc (k mod ?n) \<le> length (contents ?b)" using k(2) by (simp_all add: p(2) Suc_leI)
    from taken_correct[OF p(1) this] obtain ys b' where
      t: "taken (Suc (k mod ?n)) ?b = Some (ys, b')" "wf_buffer b'" "ys @ contents b' = contents ?b"
        "length (contents b') = length (contents ?b) - Suc (k mod ?n)" by auto
    have "pd_round (xs, r) (inp, out, b) = Some (inp @ xs, out @ ys, b')"
      using n a assms(2) k t(1) by (cases "contents b = []") (simp_all add: pd_round_def Let_def)
    moreover have "inp @ xs = (out @ ys) @ contents b'" using t(3) p(2) assms(2) by simp
    moreover have "length (contents b') = (let m = ?n in
      case r of None \<Rightarrow> m | Some k \<Rightarrow> m - (if m = 0 then 0 else k mod m + 1))"
      using t(4) p(2) k by (simp add: Let_def)
    ultimately show ?thesis using t(2) by blast
  qed
qed

lemma pd_rounds_correct:
  assumes "wf_buffer b" and "inp = out @ contents b" and "length inp + sum_list (map (length \<circ> fst) ds) < 2 ^ 64"
  shows "\<exists>inp' out' b'. pd_rounds ds (inp, out, b) = Some (inp', out', b') \<and> wf_buffer b' \<and>
    inp' = out' @ contents b' \<and> length (contents b') = pd_left ds (length (contents b))"
  using assms
proof (induction ds arbitrary: inp out b)
  case (Cons d ds)
  obtain xs r where d: "d = (xs, r)" by fastforce
  have "length inp + length xs < 2 ^ 64" using Cons.prems(3) d by simp
  from pd_round_correct[OF Cons.prems(1,2) this, of r] obtain out1 b1 where
    s: "pd_round (xs, r) (inp, out, b) = Some (inp @ xs, out1, b1)" "wf_buffer b1" "inp @ xs = out1 @ contents b1"
      "pd_left ds (length (contents b1)) = pd_left (d # ds) (length (contents b))"
    by (auto simp: d Let_def)
  have "length (inp @ xs) + sum_list (map (length \<circ> fst) ds) < 2 ^ 64" using Cons.prems(3) d by (simp add: comp_def)
  from Cons.IH[OF s(2,3) this] s(1,4) show ?case by (simp add: d)
qed simp

text \<open>
  The test passes for everything that it may draw, if less than \<open>2^64\<close> bytes are drawn and the last round leaves
  something in the buffer; otherwise its last call of \<open>data\<close> takes the end of an empty list.
\<close>

theorem push_drain_test:
  assumes "sum_list (map (length \<circ> fst) ds) < 2 ^ 64" and "pd_left ds 0 \<noteq> 0"
  shows "test_push_drain ds"
proof -
  have b: "wf_buffer (sized 20)" "contents (sized 20) = []"
    by (simp_all add: sized_def set_default_chunk_size_def wf_buffer_def new_buffer_def contents_def)
  have "length [] + sum_list (map (length \<circ> fst) ds) < 2 ^ 64" using assms(1) by simp
  from pd_rounds_correct[OF b(1) _ this, of "[]"] obtain inp out b' where
    r: "pd_rounds ds ([], [], sized 20) = Some (inp, out, b')" "wf_buffer b'" "inp = out @ contents b'"
      "length (contents b') = pd_left ds 0"
    by (auto simp: b(2))
  have n: "size_buffer b' = length (contents b')" using wf_bufferD(2)[OF r(2)] by (simp add: size_buffer_def)
  with taken_correct[OF r(2), of "size_buffer b'"] assms(2) r show ?thesis by (auto simp: test_push_drain_def)
qed

lemma push_drain_test_empty: "\<not> test_push_drain [([1, 2, 3], Some 2)]"
  by code_simp

theorem push_drain_test_witness: "test_push_drain [([1, 2, 3], Some 4), ([4, 5, 6], None), ([7, 8, 9], Some 0)]"
  by (rule push_drain_test) simp_all

end
