(* ===== verification/Spec2Isabelle.thy ===== *)
theory Spec2Isabelle
  imports EchoServer PoolStart Utf8_Correct Lifetime WsSession Gate Console Client StickyWrap Singleton Buffer_Tests
begin

text \<open>
  Verification of multithread-libevent-example.

  \<^bold>\<open>The program.\<close> The repository holds two server libraries over libevent. The first (src/*.cc,
  namespace \<open>tl\<close>) is an echo server: \<open>main\<close> opens four listeners on one port, each with a
  \<open>Dispatcher\<close>, an event loop that a worker of the \<open>ThreadPool\<close> runs; an accepted
  connection becomes a \<open>Handler\<close> that moves bytes between the socket and two \<open>buffer\<close>s.
  The second (src/ExtNet) serves TCP packets and WebSocket frames: a service accepts connections, its
  connection manager registers them, and a connection reads from its socket (\<open>FdBridge\<close>) into a
  \<open>memoryBuff\<close>, from which \<open>TcpStickyWrap\<close> assembles packets and \<open>WsConnect\<close> answers the handshake
  (handshake.c, over sha1.c and base64.c) and then parses frames (\<open>WsStickyWrap\<close>).

  \<^bold>\<open>How it is modelled.\<close> The definitions have the names of the code. A class is a record, a method a
  function that returns the new state; undefined behaviour, a failed assertion and \<open>std::bad_alloc\<close>
  are values of \<open>fault\<close> in a sum, so that every theorem that gives an \<open>Inr\<close> also says that nothing
  of this kind happens. Memory is a list of bytes with checked reads and writes (Prelude), linked
  nodes live in a store from addresses (MemoryBuff), and bytes and hash values are words; sizes are
  naturals with the wrap-around of their C type written out. Uninitialised memory is an argument.
  Code outside the repository is an argument as well: the allocator, the kernel's side of a socket as
  a script of what \<open>recv\<close> and \<open>send\<close> find (Socket), the results of the calls that open a socket
  (Listener). Loops that need not end are partial functions, where \<open>None\<close> is a call that does not
  return. Threads are interleavings of critical sections (ThreadPool, PoolStart, Dispatcher, EchoServer, Lifetime,
  Gate, Singleton).

  \<^bold>\<open>Theories of the first library.\<close>
    \<^item> Prelude: faults, \<open>size_t\<close> arithmetic, checked memory, writing through a pointer, and the locales
      \<open>step_invariant\<close> and \<open>measured_step\<close> on step relations.
    \<^item> Byte_Queue: what a handler relies on of its buffers, as a locale; Buffer models buffer.h and
      buffer.cc, Buffer_Correct proves the class invariant and that any mix of operations on two buffers, within
      the contract \<open>op_pre\<close> and wherever an allocation fails, acts on FIFO queues of bytes, and interprets the locale; Buffer_Tests runs tests/buffer_test.cc on the model.
    \<^item> Handler, Handler_Correct: handler.h and handler.cc; the echo is exact whatever the socket does.
    \<^item> ThreadPool: thread_pool.h and thread_pool.cc as a step relation; order, exactly-once execution,
      no lost wakeup, and termination of the shutdown. PoolStart: its constructor beside the workers already started.
    \<^item> Dispatcher: dispatcher.h and dispatcher.cc; order, no lost activation, graceful stop, and the
      \<open>join\<close> that comes too late.
    \<^item> Listener: listener.cc, and the opening of the services of the second library.
    \<^item> EchoServer: main.cc. The constructor of the pool runs first, beside the workers it has started (\<open>program\<close>, by
      PoolStart); then the main thread, the pool, the dispatchers, the listeners and all connections are one
      state (\<open>server\<close>). The invariants of ThreadPool and Handler_Correct carry over to every interleaving. The server comes up,
      echoes on every connection, and loses no descriptor.

  \<^bold>\<open>Theories of the second library.\<close>
    \<^item> Base64, Base64_Correct: common/base64.c against RFC 4648, with the round trip.
    \<^item> Digest, Sha1, Sha1_Correct: common/sha1.c against FIPS 180-4; the locale says that a digest does not
      depend on how its message is cut into pieces.
    \<^item> Utf8, Utf8_Correct: common/utf8.c against RFC 3629.
    \<^item> Handshake, Handshake_Correct: common/handshake.c against RFC 6455, and its memory safety.
    \<^item> Limited_Queue, MemoryBuff, MemoryBuff_Correct: memoryBuff/*; a queue below 8192 bytes, and why not
      beyond. The locale is the contract that the reading side uses.
    \<^item> BaseType: common/BaseType.h. Socket: the kernel's side. FdBridge: common/FdBridge.cpp, with the
      proof that what is received is stored.
    \<^item> TcpSticky: tcp/TcpStickyWrap.cpp and TcpConnect.cpp.
    \<^item> WsSticky, WsSticky_Correct: ws/WsStickyWrap.cpp; whole control frames, the parser's type, incomplete
      heads, data frames, frames to the client.
    \<^item> WsConnect: ws/WsConnect.cpp, from the bytes of the socket to the response of RFC 6455.
    \<^item> Service: Net/TcpService.cpp, Net/WsService.cpp and the connection managers, for any class of
      connections with the laws of the locale \<open>connection_class\<close>, interpreted on both classes.
    \<^item> Lifetime: the descriptors and events of a service and its connections, from \<open>accept\<close> to the destructors, with
      \<open>OnStop\<close> in one thread and the event loop in another; that nothing is lost, and where the two threads collide.
      \<open>OnStop\<close> is the sequence of steps \<open>stop_next\<close>, and \<open>net_OnStop\<close> relates a state to what it can come to. Service
      has the operations of the managers, \<open>OnStop\<close> of the manager among them, without a second thread.
    \<^item> WsSession: a WebSocket connection from its first byte, the handshake and the frames behind it.
    \<^item> Gate: Gate/GateServer.cpp, the thread that takes the packets and its end.
    \<^item> Console: the main functions Net.cc and Gate/Gate.cpp with the loop over standard input and when it ends; \<open>main\<close> of
      Net.cc and the thread of the service are one step relation over the state of Lifetime, so that a \<open>read\<close> that does
      not return keeps \<open>join\<close>, and with it \<open>main\<close>, from returning.
    \<^item> Client: client.cc, its callbacks in any order, and that a server finds the lines typed in its output.
    \<^item> StickyWrap: memoryBuff/stickyWrap.cpp, the handshake, the parser and the assembly of packets in one class.
    \<^item> Singleton: common/Singleton.h, and what unsynchronised first calls do.

  \<^bold>\<open>Bounds.\<close> \<open>mb_destroy_loop\<close> has the number of nodes ever made plus one as fuel, and every round frees
  one; \<open>zero_until\<close> of SHA-1 has 64, more than the bytes of a block. The start-up of the echo server is bounded by
  the measure \<open>boot_work\<close>. All other recursive definitions
  are total by a measure or partial functions. The model of \<open>char\<close> is signed, the host
  little-endian, the bit fields of \<open>ws_base\<close> laid out from the low bit, as on x86 Linux.

  \<^bold>\<open>Not modelled.\<close> Destructors beyond the descriptors, events and nodes that they free; the accessors; what
  follows the destructor of the pool in main.cc, which is not reached; the calls of client.cc that connect; memory
  exhaustion in libevent and in \<open>new\<close> of the second library; logging and the build. \<open>OnStop\<close> visits the entries of
  the unordered map in the order of the list that stands for it. \<open>std::future\<close>, the return channel
  of \<open>ThreadPool::post\<close>, has no counterpart. Threads interleave at critical sections or, where the code has no
  lock (PoolStart, Lifetime, Singleton, Gate), at the accesses named in the theory; that a data race is undefined in
  itself is not expressible, and where the code has one it is a finding of the manifest.
\<close>

end
